theory Spec2Isabelle
  imports Main "HOL-Library.Word" "HOL-Library.AList" "HOL-Library.Multiset"
begin

unbundle bit_operations_syntax

section \<open>SHAD data types: string encodings into 64-bit words\<close>

text \<open>
  The embedded source is \<^verbatim>\<open>include/shad/extensions/data_types/data_types.h\<close>: the
  specialisations \<^verbatim>\<open>encode<uint64_t, std::string, DT>\<close> and
  \<^verbatim>\<open>decode<uint64_t, std::string, DT>\<close>. A \<^verbatim>\<open>std::string\<close> is a list of
  8-bit characters, a \<^verbatim>\<open>uint64_t\<close> is a 64-bit word.
\<close>

type_synonym u64 = "64 word"

text \<open>
  \<^verbatim>\<open>enum data_t\<close>, with the constructors in the order of the source (\<open>INT_t\<close> is
  the source's \<^verbatim>\<open>INT\<close>, a name that HOL's syntax reserves).
\<close>

datatype data_t =
  STRING | CHARS | UINT | INT_t | FLOAT | DOUBLE | BOOL | DATE | USDATE | DATE_TIME
  | IP_ADDRESS | LIST_UINT | LIST_INT | LIST_DOUBLE | NONE

text \<open>
  \<^verbatim>\<open>constexpr uint64_t kNullValue<uint64_t> = std::numeric_limits<int64_t>::max();\<close>
\<close>

definition kNullValue :: u64 where
  "kNullValue = 0x7FFFFFFFFFFFFFFF"

subsection \<open>The standard library's integer conversions\<close>

text \<open>
  The exceptions of \<^verbatim>\<open>std::stoull\<close> and \<^verbatim>\<open>std::stoll\<close>.
\<close>

datatype exn = invalid_argument | out_of_range

text \<open>
  \<^verbatim>\<open>isspace\<close> and \<^verbatim>\<open>isdigit\<close> in the "C" locale.
\<close>

definition isspace :: "char \<Rightarrow> bool" where
  "isspace c \<longleftrightarrow> (of_char c :: nat) = 32 \<or> (9 \<le> (of_char c :: nat) \<and> (of_char c :: nat) \<le> 13)"

definition isdigit :: "char \<Rightarrow> bool" where
  "isdigit c \<longleftrightarrow> 48 \<le> (of_char c :: nat) \<and> (of_char c :: nat) \<le> 57"

definition digit_val :: "char \<Rightarrow> nat" where
  "digit_val c = of_char c - 48"

definition digit_char :: "nat \<Rightarrow> char" where
  "digit_char d = char_of (48 + d)"

text \<open>
  The value of a run of decimal digits, most significant digit first, as the
  accumulation loop of \<^verbatim>\<open>strtoull\<close> computes it (here without a bound; the range
  check is made by the caller on the result).
\<close>

fun digits_val_acc :: "nat \<Rightarrow> string \<Rightarrow> nat" where
  "digits_val_acc acc [] = acc"
| "digits_val_acc acc (c # cs) = digits_val_acc (10 * acc + digit_val c) cs"

definition digits_val :: "string \<Rightarrow> nat" where
  "digits_val ds = digits_val_acc 0 ds"

text \<open>
  The subject sequence of \<^verbatim>\<open>strtoull\<close> and \<^verbatim>\<open>strtoll\<close> in base 10: leading white
  space is skipped, one optional sign is read, then the longest run of digits. The
  result is the sign and the digits; an empty run of digits means that no conversion
  was made.
\<close>

definition subject :: "string \<Rightarrow> bool \<times> string" where
  "subject str =
     (let s = dropWhile isspace str in
      case s of
        [] \<Rightarrow> (False, [])
      | c # r \<Rightarrow>
          if c = CHR ''-'' then (True, takeWhile isdigit r)
          else if c = CHR ''+'' then (False, takeWhile isdigit r)
          else (False, takeWhile isdigit s))"

text \<open>
  \<^verbatim>\<open>std::stoull(str)\<close>: \<^verbatim>\<open>invalid_argument\<close> when no conversion was made,
  \<^verbatim>\<open>out_of_range\<close> when the magnitude does not fit 64 bits; a minus sign negates the
  converted value in the unsigned type.
\<close>

definition stoull :: "string \<Rightarrow> exn + u64" where
  "stoull str =
     (case subject str of (neg, ds) \<Rightarrow>
        if ds = [] then Inl invalid_argument
        else if 2 ^ 64 \<le> digits_val ds then Inl out_of_range
        else Inr (if neg then - word_of_nat (digits_val ds) else word_of_nat (digits_val ds)))"

text \<open>
  \<^verbatim>\<open>std::stoll(str)\<close>: the result is the two's complement image of the signed
  value, which is what \<^verbatim>\<open>memcpy(&encval, &value, sizeof(value))\<close> stores.
\<close>

definition stoll :: "string \<Rightarrow> exn + u64" where
  "stoll str =
     (case subject str of (neg, ds) \<Rightarrow>
        if ds = [] then Inl invalid_argument
        else if neg then
          (if 2 ^ 63 < digits_val ds then Inl out_of_range
           else Inr (- word_of_nat (digits_val ds)))
        else
          (if 2 ^ 63 \<le> digits_val ds then Inl out_of_range
           else Inr (word_of_nat (digits_val ds))))"

text \<open>
  \<^verbatim>\<open>std::to_string\<close> on an unsigned value: the decimal digits, no leading zero.
\<close>

function to_string_nat :: "nat \<Rightarrow> string" where
  "to_string_nat n =
     (if n < 10 then [digit_char n] else to_string_nat (n div 10) @ [digit_char (n mod 10)])"
  by pat_completeness auto
termination
  by (relation "measure id") auto

definition to_string_u64 :: "u64 \<Rightarrow> string" where
  "to_string_u64 v = to_string_nat (unat v)"

text \<open>
  \<^verbatim>\<open>std::to_string\<close> on an \<^verbatim>\<open>int64_t\<close>, given as its two's complement image.
\<close>

definition to_string_i64 :: "u64 \<Rightarrow> string" where
  "to_string_i64 v =
     (if sint v < 0 then CHR ''-'' # to_string_nat (nat (- sint v)) else to_string_nat (nat (sint v)))"

subsection \<open>UINT and INT\<close>

text \<open>
  \<^verbatim>\<open>try { value = std::stoull(str); } catch(...) { value = kNullValue<uint64_t>; }\<close>
\<close>

definition encode_UINT :: "string \<Rightarrow> u64" where
  "encode_UINT str = (case stoull str of Inl e \<Rightarrow> kNullValue | Inr value \<Rightarrow> value)"

definition encode_INT :: "string \<Rightarrow> u64" where
  "encode_INT str = (case stoll str of Inl e \<Rightarrow> kNullValue | Inr value \<Rightarrow> value)"

definition decode_UINT :: "u64 \<Rightarrow> string" where
  "decode_UINT v = (if v = kNullValue then [] else to_string_u64 v)"

definition decode_INT :: "u64 \<Rightarrow> string" where
  "decode_INT v = (if v = kNullValue then [] else to_string_i64 v)"

subsection \<open>Object representations\<close>

text \<open>
  \<^verbatim>\<open>memcpy\<close> between a \<^verbatim>\<open>uint64_t\<close> and a character buffer: the eight bytes of the
  object, lowest address first. The byte order is little-endian, as on the x86-64 and
  AArch64 targets of the library.
\<close>

definition u64_of_bytes :: "char list \<Rightarrow> u64" where
  "u64_of_bytes bs = word_of_nat (horner_sum of_char 256 bs)"

definition bytes_of_u64 :: "u64 \<Rightarrow> char list" where
  "bytes_of_u64 w = map (\<lambda>i. char_of (unat w div 256 ^ i)) [0..<8]"

definition bytes_of_u32 :: "32 word \<Rightarrow> char list" where
  "bytes_of_u32 w = map (\<lambda>i. char_of (unat w div 256 ^ i)) [0..<4]"

text \<open>
  \<^verbatim>\<open>memcpy(&dst, src, n)\<close> on the representation of \<open>dst\<close>: the first bytes are
  replaced, the others keep what they held.
\<close>

definition memcpy :: "char list \<Rightarrow> char list \<Rightarrow> char list" where
  "memcpy dst src = src @ drop (length src) dst"

definition NUL :: char where
  "NUL = CHR 0x00"

subsection \<open>What the header takes from outside\<close>

text \<open>
  The functions of the standard library that the header calls on floating point and
  on dates are parameters of the model: \<^verbatim>\<open>std::stof\<close>, \<^verbatim>\<open>std::stod\<close>,
  \<^verbatim>\<open>std::to_string\<close> on \<^verbatim>\<open>float\<close> and \<^verbatim>\<open>double\<close>, and \<^verbatim>\<open>strptime\<close>. A
  floating point value is the word of its object representation. The floating point
  conversions read two things of the process that they are not given: the radix
  character of the numeric locale and the rounding direction of the floating point
  environment; they are arguments here. The caller ignores the return value of
  \<^verbatim>\<open>strptime\<close>, so the parameter gives the \<^verbatim>\<open>struct tm\<close> the call leaves behind.
  The library of the GNU system, an instance of the parameters, is given below
  (\<open>c_library\<close>).
\<close>

datatype rounding_mode = to_nearest | toward_zero | upward | downward

record tm =
  tm_sec :: int
  tm_min :: int
  tm_hour :: int
  tm_mday :: int
  tm_mon :: int
  tm_year :: int
  tm_wday :: int
  tm_yday :: int
  tm_isdst :: int

record lib =
  stof :: "char \<Rightarrow> rounding_mode \<Rightarrow> string \<Rightarrow> exn + 32 word"
  stod :: "char \<Rightarrow> rounding_mode \<Rightarrow> string \<Rightarrow> exn + u64"
  float_to_string :: "char \<Rightarrow> rounding_mode \<Rightarrow> 32 word \<Rightarrow> string"
  double_to_string :: "char \<Rightarrow> rounding_mode \<Rightarrow> u64 \<Rightarrow> string"
  strptime :: "string \<Rightarrow> string \<Rightarrow> tm \<Rightarrow> tm"

text \<open>
  The state of the process that the functions read without being given it:
  \<^item> \<open>utc_offset\<close>: the time zone that \<^verbatim>\<open>mktime\<close> applies, as the offset from UTC
    (in seconds, east positive) in force at a local time (in seconds);
  \<^item> \<open>uninit\<close>: what an uninitialised \<^verbatim>\<open>uint64_t\<close> local holds;
  \<^item> \<open>slack\<close>: the bytes that lie behind the terminator of the string's buffer;
  \<^item> \<open>decimal_point\<close>: the radix character of the numeric locale;
  \<^item> \<open>rounding\<close>: the rounding direction of the floating point environment.
\<close>

record env =
  utc_offset :: "int \<Rightarrow> int"
  uninit :: u64
  slack :: "nat \<Rightarrow> char"
  decimal_point :: char
  rounding :: rounding_mode

text \<open>
  \<^verbatim>\<open>mktime\<close>: the broken-down time is normalised and read as local time. The day
  number is that of the proleptic Gregorian calendar, day 0 being 1970-01-01.
\<close>

definition days_from_civil :: "int \<Rightarrow> int \<Rightarrow> int \<Rightarrow> int" where
  "days_from_civil y m d =
     (let y' = (if m \<le> 2 then y - 1 else y);
          era = y' div 400;
          yoe = y' - era * 400;
          doy = (153 * (if 2 < m then m - 3 else m + 9) + 2) div 5 + d - 1;
          doe = yoe * 365 + yoe div 4 - yoe div 100 + doy
      in era * 146097 + doe - 719468)"

definition timegm :: "tm \<Rightarrow> int" where
  "timegm t =
     (let y = 1900 + tm_year t + tm_mon t div 12;
          m = tm_mon t mod 12 + 1
      in (days_from_civil y m 1 + (tm_mday t - 1)) * 86400
         + tm_hour t * 3600 + tm_min t * 60 + tm_sec t)"

definition mktime :: "env \<Rightarrow> tm \<Rightarrow> int" where
  "mktime e t = (let l = timegm t in l - utc_offset e l)"

text \<open>
  \<^verbatim>\<open>strptime\<close> of the GNU C library, for the formats of the header: white space,
  ordinary characters and the conversion specifications \<^verbatim>\<open>%Y %y %m %d %H %M %S\<close>.

  Its macro \<^verbatim>\<open>get_number (from, to, n)\<close> skips white space, wants a digit, and goes
  on reading digits while fewer than \<open>n\<close> are read and ten times the value read so
  far does not pass \<open>to\<close>; the value must then lie between \<open>from\<close> and \<open>to\<close>.
\<close>

fun read_digits :: "nat \<Rightarrow> nat \<Rightarrow> nat \<Rightarrow> string \<Rightarrow> nat \<times> string" where
  "read_digits n hi val [] = (val, [])"
| "read_digits n hi val (c # r) =
     (if 0 < n \<and> val * 10 \<le> hi \<and> isdigit c
      then read_digits (n - 1) hi (val * 10 + digit_val c) r
      else (val, c # r))"

definition get_number :: "nat \<Rightarrow> nat \<Rightarrow> nat \<Rightarrow> string \<Rightarrow> (nat \<times> string) option" where
  "get_number lo hi n inp =
     (case dropWhile isspace inp of
        [] \<Rightarrow> None
      | c # r \<Rightarrow>
          if isdigit c then
            (case read_digits (n - 1) hi (digit_val c) r of
               (val, rest) \<Rightarrow> if val < lo \<or> hi < val then None else Some (val, rest))
          else None)"

text \<open>
  A conversion specification: the bounds and the width given to \<^verbatim>\<open>get_number\<close>,
  and the field that receives the value.
\<close>

definition conv_spec :: "char \<Rightarrow> (nat \<times> nat \<times> nat \<times> (nat \<Rightarrow> tm \<Rightarrow> tm)) option" where
  "conv_spec c =
     (if c = CHR ''Y'' then Some (0, 9999, 4, \<lambda>v t. t\<lparr>tm_year := int v - 1900\<rparr>)
      else if c = CHR ''y'' then Some (0, 99, 2, \<lambda>v t. t\<lparr>tm_year := (if 69 \<le> v then int v else int v + 100)\<rparr>)
      else if c = CHR ''m'' then Some (1, 12, 2, \<lambda>v t. t\<lparr>tm_mon := int v - 1\<rparr>)
      else if c = CHR ''d'' then Some (1, 31, 2, \<lambda>v t. t\<lparr>tm_mday := int v\<rparr>)
      else if c = CHR ''H'' then Some (0, 23, 2, \<lambda>v t. t\<lparr>tm_hour := int v\<rparr>)
      else if c = CHR ''M'' then Some (0, 59, 2, \<lambda>v t. t\<lparr>tm_min := int v\<rparr>)
      else if c = CHR ''S'' then Some (0, 61, 2, \<lambda>v t. t\<lparr>tm_sec := int v\<rparr>)
      else None)"

text \<open>
  The loop over the format. White space in the format skips the white space of the
  input; any other character than \<^verbatim>\<open>%\<close> must be the next character of the input.
  At the first failure the function returns, and the fields assigned so far stay
  assigned. (The fields \<open>tm_wday\<close> and \<open>tm_yday\<close>, which the library computes
  after a complete parse and \<^verbatim>\<open>mktime\<close> does not read, are left as they are; a
  conversion specification that the header does not use ends the parse.)
\<close>

fun strptime_c :: "string \<Rightarrow> string \<Rightarrow> tm \<Rightarrow> tm" where
  "strptime_c s [] t = t"
| "strptime_c s (c # f) t =
     (if isspace c then strptime_c (dropWhile isspace s) f t
      else if c = CHR ''%'' then
        (case f of
           [] \<Rightarrow> t
         | d # f' \<Rightarrow>
             (case conv_spec d of
                None \<Rightarrow> t
              | Some (lo, hi, w, upd) \<Rightarrow>
                  (case get_number lo hi w s of
                     None \<Rightarrow> t
                   | Some (v, s') \<Rightarrow> strptime_c s' f' (upd v t))))
      else
        (case s of
           [] \<Rightarrow> t
         | x # s' \<Rightarrow> if x = c then strptime_c s' f t else t))"

text \<open>
  \<^verbatim>\<open>str.c_str()\<close> as a C string: the characters before the first NUL.
\<close>

definition c_str :: "string \<Rightarrow> string" where
  "c_str str = takeWhile (\<lambda>c. c \<noteq> NUL) str"

subsection \<open>FLOAT, DOUBLE and BOOL\<close>

text \<open>
  \<^verbatim>\<open>uint64_t encval; float value; ... memcpy(&encval, &value, sizeof(value));\<close>:
  \<open>encval\<close> has no initialiser and only its first four bytes are written.
\<close>

definition encode_FLOAT :: "lib \<Rightarrow> env \<Rightarrow> string \<Rightarrow> u64" where
  "encode_FLOAT l e str =
     (case stof l (decimal_point e) (rounding e) str of
        Inl ex \<Rightarrow> kNullValue
      | Inr value \<Rightarrow> u64_of_bytes (memcpy (bytes_of_u64 (uninit e)) (bytes_of_u32 value)))"

definition encode_DOUBLE :: "lib \<Rightarrow> env \<Rightarrow> string \<Rightarrow> u64" where
  "encode_DOUBLE l e str =
     (case stod l (decimal_point e) (rounding e) str of
        Inl ex \<Rightarrow> kNullValue
      | Inr value \<Rightarrow> value)"

definition encode_BOOL :: "string \<Rightarrow> u64" where
  "encode_BOOL str =
     (if length str = 0 then kNullValue
      else if str = ''F'' \<or> str = ''f'' \<or> str = ''FALSE'' \<or> str = ''false'' \<or> str = ''0''
      then 0 else 1)"

definition decode_FLOAT :: "lib \<Rightarrow> env \<Rightarrow> u64 \<Rightarrow> string" where
  "decode_FLOAT l e v =
     (if v = kNullValue then [] else float_to_string l (decimal_point e) (rounding e) (ucast v))"

definition decode_DOUBLE :: "lib \<Rightarrow> env \<Rightarrow> u64 \<Rightarrow> string" where
  "decode_DOUBLE l e v =
     (if v = kNullValue then [] else double_to_string l (decimal_point e) (rounding e) v)"

definition decode_BOOL :: "u64 \<Rightarrow> string" where
  "decode_BOOL v = (if v = kNullValue then [] else to_string_u64 v)"

subsection \<open>CHARS\<close>

text \<open>
  \<^verbatim>\<open>memset(&encval, '\0', sizeof(encval)); memcpy(&encval, str.c_str(), sizeof(encval)-1);\<close>:
  seven bytes are read from the buffer of the string, which holds the characters and
  one terminator; for a string of fewer than six characters the read runs into the
  bytes behind the terminator.
\<close>

definition encode_CHARS :: "env \<Rightarrow> string \<Rightarrow> u64" where
  "encode_CHARS e str =
     u64_of_bytes (memcpy (replicate 8 NUL) (take 7 (str @ NUL # map (slack e) [0..<6])))"

text \<open>
  \<^verbatim>\<open>return std::string(reinterpret_cast<const char*>(&value));\<close>: the bytes of the
  value up to the first NUL. When none of the eight bytes is NUL the constructor reads
  behind the object, which is undefined: \<open>None\<close>.
\<close>

definition decode_CHARS :: "u64 \<Rightarrow> string option" where
  "decode_CHARS v =
     (let bs = bytes_of_u64 v
      in if NUL \<in> set bs then Some (takeWhile (\<lambda>c. c \<noteq> NUL) bs) else None)"

subsection \<open>IP_ADDRESS\<close>

text \<open>
  The loop \<^verbatim>\<open>for (unsigned i = 0; i < 4; i ++)\<close>. The iterator \<open>start\<close> is
  \<open>Some r\<close> when it points into the string, \<open>r\<close> being the characters from it to the
  end, and \<open>None\<close> after \<^verbatim>\<open>start = end + 1\<close> has moved it behind \<^verbatim>\<open>str.end()\<close>. A
  further \<^verbatim>\<open>std::find(start, str.end(), '.')\<close> is then undefined: the result
  \<open>None\<close>.
\<close>

fun ip_loop :: "nat \<Rightarrow> u64 \<Rightarrow> string option \<Rightarrow> u64 option" where
  "ip_loop 0 value start = Some value"
| "ip_loop (Suc n) value None = None"
| "ip_loop (Suc n) value (Some r) =
     (case stoull (takeWhile (\<lambda>c. c \<noteq> CHR ''.'') r) of
        Inl ex \<Rightarrow> Some kNullValue
      | Inr val \<Rightarrow>
          if val < 256 then
            ip_loop n (push_bit 8 value + val)
              (case dropWhile (\<lambda>c. c \<noteq> CHR ''.'') r of [] \<Rightarrow> None | dot # r' \<Rightarrow> Some r')
          else Some kNullValue)"

definition encode_IP_ADDRESS :: "string \<Rightarrow> u64 option" where
  "encode_IP_ADDRESS str = ip_loop 4 0 (Some str)"

subsection \<open>DATE, USDATE and DATE_TIME\<close>

text \<open>
  \<^verbatim>\<open>struct tm date{}; date.tm_isdst = -1;\<close>
\<close>

definition date_init :: tm where
  "date_init = \<lparr>tm_sec = 0, tm_min = 0, tm_hour = 0, tm_mday = 0, tm_mon = 0, tm_year = 0,
     tm_wday = 0, tm_yday = 0, tm_isdst = - 1\<rparr>"

text \<open>
  The three functions differ in the format only, and take \<^verbatim>\<open>strptime\<close> as the
  parameter \<open>sp\<close>. The result of \<^verbatim>\<open>strptime\<close> is not looked at; \<^verbatim>\<open>mktime\<close> is a C function and throws nothing, so the handler
  \<^verbatim>\<open>catch(...) { return kNullValue<uint64_t>; }\<close> is never entered. The
  \<^verbatim>\<open>time_t\<close> is copied into the result as it is.
\<close>

definition encode_time ::
  "string \<Rightarrow> (string \<Rightarrow> string \<Rightarrow> tm \<Rightarrow> tm) \<Rightarrow> env \<Rightarrow> string \<Rightarrow> u64" where
  "encode_time fmt sp e str = word_of_int (mktime e (sp (c_str str) fmt date_init))"

definition encode_DATE :: "(string \<Rightarrow> string \<Rightarrow> tm \<Rightarrow> tm) \<Rightarrow> env \<Rightarrow> string \<Rightarrow> u64" where
  "encode_DATE = encode_time ''%Y-%m-%d''"

definition encode_USDATE :: "(string \<Rightarrow> string \<Rightarrow> tm \<Rightarrow> tm) \<Rightarrow> env \<Rightarrow> string \<Rightarrow> u64" where
  "encode_USDATE = encode_time ''%m/%d/%y''"

definition encode_DATE_TIME :: "(string \<Rightarrow> string \<Rightarrow> tm \<Rightarrow> tm) \<Rightarrow> env \<Rightarrow> string \<Rightarrow> u64" where
  "encode_DATE_TIME = encode_time ''%Y-%m-%dT%H:%M:%S''"

subsection \<open>The specialisations, by data type\<close>

text \<open>
  \<^verbatim>\<open>encode<uint64_t, std::string, DT>\<close> and \<^verbatim>\<open>decode<uint64_t, std::string, DT>\<close>
  as functions of \<open>DT\<close>. The result \<open>Some v\<close> is a call that returns \<open>v\<close> to its
  caller: the exceptions of the conversions (\<open>Inl\<close>) have been handled inside. The
  result is \<open>None\<close> where the header has no specialisation, or where the behaviour
  is undefined.
\<close>

definition encode :: "lib \<Rightarrow> env \<Rightarrow> data_t \<Rightarrow> string \<Rightarrow> u64 option" where
  "encode l e dt str =
     (case dt of
        UINT \<Rightarrow> Some (encode_UINT str)
      | INT_t \<Rightarrow> Some (encode_INT str)
      | FLOAT \<Rightarrow> Some (encode_FLOAT l e str)
      | DOUBLE \<Rightarrow> Some (encode_DOUBLE l e str)
      | BOOL \<Rightarrow> Some (encode_BOOL str)
      | CHARS \<Rightarrow> Some (encode_CHARS e str)
      | IP_ADDRESS \<Rightarrow> encode_IP_ADDRESS str
      | DATE \<Rightarrow> Some (encode_DATE (strptime l) e str)
      | USDATE \<Rightarrow> Some (encode_USDATE (strptime l) e str)
      | DATE_TIME \<Rightarrow> Some (encode_DATE_TIME (strptime l) e str)
      | _ \<Rightarrow> None)"

definition decode :: "lib \<Rightarrow> env \<Rightarrow> data_t \<Rightarrow> u64 \<Rightarrow> string option" where
  "decode l e dt v =
     (case dt of
        UINT \<Rightarrow> Some (decode_UINT v)
      | INT_t \<Rightarrow> Some (decode_INT v)
      | FLOAT \<Rightarrow> Some (decode_FLOAT l e v)
      | DOUBLE \<Rightarrow> Some (decode_DOUBLE l e v)
      | BOOL \<Rightarrow> Some (decode_BOOL v)
      | CHARS \<Rightarrow> decode_CHARS v
      | _ \<Rightarrow> None)"

subsection \<open>The floating point conversions of the C library\<close>

text \<open>
  The conversions of the GNU C library behind \<^verbatim>\<open>std::stof\<close>, \<^verbatim>\<open>std::stod\<close>
  (\<^verbatim>\<open>strtof\<close>, \<^verbatim>\<open>strtod\<close>) and \<^verbatim>\<open>std::to_string\<close> (\<^verbatim>\<open>vsnprintf\<close> with
  \<^verbatim>\<open>"%f"\<close>), on the IEEE 754 formats binary32 and binary64. A format is its precision
  (the bits of the significand, the hidden one included) and the width of its exponent
  field.
\<close>

record float_format =
  precision :: nat
  exp_width :: nat

definition binary32 :: float_format where
  "binary32 = \<lparr>precision = 24, exp_width = 8\<rparr>"

definition binary64 :: float_format where
  "binary64 = \<lparr>precision = 53, exp_width = 11\<rparr>"

text \<open>
  The quotient \<open>n / d\<close> rounded to an integer in a rounding direction, for a value
  of the given sign; to nearest, a tie goes to the even neighbour.
\<close>

definition round_quotient :: "rounding_mode \<Rightarrow> bool \<Rightarrow> nat \<Rightarrow> nat \<Rightarrow> nat" where
  "round_quotient rm neg n d =
     (let q = n div d;
          r = n mod d;
          away = (case rm of
                    to_nearest \<Rightarrow> d < 2 * r \<or> (2 * r = d \<and> odd q)
                  | toward_zero \<Rightarrow> False
                  | upward \<Rightarrow> \<not> neg \<and> r \<noteq> 0
                  | downward \<Rightarrow> neg \<and> r \<noteq> 0)
      in if away then q + 1 else q)"

function bit_length :: "nat \<Rightarrow> nat" where
  "bit_length n = (if n = 0 then 0 else Suc (bit_length (n div 2)))"
  by pat_completeness auto
termination
  by (relation "measure id") auto

text \<open>
  The exponent of the binade of \<open>n / d\<close>, for positive \<open>n\<close> and \<open>d\<close>: the \<open>e\<close> with
  \<open>2 ^ e \<le> n / d < 2 ^ (e + 1)\<close>.
\<close>

definition floor_log2 :: "nat \<Rightarrow> nat \<Rightarrow> int" where
  "floor_log2 n d =
     (let e = int (bit_length n) - int (bit_length d)
      in if (if 0 \<le> e then d * 2 ^ nat e \<le> n else d \<le> n * 2 ^ nat (- e)) then e else e - 1)"

text \<open>
  The object representation of the value \<open>n / d\<close> with the given sign, correctly
  rounded: the significand is the quotient scaled to the precision at the exponent of
  the value, or at the least exponent for a subnormal value, and the exponent field
  and the fraction are laid out below the sign bit (a significand that rounding
  carries to the next power of two lands in the next exponent by the same sum). The
  result is \<open>None\<close> where the library sets \<^verbatim>\<open>ERANGE\<close>: the rounded value is not
  finite, or the value is tiny (below the least normal number, also after rounding at
  the precision of the format, as tininess is detected on x86-64) and its rounding is
  inexact.
\<close>

definition float_bits :: "float_format \<Rightarrow> rounding_mode \<Rightarrow> bool \<Rightarrow> nat \<Rightarrow> nat \<Rightarrow> nat option" where
  "float_bits f rm neg n d =
     (let p = precision f;
          w = exp_width f;
          emin = 2 - (2 :: int) ^ (w - 1);
          sign_bit = (if neg then 2 ^ (w + p - 1) else 0)
      in if n = 0 then Some sign_bit
         else
           let e = floor_log2 n d;
               q = max e emin;
               s = int p - 1 - q;
               num = (if 0 \<le> s then n * 2 ^ nat s else n);
               den = (if 0 \<le> s then d else d * 2 ^ nat (- s));
               m = round_quotient rm neg num den;
               mag = nat (q - emin) * 2 ^ (p - 1) + m;
               tiny = (e < emin \<and> \<not> (e = emin - 1 \<and> 2 ^ p \<le> round_quotient rm neg (2 * num) den))
           in if (2 ^ w - 1) * 2 ^ (p - 1) \<le> mag \<or> (tiny \<and> num mod den \<noteq> 0) then None
              else Some (sign_bit + mag))"

text \<open>
  The subject sequence of \<^verbatim>\<open>strtod\<close>, after the white space and the sign: a decimal
  number (digits with an optional radix character, then an optional exponent
  \<^verbatim>\<open>e\<close>), a hexadecimal number (\<^verbatim>\<open>0x\<close>, hexadecimal digits with an optional radix
  character, then an optional binary exponent \<^verbatim>\<open>p\<close>), \<^verbatim>\<open>inf\<close> or \<^verbatim>\<open>infinity\<close>,
  \<^verbatim>\<open>nan\<close> or \<^verbatim>\<open>nan(\<close>\<open>\<dots>\<close>\<^verbatim>\<open>)\<close>, letters in either case. The exponent part counts
  only when it has a digit.
\<close>

definition to_lower :: "char \<Rightarrow> char" where
  "to_lower c =
     (if 65 \<le> (of_char c :: nat) \<and> (of_char c :: nat) \<le> 90 then char_of (of_char c + 32 :: nat)
      else c)"

definition isxdigit :: "char \<Rightarrow> bool" where
  "isxdigit c \<longleftrightarrow>
     isdigit c \<or> (97 \<le> (of_char (to_lower c) :: nat) \<and> (of_char (to_lower c) :: nat) \<le> 102)"

definition xdigit_val :: "char \<Rightarrow> nat" where
  "xdigit_val c = (if isdigit c then digit_val c else of_char (to_lower c) - 87)"

definition xdigits_val :: "string \<Rightarrow> nat" where
  "xdigits_val ds = foldl (\<lambda>acc c. 16 * acc + xdigit_val c) 0 ds"

definition isodigit :: "char \<Rightarrow> bool" where
  "isodigit c \<longleftrightarrow> 48 \<le> (of_char c :: nat) \<and> (of_char c :: nat) \<le> 55"

definition odigits_val :: "string \<Rightarrow> nat" where
  "odigits_val ds = foldl (\<lambda>acc c. 8 * acc + digit_val c) 0 ds"

datatype float_literal = Number nat nat | Infinity | NaN nat

definition exponent_part :: "char \<Rightarrow> string \<Rightarrow> int" where
  "exponent_part mark s =
     (case s of
        [] \<Rightarrow> 0
      | c # r \<Rightarrow>
          if to_lower c \<noteq> mark then 0
          else
            (case r of
               [] \<Rightarrow> 0
             | sg # r' \<Rightarrow>
                 if sg = CHR ''-'' then - int (digits_val (takeWhile isdigit r'))
                 else if sg = CHR ''+'' then int (digits_val (takeWhile isdigit r'))
                 else int (digits_val (takeWhile isdigit r))))"

text \<open>
  The value \<open>m * b ^ x\<close> as a fraction.
\<close>

definition scaled :: "nat \<Rightarrow> nat \<Rightarrow> int \<Rightarrow> float_literal" where
  "scaled m b x = (if 0 \<le> x then Number (m * b ^ nat x) 1 else Number m (b ^ nat (- x)))"

text \<open>
  The digits before the radix character, the digits behind it, and what follows.
\<close>

definition mantissa :: "(char \<Rightarrow> bool) \<Rightarrow> char \<Rightarrow> string \<Rightarrow> string \<times> string \<times> string" where
  "mantissa dig dp s =
     (let ip = takeWhile dig s;
          r = dropWhile dig s
      in case r of
           [] \<Rightarrow> (ip, [], [])
         | c # r' \<Rightarrow>
             if c = dp then (ip, takeWhile dig r', dropWhile dig r') else (ip, [], r))"

text \<open>
  The payload of \<^verbatim>\<open>nan(\<close>\<open>\<dots>\<close>\<^verbatim>\<open>)\<close>: the characters between the parentheses are read
  by \<^verbatim>\<open>strtoull\<close> in base 0 (hexadecimal after \<^verbatim>\<open>0x\<close>, octal after \<^verbatim>\<open>0\<close>, decimal
  otherwise), and count when all of them are read.
\<close>

definition nan_payload :: "string \<Rightarrow> nat" where
  "nan_payload body =
     (let hex = (case body of
                   z # x # h # r \<Rightarrow> z = CHR ''0'' \<and> to_lower x = CHR ''x'' \<and> isxdigit h
                 | _ \<Rightarrow> False);
          v = (if hex then
                 (if list_all isxdigit (drop 2 body) then Some (xdigits_val (drop 2 body)) else None)
               else if body \<noteq> [] \<and> hd body = CHR ''0'' then
                 (if list_all isodigit body then Some (odigits_val body) else None)
               else
                 (if list_all isdigit body then Some (digits_val body) else None))
      in case v of None \<Rightarrow> 0 | Some n \<Rightarrow> min n (2 ^ 64 - 1))"

definition nchar :: "char \<Rightarrow> bool" where
  "nchar c \<longleftrightarrow>
     isdigit c \<or> c = CHR ''_''
     \<or> (97 \<le> (of_char (to_lower c) :: nat) \<and> (of_char (to_lower c) :: nat) \<le> 122)"

definition float_subject :: "char \<Rightarrow> string \<Rightarrow> float_literal option" where
  "float_subject dp s =
     (if map to_lower (take 3 s) = ''inf'' then Some Infinity
      else if map to_lower (take 3 s) = ''nan'' then
        (case drop 3 s of
           [] \<Rightarrow> Some (NaN 0)
         | c # r \<Rightarrow>
             if c = CHR ''('' \<and> take 1 (dropWhile nchar r) = '')''
             then Some (NaN (nan_payload (takeWhile nchar r)))
             else Some (NaN 0))
      else if (case s of z # x # r \<Rightarrow>
                 z = CHR ''0'' \<and> to_lower x = CHR ''x''
                 \<and> (case mantissa isxdigit dp r of (ip, fp, r') \<Rightarrow> ip \<noteq> [] \<or> fp \<noteq> [])
               | _ \<Rightarrow> False)
      then
        (case mantissa isxdigit dp (drop 2 s) of
           (ip, fp, r') \<Rightarrow>
             Some (scaled (xdigits_val (ip @ fp)) 2
                     (exponent_part (CHR ''p'') r' - 4 * int (length fp))))
      else
        (case mantissa isdigit dp s of
           (ip, fp, r') \<Rightarrow>
             if ip = [] \<and> fp = [] then None
             else Some (scaled (digits_val (ip @ fp)) 10
                          (exponent_part (CHR ''e'') r' - int (length fp)))))"

text \<open>
  \<^verbatim>\<open>strtof\<close> and \<^verbatim>\<open>strtod\<close> under \<^verbatim>\<open>std::stof\<close> and \<^verbatim>\<open>std::stod\<close>, which throw
  \<^verbatim>\<open>invalid_argument\<close> when no conversion was made and \<^verbatim>\<open>out_of_range\<close> on
  \<^verbatim>\<open>ERANGE\<close>. An infinity has the exponent field full and the fraction empty; a NaN
  is quiet and has its payload in the bits below the quiet bit.
\<close>

definition strtod :: "float_format \<Rightarrow> char \<Rightarrow> rounding_mode \<Rightarrow> string \<Rightarrow> exn + nat" where
  "strtod f dp rm str =
     (let p = precision f;
          w = exp_width f;
          s = dropWhile isspace str;
          neg = (s \<noteq> [] \<and> hd s = CHR ''-'');
          t = (if s \<noteq> [] \<and> (hd s = CHR ''-'' \<or> hd s = CHR ''+'') then tl s else s);
          sign_bit = (if neg then 2 ^ (w + p - 1) else 0)
      in case float_subject dp t of
           None \<Rightarrow> Inl invalid_argument
         | Some (Number n d) \<Rightarrow>
             (case float_bits f rm neg n d of
                None \<Rightarrow> Inl out_of_range
              | Some b \<Rightarrow> Inr b)
         | Some Infinity \<Rightarrow> Inr (sign_bit + (2 ^ w - 1) * 2 ^ (p - 1))
         | Some (NaN pl) \<Rightarrow>
             Inr (sign_bit + (2 ^ w - 1) * 2 ^ (p - 1) + 2 ^ (p - 2) + pl mod 2 ^ (p - 2)))"

text \<open>
  \<^verbatim>\<open>"%f"\<close> on the value of an object representation: the digits of the magnitude
  rounded to six decimals, behind a minus sign when the sign bit is set; \<^verbatim>\<open>inf\<close> and
  \<^verbatim>\<open>nan\<close> for the values that are no numbers. A \<^verbatim>\<open>float\<close> is promoted to
  \<^verbatim>\<open>double\<close> without a change of its value.
\<close>

definition six_digits :: "nat \<Rightarrow> string" where
  "six_digits k = replicate (6 - length (to_string_nat k)) (CHR ''0'') @ to_string_nat k"

definition printf_f :: "float_format \<Rightarrow> char \<Rightarrow> rounding_mode \<Rightarrow> nat \<Rightarrow> string" where
  "printf_f f dp rm bits =
     (let p = precision f;
          w = exp_width f;
          neg = odd (bits div 2 ^ (w + p - 1));
          ex = (bits div 2 ^ (p - 1)) mod 2 ^ w;
          fr = bits mod 2 ^ (p - 1);
          sg = (if neg then ''-'' else [])
      in if ex = 2 ^ w - 1 then sg @ (if fr = 0 then ''inf'' else ''nan'')
         else
           let m = (if ex = 0 then fr else 2 ^ (p - 1) + fr);
               x = int (max ex 1) - (2 ^ (w - 1) - 1) - (int p - 1);
               r = (if 0 \<le> x then m * 2 ^ nat x * 10 ^ 6
                    else round_quotient rm neg (m * 10 ^ 6) (2 ^ nat (- x)))
           in sg @ to_string_nat (r div 10 ^ 6) @ [dp] @ six_digits (r mod 10 ^ 6))"

text \<open>
  The library: the instance of the parameters of the model.
\<close>

definition c_library :: lib where
  "c_library =
     \<lparr>stof = (\<lambda>dp rm s. map_sum id word_of_nat (strtod binary32 dp rm s)),
      stod = (\<lambda>dp rm s. map_sum id word_of_nat (strtod binary64 dp rm s)),
      float_to_string = (\<lambda>dp rm v. printf_f binary32 dp rm (unat v)),
      double_to_string = (\<lambda>dp rm v. printf_f binary64 dp rm (unat v)),
      strptime = strptime_c\<rparr>"

subsection \<open>Environments for evaluation\<close>

text \<open>
  Two environments that differ in the time zone only: UTC, and a zone one hour east
  of it. Their uninitialised and slack bytes are zero, their locale is the "C" locale
  and they round to nearest.
\<close>

definition utc :: env where
  "utc = \<lparr>utc_offset = (\<lambda>l. 0), uninit = 0, slack = (\<lambda>i. NUL),
     decimal_point = CHR ''.'', rounding = to_nearest\<rparr>"

definition cet :: env where
  "cet = \<lparr>utc_offset = (\<lambda>l. 3600), uninit = 0, slack = (\<lambda>i. NUL),
     decimal_point = CHR ''.'', rounding = to_nearest\<rparr>"

subsection \<open>Notions for stating the properties\<close>

text \<open>
  A canonical decimal string: digits only, at least one, and no leading zero except in
  the string \<open>0\<close> itself. Its value is \<open>digits_val\<close>.
\<close>

definition canonical_decimal :: "string \<Rightarrow> bool" where
  "canonical_decimal s \<longleftrightarrow> s \<noteq> [] \<and> list_all isdigit s \<and> (hd s = CHR ''0'' \<longrightarrow> s = ''0'')"

text \<open>
  A dotted quad is four fields with dots between them.
\<close>

definition dotted_quad :: "string \<Rightarrow> string \<Rightarrow> string \<Rightarrow> string \<Rightarrow> string" where
  "dotted_quad fa fb fc fd = fa @ ''.'' @ fb @ ''.'' @ fc @ ''.'' @ fd"

text \<open>
  A decimal integer is a string of digits, at least one.
\<close>

definition decimal_integer :: "string \<Rightarrow> bool" where
  "decimal_integer f \<longleftrightarrow> f \<noteq> [] \<and> list_all isdigit f"

text \<open>
  The parts of a field as the encoding of IP_ADDRESS reads it: white space (a blank,
  or a control character from the horizontal tab to the carriage return), one sign or
  none, a run of digits, and the characters behind the digits. Every string is the
  text of a field of this shape: the digits are followed by no digit, and where there
  is neither a sign nor a digit, what follows is no white space and no sign.
\<close>

record field =
  blanks :: string
  sign :: string
  digits :: string
  rest :: string

definition white_space :: "char list" where
  "white_space = [CHR '' '', CHR 0x09, CHR 0x0A, CHR 0x0B, CHR 0x0C, CHR 0x0D]"

definition field_text :: "field \<Rightarrow> string" where
  "field_text p = blanks p @ sign p @ digits p @ rest p"

definition field_shape :: "field \<Rightarrow> bool" where
  "field_shape p \<longleftrightarrow>
     list_all (\<lambda>c. c \<in> set white_space) (blanks p)
     \<and> (sign p = [] \<or> sign p = ''+'' \<or> sign p = ''-'')
     \<and> list_all isdigit (digits p)
     \<and> (rest p = [] \<or> \<not> isdigit (hd (rest p)))
     \<and> (sign p = [] \<and> digits p = [] \<longrightarrow>
          rest p = [] \<or> hd (rest p) \<notin> set (white_space @ ''+-''))"

text \<open>
  The number that a field gives: its digits must be there and their value below
  \<open>2 ^ 64\<close>; a minus sign negates the value modulo \<open>2 ^ 64\<close>; the field is accepted
  when the number is at most 255.
\<close>

definition octet :: "field \<Rightarrow> nat option" where
  "octet p =
     (let v = digits_val (digits p);
          a = (if sign p = ''-'' then (2 ^ 64 - v) mod 2 ^ 64 else v)
      in if digits p \<noteq> [] \<and> v < 2 ^ 64 \<and> a < 256 then Some a else None)"

definition plain :: "string \<Rightarrow> field" where
  "plain f = \<lparr>blanks = [], sign = [], digits = f, rest = []\<rparr>"
section \<open>The distributed hash map, after its specification\<close>

text \<open>
  The benchmark \<^verbatim>\<open>test/performance_tests/data_structures/hashmap_perf.cc\<close> calls
  \<^verbatim>\<open>shad::Hashmap<int, int>\<close> and the runtime \<^verbatim>\<open>shad::rt\<close>, whose sources
  (\<^verbatim>\<open>shad/data_structures/hashmap.h\<close>, \<^verbatim>\<open>shad/runtime/runtime.h\<close>) are not among the
  files. The map and the runtime of this section follow the specification. The state
  of all localities is one value; an asynchronous operation is a task in flight, which
  the runtime executes at some later step, in any order.
\<close>

type_synonym locality = nat
type_synonym oid = nat

text \<open>
  Modelled from the spec: the error taxonomy of the map (section 7), of which the map
  operations raise \<open>NotFound\<close>; \<^verbatim>\<open>hashmap.h\<close> is missing.
\<close>

datatype error = NotFound

text \<open>
  Modelled from the spec: the configuration that \<^verbatim>\<open>hashmap.h\<close> (missing) fixes for a
  map: the hash function of the keys and the capacity at which a buffer of inserts
  is flushed.
\<close>

record 'k config =
  hash :: "'k \<Rightarrow> nat"
  batch_capacity :: nat

text \<open>
  Modelled from the spec: the Partition Function of \<^verbatim>\<open>hashmap.h\<close> (missing), section
  4.1: \<open>hash(key) mod numLocalities\<close>.
\<close>

definition partition :: "'k config \<Rightarrow> nat \<Rightarrow> 'k \<Rightarrow> locality" where
  "partition cfg n k = hash cfg k mod n"

text \<open>
  Modelled from the spec: the Local Shard of \<^verbatim>\<open>hashmap.h\<close> (missing), section 4.2: the
  entries of one locality, with the capacity hint it was created with. An insert
  replaces the value of a key that is present and adds the entry otherwise.
\<close>

record ('k, 'v) shard =
  capacity :: nat
  entries :: "('k \<times> 'v) list"

definition shard_insert :: "'k \<Rightarrow> 'v \<Rightarrow> ('k, 'v) shard \<Rightarrow> ('k, 'v) shard" where
  "shard_insert k v sh = sh\<lparr>entries := AList.update k v (entries sh)\<rparr>"

definition shard_lookup :: "('k, 'v) shard \<Rightarrow> 'k \<Rightarrow> 'v option" where
  "shard_lookup sh k = map_of (entries sh) k"

definition shard_keys :: "('k, 'v) shard \<Rightarrow> 'k list" where
  "shard_keys sh = map fst (entries sh)"

definition insert_all :: "('k \<times> 'v) list \<Rightarrow> ('k, 'v) shard \<Rightarrow> ('k, 'v) shard" where
  "insert_all kvs sh = fold (\<lambda>(k, v). shard_insert k v) kvs sh"

text \<open>
  Modelled from the spec: the Completion Handle of \<^verbatim>\<open>runtime.h\<close> (missing), section
  4.5: the counters \<open>issued\<close> and \<open>completed\<close>. A handle is the caller's, or the one
  that a map owns for its batches of buffered inserts.
\<close>

record handle =
  issued :: nat
  completed :: nat

datatype hid = UserHandle nat | BufferHandle oid

text \<open>
  Modelled from the spec: the operations that the Operation Router of \<^verbatim>\<open>hashmap.h\<close>
  (missing) dispatches, sections 4.4 and 4.6: one insert, one batch of buffered inserts
  for a target locality, the traversal of the keys of one locality.
\<close>

datatype ('k, 'v) task =
  InsertTask oid 'k 'v
  | BatchTask oid locality "('k \<times> 'v) list"
  | KeysTask oid locality

text \<open>
  Modelled from the spec: the state that \<^verbatim>\<open>hashmap.h\<close> and \<^verbatim>\<open>runtime.h\<close> (missing)
  keep, section 3: the registry of each locality (from object identifiers to the
  local shard), the handles, the tasks in flight with their handles, the buffers of
  pending inserts per object, source and target locality, and the calls that the
  traversals have made of the caller's function (with the locality of the call).
\<close>

record ('k, 'v) state =
  registries :: "(oid \<rightharpoonup> ('k, 'v) shard) list"
  next_oid :: oid
  handles :: "hid \<Rightarrow> handle"
  inflight :: "(hid \<times> ('k, 'v) task) list"
  buffers :: "oid \<times> locality \<times> locality \<Rightarrow> ('k \<times> 'v) list"
  visited :: "(locality \<times> 'k) list"

text \<open>
  Modelled from the spec: the start of the runtime (\<^verbatim>\<open>runtime.h\<close>, missing) on \<open>n\<close>
  localities: no map, empty handles, nothing in flight.
\<close>

definition init :: "nat \<Rightarrow> ('k, 'v) state" where
  "init n = \<lparr>registries = replicate n Map.empty, next_oid = 0,
     handles = (\<lambda>h. \<lparr>issued = 0, completed = 0\<rparr>), inflight = [],
     buffers = (\<lambda>b. []), visited = []\<rparr>"

definition n_loc :: "('k, 'v) state \<Rightarrow> nat" where
  "n_loc s = length (registries s)"

text \<open>
  Modelled from the spec: the Global Registry of \<^verbatim>\<open>hashmap.h\<close> (missing), section 4.3.
  An identifier is live when every locality resolves it; \<open>resolve\<close> gives the shard of
  one locality or signals \<open>NotFound\<close>; \<open>Create\<close> registers one empty shard on every
  locality under a new identifier; \<open>Destroy\<close> removes the entry on every locality, and
  fails as a whole, changing nothing, when the identifier is not live.
\<close>

definition live :: "('k, 'v) state \<Rightarrow> oid \<Rightarrow> bool" where
  "live s obj \<longleftrightarrow> registries s \<noteq> [] \<and> list_all (\<lambda>r. r obj \<noteq> None) (registries s)"

definition resolve :: "('k, 'v) state \<Rightarrow> locality \<Rightarrow> oid \<Rightarrow> error + ('k, 'v) shard" where
  "resolve s loc obj =
     (if loc < n_loc s then
        (case (registries s ! loc) obj of None \<Rightarrow> Inl NotFound | Some sh \<Rightarrow> Inr sh)
      else Inl NotFound)"

definition Create :: "nat \<Rightarrow> ('k, 'v) state \<Rightarrow> oid \<times> ('k, 'v) state" where
  "Create hint s =
     (next_oid s,
      s\<lparr>registries := map (\<lambda>r. r(next_oid s \<mapsto> \<lparr>capacity = hint, entries = []\<rparr>)) (registries s),
        next_oid := Suc (next_oid s)\<rparr>)"

definition Destroy :: "oid \<Rightarrow> ('k, 'v) state \<Rightarrow> (error + unit) \<times> ('k, 'v) state" where
  "Destroy obj s =
     (if live s obj then (Inr (), s\<lparr>registries := map (\<lambda>r. r(obj := None)) (registries s)\<rparr>)
      else (Inl NotFound, s))"

text \<open>
  Modelled from the spec: the local call of the Operation Router of \<^verbatim>\<open>hashmap.h\<close>
  (missing), section 4.4: an operation on the shard of the owning locality.
\<close>

definition local_apply ::
  "locality \<Rightarrow> oid \<Rightarrow> (('k, 'v) shard \<Rightarrow> ('k, 'v) shard) \<Rightarrow> ('k, 'v) state \<Rightarrow> error + ('k, 'v) state" where
  "local_apply loc obj f s =
     (case resolve s loc obj of
        Inl e \<Rightarrow> Inl e
      | Inr sh \<Rightarrow> Inr (s\<lparr>registries := (registries s)[loc := (registries s ! loc)(obj \<mapsto> f sh)]\<rparr>))"

text \<open>
  Modelled from the spec: the blocking \<open>Insert\<close> of \<^verbatim>\<open>hashmap.h\<close> (missing), section
  4.4, and the lookup of section 8, called on the locality \<open>src\<close>: the operation is
  done on the locality that the partition function gives, and has completed when the
  call returns.
\<close>

definition Insert ::
  "'k config \<Rightarrow> locality \<Rightarrow> oid \<Rightarrow> 'k \<Rightarrow> 'v \<Rightarrow> ('k, 'v) state \<Rightarrow> (error + unit) \<times> ('k, 'v) state" where
  "Insert cfg src obj k v s =
     (case local_apply (partition cfg (n_loc s) k) obj (shard_insert k v) s of
        Inl e \<Rightarrow> (Inl e, s)
      | Inr s' \<Rightarrow> (Inr (), s'))"

definition Lookup ::
  "'k config \<Rightarrow> locality \<Rightarrow> oid \<Rightarrow> 'k \<Rightarrow> ('k, 'v) state \<Rightarrow> error + 'v option" where
  "Lookup cfg src obj k s =
     (case resolve s (partition cfg (n_loc s) k) obj of
        Inl e \<Rightarrow> Inl e
      | Inr sh \<Rightarrow> Inr (shard_lookup sh k))"

text \<open>
  Modelled from the spec: the dispatch of an operation under a handle and the record
  of its completion (\<^verbatim>\<open>runtime.h\<close>, missing), section 4.5: issuing increments
  \<open>issued\<close>, a completion increments \<open>completed\<close>.
\<close>

definition dispatch :: "hid \<Rightarrow> ('k, 'v) task \<Rightarrow> ('k, 'v) state \<Rightarrow> ('k, 'v) state" where
  "dispatch h t s =
     s\<lparr>inflight := inflight s @ [(h, t)],
       handles := (handles s)(h := (handles s h)\<lparr>issued := Suc (issued (handles s h))\<rparr>)\<rparr>"

definition complete :: "hid \<Rightarrow> ('k, 'v) state \<Rightarrow> ('k, 'v) state" where
  "complete h s =
     s\<lparr>handles := (handles s)(h := (handles s h)\<lparr>completed := Suc (completed (handles s h))\<rparr>)\<rparr>"

text \<open>
  Modelled from the spec: \<open>AsyncInsert\<close> of \<^verbatim>\<open>hashmap.h\<close> (missing), section 4.4: it
  fails at once on an identifier that is not live, and otherwise returns when the
  insert is dispatched. (An insert whose target is the calling locality may complete
  before the call returns; that is the schedule which executes the task at once.)
\<close>

definition AsyncInsert ::
  "'k config \<Rightarrow> locality \<Rightarrow> nat \<Rightarrow> oid \<Rightarrow> 'k \<Rightarrow> 'v \<Rightarrow> ('k, 'v) state \<Rightarrow> (error + unit) \<times> ('k, 'v) state" where
  "AsyncInsert cfg src u obj k v s =
     (if live s obj then (Inr (), dispatch (UserHandle u) (InsertTask obj k v) s)
      else (Inl NotFound, s))"

text \<open>
  Modelled from the spec: \<open>AsyncForEachKey\<close> of \<^verbatim>\<open>hashmap.h\<close> (missing), section 4.4:
  one traversal per locality, all under the caller's handle.
\<close>

definition AsyncForEachKey ::
  "nat \<Rightarrow> oid \<Rightarrow> ('k, 'v) state \<Rightarrow> (error + unit) \<times> ('k, 'v) state" where
  "AsyncForEachKey u obj s =
     (if live s obj then
        (Inr (), fold (\<lambda>loc. dispatch (UserHandle u) (KeysTask obj loc)) [0..<n_loc s] s)
      else (Inl NotFound, s))"

text \<open>
  Modelled from the spec: the Buffered Insert Queue of \<^verbatim>\<open>hashmap.h\<close> (missing),
  section 4.6. \<open>flush1\<close> sends a buffer that is not empty as one batch under the
  handle of the map and empties it; \<open>enqueue\<close> appends an entry to a buffer;
  \<open>BufferedAsyncInsert\<close> enqueues the entry in the buffer of its target and flushes
  that buffer when it has reached the capacity;
  \<open>flush_all\<close> is the flushing half of \<open>WaitForBufferedInsert\<close>, which then waits for
  the handle of the map.
\<close>

definition flush1 :: "oid \<Rightarrow> locality \<times> locality \<Rightarrow> ('k, 'v) state \<Rightarrow> ('k, 'v) state" where
  "flush1 obj st s =
     (let b = buffers s (obj, st) in
      if b = [] then s
      else dispatch (BufferHandle obj) (BatchTask obj (snd st) b)
             (s\<lparr>buffers := (buffers s)((obj, st) := [])\<rparr>))"

definition enqueue ::
  "oid \<times> locality \<times> locality \<Rightarrow> 'k \<times> 'v \<Rightarrow> ('k, 'v) state \<Rightarrow> ('k, 'v) state" where
  "enqueue b kv s = s\<lparr>buffers := (buffers s)(b := buffers s b @ [kv])\<rparr>"

definition BufferedAsyncInsert ::
  "'k config \<Rightarrow> locality \<Rightarrow> oid \<Rightarrow> 'k \<Rightarrow> 'v \<Rightarrow> ('k, 'v) state \<Rightarrow> (error + unit) \<times> ('k, 'v) state" where
  "BufferedAsyncInsert cfg src obj k v s =
     (if live s obj then
        (let tgt = partition cfg (n_loc s) k;
             s1 = enqueue (obj, src, tgt) (k, v) s
         in (Inr (),
             if batch_capacity cfg \<le> length (buffers s1 (obj, src, tgt))
             then flush1 obj (src, tgt) s1 else s1))
      else (Inl NotFound, s))"

definition flush_all :: "oid \<Rightarrow> ('k, 'v) state \<Rightarrow> ('k, 'v) state" where
  "flush_all obj s = fold (flush1 obj) (List.product [0..<n_loc s] [0..<n_loc s]) s"

text \<open>
  Modelled from the spec: the execution of a task in flight by the runtime
  (\<^verbatim>\<open>runtime.h\<close>, missing), sections 4.4 to 4.6. A task on an object that is not
  there any more does nothing; in every case the task leaves the tasks in flight and
  its completion is recorded under its handle.
\<close>

definition run_task :: "'k config \<Rightarrow> ('k, 'v) task \<Rightarrow> ('k, 'v) state \<Rightarrow> ('k, 'v) state" where
  "run_task cfg t s =
     (case t of
        InsertTask obj k v \<Rightarrow>
          (case local_apply (partition cfg (n_loc s) k) obj (shard_insert k v) s of
             Inl e \<Rightarrow> s | Inr s' \<Rightarrow> s')
      | BatchTask obj tgt kvs \<Rightarrow>
          (case local_apply tgt obj (insert_all kvs) s of Inl e \<Rightarrow> s | Inr s' \<Rightarrow> s')
      | KeysTask obj loc \<Rightarrow>
          (case resolve s loc obj of
             Inl e \<Rightarrow> s
           | Inr sh \<Rightarrow> s\<lparr>visited := visited s @ map (Pair loc) (shard_keys sh)\<rparr>))"

definition remove_task :: "nat \<Rightarrow> ('k, 'v) state \<Rightarrow> ('k, 'v) state" where
  "remove_task i s = s\<lparr>inflight := take i (inflight s) @ drop (Suc i) (inflight s)\<rparr>"

definition exec :: "'k config \<Rightarrow> nat \<Rightarrow> ('k, 'v) state \<Rightarrow> ('k, 'v) state option" where
  "exec cfg i s =
     (if i < length (inflight s) then
        Some (complete (fst (inflight s ! i))
               (run_task cfg (snd (inflight s ! i)) (remove_task i s)))
      else None)"

text \<open>
  Modelled from the spec: \<open>waitForCompletion\<close> of \<^verbatim>\<open>runtime.h\<close> (missing), section
  4.5: the call returns in a state in which the handle is drained, and in no other.
\<close>

definition drained :: "hid \<Rightarrow> ('k, 'v) state \<Rightarrow> bool" where
  "drained h s \<longleftrightarrow> completed (handles s h) = issued (handles s h)"

definition waitForCompletion :: "hid \<Rightarrow> ('k, 'v) state \<Rightarrow> ('k, 'v) state option" where
  "waitForCompletion h s = (if drained h s then Some s else None)"

text \<open>
  Modelled from the spec: a history of the system, as the benchmark drives the missing
  \<^verbatim>\<open>hashmap.h\<close> and \<^verbatim>\<open>runtime.h\<close>: the calls of the interface, made on a locality of
  the cluster, and the steps \<open>Exec i\<close> in which the runtime executes the task at
  position \<open>i\<close> of those in flight. A call that fails, a wait that cannot return yet
  and a step without a task have no next state.
\<close>

datatype ('k, 'v) call =
  Create_call nat
  | Destroy_call oid
  | Insert_call locality oid 'k 'v
  | AsyncInsert_call locality nat oid 'k 'v
  | BufferedAsyncInsert_call locality oid 'k 'v
  | Flush_call oid
  | AsyncForEachKey_call nat oid
  | Wait_call hid
  | Exec nat

definition returned :: "(error + unit) \<times> ('k, 'v) state \<Rightarrow> ('k, 'v) state option" where
  "returned r = (case fst r of Inl e \<Rightarrow> None | Inr u \<Rightarrow> Some (snd r))"

definition perform :: "'k config \<Rightarrow> ('k, 'v) call \<Rightarrow> ('k, 'v) state \<Rightarrow> ('k, 'v) state option" where
  "perform cfg c s =
     (case c of
        Create_call hint \<Rightarrow> Some (snd (Create hint s))
      | Destroy_call obj \<Rightarrow> returned (Destroy obj s)
      | Insert_call src obj k v \<Rightarrow>
          if src < n_loc s then returned (Insert cfg src obj k v s) else None
      | AsyncInsert_call src u obj k v \<Rightarrow>
          if src < n_loc s then returned (AsyncInsert cfg src u obj k v s) else None
      | BufferedAsyncInsert_call src obj k v \<Rightarrow>
          if src < n_loc s then returned (BufferedAsyncInsert cfg src obj k v s) else None
      | Flush_call obj \<Rightarrow> if live s obj then Some (flush_all obj s) else None
      | AsyncForEachKey_call u obj \<Rightarrow> returned (AsyncForEachKey u obj s)
      | Wait_call h \<Rightarrow> waitForCompletion h s
      | Exec i \<Rightarrow> exec cfg i s)"

fun run :: "'k config \<Rightarrow> ('k, 'v) call list \<Rightarrow> ('k, 'v) state \<Rightarrow> ('k, 'v) state option" where
  "run cfg [] s = Some s"
| "run cfg (c # cs) s = (case perform cfg c s of None \<Rightarrow> None | Some s' \<Rightarrow> run cfg cs s')"

subsection \<open>Notions for stating the properties of the map\<close>

text \<open>
  The number of tasks in flight under a handle, and the accounting of a handle: what
  was issued has completed or is in flight.
\<close>

definition inflight_count :: "hid \<Rightarrow> ('k, 'v) state \<Rightarrow> nat" where
  "inflight_count h s = length (filter (\<lambda>p. fst p = h) (inflight s))"

definition accounted :: "('k, 'v) state \<Rightarrow> bool" where
  "accounted s \<longleftrightarrow>
     (\<forall>h. issued (handles s h) = completed (handles s h) + inflight_count h s)"

text \<open>
  The identifiers in use are below the next one to be given out.
\<close>

definition fresh :: "('k, 'v) state \<Rightarrow> bool" where
  "fresh s \<longleftrightarrow> (\<forall>r \<in> set (registries s). \<forall>obj. r obj \<noteq> None \<longrightarrow> obj < next_oid s)"

text \<open>
  A task in flight is under the handle of its kind, a batch or a traversal goes to a
  locality of the cluster, and a batch holds keys of its target only; a buffer holds
  keys of its target only and belongs to a locality of the cluster.
\<close>

definition task_ok :: "'k config \<Rightarrow> nat \<Rightarrow> hid \<Rightarrow> ('k, 'v) task \<Rightarrow> bool" where
  "task_ok cfg n h t =
     (case t of
        InsertTask obj k v \<Rightarrow> (case h of UserHandle u \<Rightarrow> True | BufferHandle obj' \<Rightarrow> False)
      | BatchTask obj tgt kvs \<Rightarrow>
          h = BufferHandle obj \<and> tgt < n \<and> list_all (\<lambda>kv. partition cfg n (fst kv) = tgt) kvs
      | KeysTask obj loc \<Rightarrow>
          (case h of UserHandle u \<Rightarrow> loc < n | BufferHandle obj' \<Rightarrow> False))"

definition tasks_ok :: "'k config \<Rightarrow> ('k, 'v) state \<Rightarrow> bool" where
  "tasks_ok cfg s \<longleftrightarrow> list_all (\<lambda>p. task_ok cfg (n_loc s) (fst p) (snd p)) (inflight s)"

definition bufs_ok :: "'k config \<Rightarrow> ('k, 'v) state \<Rightarrow> bool" where
  "bufs_ok cfg s \<longleftrightarrow>
     (\<forall>obj src tgt. buffers s (obj, src, tgt) \<noteq> [] \<longrightarrow>
        src < n_loc s \<and> tgt < n_loc s
        \<and> list_all (\<lambda>kv. partition cfg (n_loc s) (fst kv) = tgt) (buffers s (obj, src, tgt)))"

definition inv :: "'k config \<Rightarrow> ('k, 'v) state \<Rightarrow> bool" where
  "inv cfg s \<longleftrightarrow> accounted s \<and> fresh s \<and> tasks_ok cfg s \<and> bufs_ok cfg s"

text \<open>
  The calls of a phase of asynchronous inserts (inserts, steps of the runtime, waits),
  and the number of operations that a list of calls issues under a handle in such a
  phase.
\<close>

definition insert_phase :: "('k, 'v) call \<Rightarrow> bool" where
  "insert_phase c =
     (case c of
        AsyncInsert_call src u obj k v \<Rightarrow> True
      | Wait_call h \<Rightarrow> True
      | Exec i \<Rightarrow> True
      | _ \<Rightarrow> False)"

definition issues :: "hid \<Rightarrow> ('k, 'v) call \<Rightarrow> nat" where
  "issues h c =
     (case c of
        AsyncInsert_call src u obj k v \<Rightarrow> if h = UserHandle u then 1 else 0
      | _ \<Rightarrow> 0)"

definition asyncs :: "hid \<Rightarrow> ('k, 'v) call list \<Rightarrow> nat" where
  "asyncs h cs = sum_list (map (issues h) cs)"

text \<open>
  A task or a call writes the key \<open>k\<close> of the object \<open>obj\<close> (to destroy the object
  counts as a write); the key is quiet in a state when no task in flight and no
  buffered entry writes it.
\<close>

definition task_writes :: "oid \<Rightarrow> 'k \<Rightarrow> ('k, 'v) task \<Rightarrow> bool" where
  "task_writes obj k t =
     (case t of
        InsertTask obj' k' v \<Rightarrow> obj' = obj \<and> k' = k
      | BatchTask obj' tgt kvs \<Rightarrow> obj' = obj \<and> k \<in> fst ` set kvs
      | KeysTask obj' loc \<Rightarrow> False)"

definition call_writes :: "oid \<Rightarrow> 'k \<Rightarrow> ('k, 'v) call \<Rightarrow> bool" where
  "call_writes obj k c =
     (case c of
        Destroy_call obj' \<Rightarrow> obj' = obj
      | Insert_call src obj' k' v \<Rightarrow> obj' = obj \<and> k' = k
      | AsyncInsert_call src u obj' k' v \<Rightarrow> obj' = obj \<and> k' = k
      | BufferedAsyncInsert_call src obj' k' v \<Rightarrow> obj' = obj \<and> k' = k
      | _ \<Rightarrow> False)"

definition writers :: "oid \<Rightarrow> 'k \<Rightarrow> ('k, 'v) state \<Rightarrow> (hid \<times> ('k, 'v) task) list" where
  "writers obj k s = filter (\<lambda>p. task_writes obj k (snd p)) (inflight s)"

definition unbuffered :: "oid \<Rightarrow> 'k \<Rightarrow> ('k, 'v) state \<Rightarrow> bool" where
  "unbuffered obj k s \<longleftrightarrow> (\<forall>st. k \<notin> fst ` set (buffers s (obj, st)))"

definition quiet :: "('k, 'v) state \<Rightarrow> oid \<Rightarrow> 'k \<Rightarrow> bool" where
  "quiet s obj k \<longleftrightarrow> writers obj k s = [] \<and> unbuffered obj k s"

text \<open>
  The asynchronous insert of \<open>(k, v)\<close> under the handle \<open>u\<close> is the only write of the
  key that is pending, or no write is pending and the key has the value \<open>v\<close>.
\<close>

definition insert_pending ::
  "'k config \<Rightarrow> oid \<Rightarrow> 'k \<Rightarrow> 'v \<Rightarrow> nat \<Rightarrow> ('k, 'v) state \<Rightarrow> bool" where
  "insert_pending cfg obj k v u s \<longleftrightarrow>
     live s obj \<and> fresh s \<and> unbuffered obj k s
     \<and> (writers obj k s = [(UserHandle u, InsertTask obj k v)]
          \<or> writers obj k s = [] \<and> Lookup cfg 0 obj k s = Inr (Some v))"

text \<open>
  An entry of the key \<open>k\<close> for the object is in a batch in flight; the key is stored
  in the map. The entry is tracked: the map is live, the invariant holds, and the key
  is in a buffer (counted only when \<open>b\<close> holds, that is before the flush), in a
  batch in flight, or stored.
\<close>

definition in_batch :: "oid \<Rightarrow> 'k \<Rightarrow> ('k, 'v) state \<Rightarrow> bool" where
  "in_batch obj k s \<longleftrightarrow>
     (\<exists>p \<in> set (inflight s). \<exists>tgt kvs. snd p = BatchTask obj tgt kvs \<and> k \<in> fst ` set kvs)"

definition stored :: "'k config \<Rightarrow> oid \<Rightarrow> 'k \<Rightarrow> ('k, 'v) state \<Rightarrow> bool" where
  "stored cfg obj k s \<longleftrightarrow> (\<exists>v. Lookup cfg 0 obj k s = Inr (Some v))"

definition tracked :: "bool \<Rightarrow> 'k config \<Rightarrow> oid \<Rightarrow> 'k \<Rightarrow> ('k, 'v) state \<Rightarrow> bool" where
  "tracked b cfg obj k s \<longleftrightarrow>
     live s obj \<and> inv cfg s
     \<and> (b \<and> \<not> unbuffered obj k s \<or> in_batch obj k s \<or> stored cfg obj k s)"

text \<open>
  The calls that change no shard: all but the creation and the destruction of a map,
  the blocking insert and the steps of the runtime.
\<close>

definition issue_only :: "('k, 'v) call \<Rightarrow> bool" where
  "issue_only c =
     (case c of
        AsyncInsert_call src u obj k v \<Rightarrow> True
      | BufferedAsyncInsert_call src obj k v \<Rightarrow> True
      | Flush_call obj \<Rightarrow> True
      | AsyncForEachKey_call u obj \<Rightarrow> True
      | Wait_call h \<Rightarrow> True
      | _ \<Rightarrow> False)"

text \<open>
  For the traversal of the keys. The steps of the runtime among the calls; the keys
  that the shards of an object hold, over all localities, as a multiset; the keys of
  the inserts in flight; the keys that the traversals in flight are going to visit.
\<close>

definition is_exec :: "('k, 'v) call \<Rightarrow> bool" where
  "is_exec c = (case c of Exec i \<Rightarrow> True | _ \<Rightarrow> False)"

definition keys_of :: "oid \<Rightarrow> ('k, 'v) state \<Rightarrow> 'k multiset" where
  "keys_of obj s =
     sum_list (map (\<lambda>r. case r obj of None \<Rightarrow> {#} | Some sh \<Rightarrow> mset (shard_keys sh))
       (registries s))"

definition task_key :: "('k, 'v) task \<Rightarrow> 'k multiset" where
  "task_key t = (case t of InsertTask obj k v \<Rightarrow> {#k#} | _ \<Rightarrow> {#})"

definition pending_keys :: "('k, 'v) state \<Rightarrow> 'k multiset" where
  "pending_keys s = sum_list (map (\<lambda>p. task_key (snd p)) (inflight s))"

definition task_visit :: "('k, 'v) state \<Rightarrow> ('k, 'v) task \<Rightarrow> 'k multiset" where
  "task_visit s t =
     (case t of
        KeysTask obj loc \<Rightarrow>
          (case resolve s loc obj of Inl e \<Rightarrow> {#} | Inr sh \<Rightarrow> mset (shard_keys sh))
      | _ \<Rightarrow> {#})"

definition pending_visits :: "('k, 'v) state \<Rightarrow> 'k multiset" where
  "pending_visits s = sum_list (map (\<lambda>p. task_visit s (snd p)) (inflight s))"

text \<open>
  The phase of the inserts of the keys \<open>0, \<dots>, m - 1\<close> under the handle \<open>u\<close>, when
  \<open>j\<close> of them are issued: only these inserts are in flight, and the keys in flight
  and in the shards are the keys issued. The phase of the traversal under the handle
  \<open>u'\<close>: only its tasks are in flight, and the keys visited and to be visited are \<open>K\<close>.
\<close>

definition inserting :: "oid \<Rightarrow> nat \<Rightarrow> nat \<Rightarrow> nat \<Rightarrow> (int, int) state \<Rightarrow> bool" where
  "inserting obj u m j s \<longleftrightarrow>
     live s obj \<and> accounted s \<and> visited s = [] \<and> j \<le> m
     \<and> list_all (\<lambda>p. fst p = UserHandle u \<and> (\<exists>k. snd p = InsertTask obj k k)) (inflight s)
     \<and> pending_keys s + keys_of obj s = mset (map int [0..<j])"

definition visiting :: "oid \<Rightarrow> nat \<Rightarrow> 'k multiset \<Rightarrow> ('k, 'v) state \<Rightarrow> bool" where
  "visiting obj u' K s \<longleftrightarrow>
     accounted s
     \<and> list_all (\<lambda>p. fst p = UserHandle u' \<and> (\<exists>loc. snd p = KeysTask obj loc)) (inflight s)
     \<and> mset (map snd (visited s)) + pending_visits s = K"

text \<open>
  A configuration for evaluation: integer keys hashed to their absolute value, batches
  of 64 entries.
\<close>

definition int_config :: "int config" where
  "int_config = \<lparr>hash = (\<lambda>k. nat \<bar>k\<bar>), batch_capacity = 64\<rparr>"

text \<open>
  States and histories for evaluation: a map of integers created with the capacity
  hint 16 on four localities, and two asynchronous inserts under one handle, executed
  in the reverse order and waited for.
\<close>

definition fresh_map :: "(int, int) state" where
  "fresh_map = snd (Create 16 (init 4))"

definition two_inserts :: "(int, int) call list" where
  "two_inserts =
     [AsyncInsert_call 0 0 0 5 5, AsyncInsert_call 0 0 0 6 6, Exec 1, Exec 0,
      Wait_call (UserHandle 0)]"

text \<open>
  After an asynchronous insert of the key 5: an asynchronous insert of the key 6, the
  execution of both in the reverse order, and the wait.
\<close>

definition then_other :: "(int, int) call list" where
  "then_other = [AsyncInsert_call 0 0 0 6 6, Exec 1, Exec 0, Wait_call (UserHandle 0)]"

text \<open>
  A buffered insert of the key 5 is followed by a buffered insert of the key 6; then
  the buffers are flushed, the two batches are executed, and the wait returns.
\<close>

definition buffered_then :: "(int, int) call list" where
  "buffered_then = [BufferedAsyncInsert_call 1 0 6 6]"

definition flushed_then :: "(int, int) call list" where
  "flushed_then = [Exec 1, Exec 0, Wait_call (BufferHandle 0)]"

text \<open>
  The scenario of the traversal on \<open>fresh_map\<close>: the hundred asynchronous inserts
  under the handle 0, all issued and then executed in the order of issue; the traversal
  under the handle 1, its four tasks executed in the order of the localities.
\<close>

definition hundred_inserts :: "(int, int) call list" where
  "hundred_inserts =
     map (\<lambda>i. AsyncInsert_call 0 0 0 (int i) (int i)) [0..<100] @ replicate 100 (Exec 0)"

definition traversal :: "(int, int) call list" where
  "traversal = AsyncForEachKey_call 1 0 # replicate 4 (Exec 0)"

section \<open>Properties of the encodings\<close>

subsection \<open>Decimal digits\<close>

lemma digit_val_char: "d < 10 \<Longrightarrow> digit_val (digit_char d) = d"
  by (simp add: digit_val_def digit_char_def)

lemma digit_char_val: "isdigit c \<Longrightarrow> digit_char (digit_val c) = c"
  by (simp add: digit_val_def digit_char_def isdigit_def)

lemma isdigit_digit_char: "d < 10 \<Longrightarrow> isdigit (digit_char d)"
  by (simp add: isdigit_def digit_char_def)

lemma digit_val_less: "isdigit c \<Longrightarrow> digit_val c < 10"
  by (auto simp: isdigit_def digit_val_def)

lemma digit_val_zero: "isdigit c \<Longrightarrow> digit_val c = 0 \<longleftrightarrow> c = CHR ''0''"
proof -
  assume d: "isdigit c"
  have "digit_val c = 0 \<longleftrightarrow> (of_char c :: nat) = of_char (CHR ''0'')"
    using d by (auto simp: isdigit_def digit_val_def)
  then show ?thesis by (simp only: of_char_eq_iff)
qed

lemma digits_val_acc_snoc:
  "digits_val_acc acc (xs @ [c]) = 10 * digits_val_acc acc xs + digit_val c"
  by (induction xs arbitrary: acc) simp_all

lemma digits_val_snoc: "digits_val (xs @ [c]) = 10 * digits_val xs + digit_val c"
  by (simp add: digits_val_def digits_val_acc_snoc)

lemma digits_val_acc_ge: "acc \<le> digits_val_acc acc xs"
proof (induction xs arbitrary: acc)
  case Nil
  show ?case by simp
next
  case (Cons c cs)
  have "acc \<le> 10 * acc + digit_val c" by simp
  also have "\<dots> \<le> digits_val_acc (10 * acc + digit_val c) cs" by (rule Cons.IH)
  finally show ?case by simp
qed

lemma digits_val_pos:
  assumes "isdigit c" "c \<noteq> CHR ''0''"
  shows "0 < digits_val (c # cs)"
proof -
  have "0 < digit_val c" using assms digit_val_zero by auto
  also have "\<dots> \<le> digits_val_acc (digit_val c) cs" by (rule digits_val_acc_ge)
  finally show ?thesis by (simp add: digits_val_def)
qed

lemma digits_val_to_string_nat: "digits_val (to_string_nat n) = n"
proof (induction n rule: to_string_nat.induct)
  case (1 n)
  show ?case
  proof (cases "n < 10")
    case True
    then show ?thesis by (simp add: digits_val_def digit_val_char)
  next
    case False
    then have "digits_val (to_string_nat n) = 10 * digits_val (to_string_nat (n div 10)) + digit_val (digit_char (n mod 10))"
      by (subst to_string_nat.simps) (simp add: digits_val_snoc)
    with False 1 show ?thesis by (simp add: digit_val_char)
  qed
qed

lemma to_string_nat_digits: "list_all isdigit (to_string_nat n)"
proof (induction n rule: to_string_nat.induct)
  case (1 n)
  show ?case
  proof (cases "n < 10")
    case True
    then show ?thesis by (simp add: isdigit_digit_char)
  next
    case False
    with 1 show ?thesis
      by (subst to_string_nat.simps) (simp add: isdigit_digit_char)
  qed
qed

lemma to_string_nat_nonempty: "to_string_nat n \<noteq> []"
  by (subst to_string_nat.simps) simp

lemma to_string_nat_digits_val:
  "canonical_decimal s \<Longrightarrow> to_string_nat (digits_val s) = s"
proof (induction s rule: rev_induct)
  case Nil
  then show ?case by (simp add: canonical_decimal_def)
next
  case (snoc c xs)
  from snoc.prems have c: "isdigit c" and xsd: "list_all isdigit xs"
    by (simp_all add: canonical_decimal_def)
  show ?case
  proof (cases xs)
    case Nil
    with c show ?thesis
      by (simp add: digits_val_def digit_val_less digit_char_val)
  next
    case (Cons x ys)
    with snoc.prems xsd have x: "isdigit x" "x \<noteq> CHR ''0''"
      by (auto simp: canonical_decimal_def)
    with Cons xsd have can: "canonical_decimal xs"
      by (simp add: canonical_decimal_def)
    have pos: "0 < digits_val xs" using x Cons digits_val_pos by simp
    have lt: "digit_val c < 10" using c by (rule digit_val_less)
    have "to_string_nat (digits_val (xs @ [c])) =
          to_string_nat ((10 * digits_val xs + digit_val c) div 10) @
            [digit_char ((10 * digits_val xs + digit_val c) mod 10)]"
      using pos by (subst to_string_nat.simps) (simp add: digits_val_snoc)
    also have "(10 * digits_val xs + digit_val c) div 10 = digits_val xs"
      using lt by simp
    also have "(10 * digits_val xs + digit_val c) mod 10 = digit_val c"
      using lt by simp
    finally show ?thesis
      using snoc.IH [OF can] c by (simp add: digit_char_val)
  qed
qed

lemma isdigit_not_space: "isdigit c \<Longrightarrow> \<not> isspace c"
  by (auto simp: isdigit_def isspace_def)

lemma isdigit_not_sign: "isdigit c \<Longrightarrow> c \<noteq> CHR ''-'' \<and> c \<noteq> CHR ''+''"
  by (auto simp: isdigit_def)

lemma subject_digits:
  assumes "s \<noteq> []" "list_all isdigit s"
  shows "subject s = (False, s)"
proof -
  from assms obtain c r where s: "s = c # r" by (cases s) auto
  with assms have c: "isdigit c" by simp
  have tw: "takeWhile isdigit s = s"
    using assms(2) by (simp add: list_all_iff)
  have dw: "dropWhile isspace s = s"
    using s c isdigit_not_space by simp
  show ?thesis
    unfolding subject_def dw using s tw isdigit_not_sign [OF c] by simp
qed

lemma stoull_canonical:
  assumes "canonical_decimal s" "digits_val s < 2 ^ 64"
  shows "stoull s = Inr (word_of_nat (digits_val s))"
proof -
  have "subject s = (False, s)"
    using assms(1) by (intro subject_digits) (simp_all add: canonical_decimal_def)
  then show ?thesis
    using assms by (simp add: stoull_def canonical_decimal_def)
qed

lemma unat_kNullValue: "unat kNullValue = 2 ^ 63 - 1"
  by (simp add: kNullValue_def)

lemma UINT_roundtrip_iff:
  assumes "canonical_decimal s" "digits_val s < 2 ^ 64"
  shows "decode_UINT (encode_UINT s) = s \<longleftrightarrow> digits_val s \<noteq> 2 ^ 63 - 1"
proof -
  let ?n = "digits_val s"
  have enc: "encode_UINT s = word_of_nat ?n"
    using stoull_canonical [OF assms] by (simp add: encode_UINT_def)
  have un: "unat (word_of_nat ?n :: u64) = ?n"
    using assms(2) by (simp add: unat_of_nat)
  have eqk: "(word_of_nat ?n :: u64) = kNullValue \<longleftrightarrow> ?n = 2 ^ 63 - 1"
    using un unat_kNullValue by (metis word_unat_eq_iff)
  have ne: "s \<noteq> []" using assms(1) by (simp add: canonical_decimal_def)
  show ?thesis
    using enc eqk un ne to_string_nat_digits_val [OF assms(1)]
    by (auto simp: decode_UINT_def to_string_u64_def)
qed

subsection \<open>Bytes of a 64-bit word\<close>

lemma horner_bytes_bound: "horner_sum of_char (256::nat) bs < 256 ^ length bs"
proof (induction bs)
  case Nil
  show ?case by simp
next
  case (Cons b bs)
  define x h p where "x = (of_char b :: nat)" and "h = horner_sum of_char (256::nat) bs"
    and "p = (256::nat) ^ length bs"
  have "x < 256" by (simp add: x_def)
  moreover have "h < p" using Cons by (simp add: h_def p_def)
  ultimately have "x + 256 * h < 256 * p" by linarith
  then show ?case by (simp add: x_def h_def p_def)
qed

lemma horner_bytes_digit:
  "i < length bs \<Longrightarrow> char_of (horner_sum of_char (256::nat) bs div 256 ^ i) = bs ! i"
proof (induction bs arbitrary: i)
  case Nil
  then show ?case by simp
next
  case (Cons b bs)
  show ?case
  proof (cases i)
    case 0
    have "char_of (of_char b + 256 * horner_sum of_char (256::nat) bs) = char_of (of_char b :: nat)"
      by (simp only: char_of_quasi_inj) simp
    with 0 show ?thesis by simp
  next
    case (Suc j)
    have b: "(of_char b :: nat) < 256" by simp
    have "(of_char b + 256 * horner_sum of_char (256::nat) bs) div 256 ^ i
          = ((of_char b + 256 * horner_sum of_char (256::nat) bs) div 256) div 256 ^ j"
      using Suc by (simp add: div_mult2_eq)
    also have "(of_char b + 256 * horner_sum of_char (256::nat) bs) div 256
          = horner_sum of_char (256::nat) bs"
      using b by simp
    finally show ?thesis using Cons Suc by simp
  qed
qed

lemma bytes_of_u64_of_bytes:
  assumes "length bs = 8"
  shows "bytes_of_u64 (u64_of_bytes bs) = bs"
proof -
  have "horner_sum of_char (256::nat) bs < 256 ^ 8"
    using horner_bytes_bound [of bs] assms by simp
  then have un: "unat (u64_of_bytes bs) = horner_sum of_char (256::nat) bs"
    by (simp add: u64_of_bytes_def unat_of_nat)
  show ?thesis
  proof (rule nth_equalityI)
    show "length (bytes_of_u64 (u64_of_bytes bs)) = length bs"
      using assms by (simp add: bytes_of_u64_def)
  next
    fix i assume "i < length (bytes_of_u64 (u64_of_bytes bs))"
    then have i: "i < 8" by (simp add: bytes_of_u64_def)
    then have "bytes_of_u64 (u64_of_bytes bs) ! i = char_of (unat (u64_of_bytes bs) div 256 ^ i)"
      unfolding bytes_of_u64_def by (simp del: upt_Suc)
    also have "\<dots> = bs ! i"
      using i assms by (simp add: un horner_bytes_digit)
    finally show "bytes_of_u64 (u64_of_bytes bs) ! i = bs ! i" .
  qed
qed

lemma takeWhile_c_string:
  "NUL \<notin> set s \<Longrightarrow> takeWhile (\<lambda>c. c \<noteq> NUL) (take n (s @ NUL # r) @ [NUL]) = take n s"
proof (induction s arbitrary: n)
  case Nil
  then show ?case by (cases n) simp_all
next
  case (Cons a s)
  then have "a \<noteq> NUL" by auto
  with Cons show ?case by (cases n) simp_all
qed

lemma CHARS_bytes:
  "bytes_of_u64 (encode_CHARS e s) = take 7 (s @ NUL # map (slack e) [0..<6]) @ [NUL]"
proof -
  let ?src = "take 7 (s @ NUL # map (slack e) [0..<6])"
  have len: "length ?src = 7" by simp
  have "memcpy (replicate 8 NUL) ?src = ?src @ [NUL]"
    unfolding memcpy_def len by (simp add: numeral_eq_Suc)
  moreover have "length (?src @ [NUL]) = 8" using len by simp
  ultimately show ?thesis
    unfolding encode_CHARS_def by (simp only: bytes_of_u64_of_bytes)
qed

subsection \<open>UINT: the round trip and the sentinel\<close>

lemma stoull_eval_sentinel: "stoull ''9223372036854775807'' = Inr 0x7FFFFFFFFFFFFFFF"
  by (simp add: stoull_def subject_def isspace_def isdigit_def digits_val_def digit_val_def)

lemma canonical_above: "canonical_decimal ''9223372036854775808''"
  by (simp add: canonical_decimal_def isdigit_def)

lemma digits_val_above: "digits_val ''9223372036854775808'' = 2 ^ 63"
  by (simp add: digits_val_def digit_val_def)

text \<open>
  Claim C6, as stated, ends with: the round trip of UINT is the identity exactly below
  the sentinel value. It is the identity above the sentinel too: the canonical string
  of \<open>2 ^ 63\<close>, the value next above the sentinel, is decoded to itself.
\<close>

theorem UINT_roundtrip_above_sentinel:
  "canonical_decimal ''9223372036854775808''
   \<and> decode_UINT (encode_UINT ''9223372036854775808'') = ''9223372036854775808''
   \<and> \<not> digits_val ''9223372036854775808'' < unat kNullValue"
proof -
  have "digits_val ''9223372036854775808'' < 2 ^ 64"
    by (simp add: digits_val_above)
  then have "decode_UINT (encode_UINT ''9223372036854775808'') = ''9223372036854775808''"
    using UINT_roundtrip_iff [OF canonical_above] by (simp add: digits_val_above)
  then show ?thesis
    by (simp add: canonical_above digits_val_above unat_kNullValue)
qed

text \<open>
  Claim C6, amended: \<open>kNullValue\<close> is \<open>2 ^ 63 - 1\<close>; the string of that value is
  encoded to the sentinel, which is decoded to the empty string; and for a canonical
  decimal string \<open>s\<close> of a value below \<open>2 ^ 64\<close>, decoding the encoding of \<open>s\<close>
  gives \<open>s\<close> back exactly when the value is not the sentinel: below it and above it.
\<close>

theorem UINT_roundtrip:
  "unat kNullValue = 2 ^ 63 - 1
   \<and> encode_UINT ''9223372036854775807'' = kNullValue
   \<and> decode_UINT kNullValue = []
   \<and> (canonical_decimal s \<and> digits_val s < 2 ^ 64 \<longrightarrow>
        (decode_UINT (encode_UINT s) = s \<longleftrightarrow> digits_val s \<noteq> 2 ^ 63 - 1))"
proof -
  have "encode_UINT ''9223372036854775807'' = kNullValue"
    by (simp add: encode_UINT_def stoull_eval_sentinel kNullValue_def)
  moreover have "decode_UINT kNullValue = []"
    by (simp add: decode_UINT_def)
  ultimately show ?thesis
    using unat_kNullValue UINT_roundtrip_iff by blast
qed

text \<open>
  The theorem at the string \<open>42\<close>.
\<close>

theorem UINT_roundtrip_witness:
  "canonical_decimal ''42'' \<and> digits_val ''42'' < 2 ^ 64 \<and> digits_val ''42'' \<noteq> 2 ^ 63 - 1
   \<and> decode_UINT (encode_UINT ''42'') = ''42''"
proof -
  have c: "canonical_decimal ''42''" by (simp add: canonical_decimal_def isdigit_def)
  have v: "digits_val ''42'' = 42" by (simp add: digits_val_def digit_val_def)
  show ?thesis using UINT_roundtrip [of "''42''"] c v by simp
qed

subsection \<open>CHARS: the round trip\<close>

text \<open>
  Claim C7: for a string \<open>s\<close> without a NUL character, decoding the CHARS encoding
  of \<open>s\<close> gives the first \<open>min (length s) 7\<close> characters of \<open>s\<close>, hence \<open>s\<close>
  itself when it has at most seven characters; the eighth byte of the encoding is
  NUL. This holds whatever bytes lie behind the terminator of the string's buffer.
\<close>

theorem CHARS_roundtrip:
  assumes "NUL \<notin> set s"
  shows "decode_CHARS (encode_CHARS e s) = Some (take (min (length s) 7) s)
    \<and> (length s \<le> 7 \<longrightarrow> decode_CHARS (encode_CHARS e s) = Some s)
    \<and> bytes_of_u64 (encode_CHARS e s) ! 7 = NUL"
proof -
  let ?src = "take 7 (s @ NUL # map (slack e) [0..<6])"
  have len: "length ?src = 7" by simp
  have dec: "decode_CHARS (encode_CHARS e s) = Some (take 7 s)"
    unfolding decode_CHARS_def CHARS_bytes Let_def
    using takeWhile_c_string [OF assms, of 7 "map (slack e) [0..<6]"] by simp
  have last: "bytes_of_u64 (encode_CHARS e s) ! 7 = NUL"
    unfolding CHARS_bytes using nth_append_length [of ?src NUL "[]"] len by simp
  have "take (min (length s) 7) s = take 7 s" by (simp add: min_def)
  with dec last show ?thesis by simp
qed

text \<open>
  The theorem at the string \<open>shad\<close>.
\<close>

theorem CHARS_roundtrip_witness:
  "NUL \<notin> set ''shad'' \<and> length ''shad'' \<le> 7
   \<and> decode_CHARS (encode_CHARS utc ''shad'') = Some ''shad''"
  using CHARS_roundtrip [of "''shad''" utc] by (simp add: NUL_def)

subsection \<open>IP_ADDRESS: dotted quads\<close>

lemma takeWhile_field:
  "CHR ''.'' \<notin> set f \<Longrightarrow> takeWhile (\<lambda>c. c \<noteq> CHR ''.'') (f @ CHR ''.'' # r) = f"
  by (induction f) auto

lemma dropWhile_field:
  "CHR ''.'' \<notin> set f \<Longrightarrow> dropWhile (\<lambda>c. c \<noteq> CHR ''.'') (f @ CHR ''.'' # r) = CHR ''.'' # r"
  by (induction f) auto

lemma takeWhile_last_field:
  "CHR ''.'' \<notin> set f \<Longrightarrow> takeWhile (\<lambda>c. c \<noteq> CHR ''.'') f = f"
  by (induction f) auto

lemma ip_loop_field:
  assumes "CHR ''.'' \<notin> set f"
  shows "ip_loop (Suc n) v (Some (f @ CHR ''.'' # r)) =
     (case stoull f of
        Inl ex \<Rightarrow> Some kNullValue
      | Inr val \<Rightarrow> if val < 256 then ip_loop n (push_bit 8 v + val) (Some r) else Some kNullValue)"
  using assms by (simp add: takeWhile_field dropWhile_field split: sum.splits)

lemma ip_loop_last_field:
  assumes "CHR ''.'' \<notin> set f"
  shows "ip_loop (Suc 0) v (Some f) =
     (case stoull f of
        Inl ex \<Rightarrow> Some kNullValue
      | Inr val \<Rightarrow> if val < 256 then Some (push_bit 8 v + val) else Some kNullValue)"
  using assms by (simp add: takeWhile_last_field split: sum.splits)

lemma ip_loop_last_defined: "\<exists>w. ip_loop (Suc 0) v (Some r) = Some w"
  by (simp split: sum.splits)

lemma encode_IP_unfold:
  assumes "CHR ''.'' \<notin> set fa \<union> set fb \<union> set fc \<union> set fd"
  shows "encode_IP_ADDRESS (dotted_quad fa fb fc fd) =
     (case stoull fa of Inl ex \<Rightarrow> Some kNullValue | Inr a \<Rightarrow>
        if \<not> a < 256 then Some kNullValue else
     (case stoull fb of Inl ex \<Rightarrow> Some kNullValue | Inr b \<Rightarrow>
        if \<not> b < 256 then Some kNullValue else
     (case stoull fc of Inl ex \<Rightarrow> Some kNullValue | Inr c \<Rightarrow>
        if \<not> c < 256 then Some kNullValue else
     (case stoull fd of Inl ex \<Rightarrow> Some kNullValue | Inr d \<Rightarrow>
        if \<not> d < 256 then Some kNullValue
        else Some (a * 2 ^ 24 + b * 2 ^ 16 + c * 2 ^ 8 + d)))))"
proof -
  have a: "CHR ''.'' \<notin> set fa" and b: "CHR ''.'' \<notin> set fb"
    and c: "CHR ''.'' \<notin> set fc" and d: "CHR ''.'' \<notin> set fd"
    using assms by auto
  have four: "(4::nat) = Suc (Suc (Suc (Suc 0)))" by simp
  show ?thesis
    unfolding encode_IP_ADDRESS_def dotted_quad_def four append_Cons append_Nil
      ip_loop_field [OF a] ip_loop_field [OF b] ip_loop_field [OF c] ip_loop_last_field [OF d]
    by (simp add: push_bit_eq_mult algebra_simps split: sum.splits)
qed

text \<open>
  A string with four fields or more: the loop ends within the string, and the call
  returns a value.
\<close>

lemma encode_IP_four_fields:
  assumes "CHR ''.'' \<notin> set fa \<union> set fb \<union> set fc"
  shows "\<exists>w. encode_IP_ADDRESS (dotted_quad fa fb fc r) = Some w"
proof -
  have a: "CHR ''.'' \<notin> set fa" and b: "CHR ''.'' \<notin> set fb" and c: "CHR ''.'' \<notin> set fc"
    using assms by auto
  have four: "(4::nat) = Suc (Suc (Suc (Suc 0)))" by simp
  have l: "\<And>v. \<exists>w. ip_loop (Suc 0) v (Some r) = Some w" by (rule ip_loop_last_defined)
  have c': "\<And>v. \<exists>w. ip_loop (Suc (Suc 0)) v (Some (fc @ CHR ''.'' # r)) = Some w"
    unfolding ip_loop_field [OF c] using l by (simp split: sum.splits)
  have b': "\<And>v. \<exists>w. ip_loop (Suc (Suc (Suc 0))) v (Some (fb @ CHR ''.'' # fc @ CHR ''.'' # r)) = Some w"
    unfolding ip_loop_field [OF b] using c' by (simp split: sum.splits)
  show ?thesis
    unfolding encode_IP_ADDRESS_def dotted_quad_def four append_Cons append_Nil
      ip_loop_field [OF a] using b' by (simp split: sum.splits)
qed

subsection \<open>What \<open>stoull\<close> reads in a field\<close>

lemma of_char_eq_nat: "c = d \<longleftrightarrow> (of_char c :: nat) = of_char d"
  by simp

lemma isspace_white_space: "isspace c \<longleftrightarrow> c \<in> set white_space"
proof -
  have "c \<in> set white_space \<longleftrightarrow>
      (of_char c :: nat) = 32 \<or> (of_char c :: nat) = 9 \<or> (of_char c :: nat) = 10
      \<or> (of_char c :: nat) = 11 \<or> (of_char c :: nat) = 12 \<or> (of_char c :: nat) = 13"
    unfolding white_space_def set_simps insert_iff empty_iff
    by (simp only: of_char_eq_nat [of c]) simp
  also have "\<dots> \<longleftrightarrow> isspace c" unfolding isspace_def by arith
  finally show ?thesis by simp
qed

lemma sign_not_space: "\<not> isspace (CHR ''+'')" "\<not> isspace (CHR ''-'')"
  by (simp_all add: isspace_def)

lemma sign_not_digit: "\<not> isdigit (CHR ''+'')" "\<not> isdigit (CHR ''-'')"
  by (simp_all add: isdigit_def)

lemma digit_not_space: "isdigit c \<Longrightarrow> \<not> isspace c"
  by (auto simp: isdigit_def isspace_def)

lemma digit_not_sign: "isdigit c \<Longrightarrow> c \<noteq> CHR ''+'' \<and> c \<noteq> CHR ''-''"
  using sign_not_digit by auto

lemma dropWhile_blanks:
  assumes "list_all isspace ws" "x = [] \<or> \<not> isspace (hd x)"
  shows "dropWhile isspace (ws @ x) = x"
  using assms
proof (induction ws)
  case Nil
  then show ?case by (cases x) auto
next
  case (Cons c ws)
  then show ?case by simp
qed

lemma takeWhile_digits:
  assumes "list_all isdigit ds" "x = [] \<or> \<not> isdigit (hd x)"
  shows "takeWhile isdigit (ds @ x) = ds"
  using assms
proof (induction ds)
  case Nil
  then show ?case by (cases x) auto
next
  case (Cons c ds)
  then show ?case by simp
qed

lemma subject_field:
  assumes "field_shape p"
  shows "subject (field_text p) = (sign p = ''-'', digits p)"
proof -
  from assms have ws: "list_all isspace (blanks p)"
    and sg: "sign p = [] \<or> sign p = ''+'' \<or> sign p = ''-''"
    and ds: "list_all isdigit (digits p)"
    and rs: "rest p = [] \<or> \<not> isdigit (hd (rest p))"
    and nn: "sign p = [] \<and> digits p = [] \<longrightarrow>
          rest p = [] \<or> hd (rest p) \<notin> set (white_space @ ''+-'')"
    by (simp_all add: field_shape_def isspace_white_space [abs_def])
  let ?x = "sign p @ digits p @ rest p"
  have tk: "takeWhile isdigit (digits p @ rest p) = digits p"
    using ds rs by (rule takeWhile_digits)
  have hd: "?x = [] \<or> \<not> isspace (hd ?x)"
  proof (cases "sign p = []")
    case False
    with sg show ?thesis using sign_not_space by auto
  next
    case True
    show ?thesis
    proof (cases "digits p = []")
      case False
      then have "isdigit (hd (digits p))" using ds by (cases "digits p") simp_all
      with True False show ?thesis using digit_not_space by (cases "digits p") simp_all
    next
      case d: True
      with True nn have "rest p = [] \<or> hd (rest p) \<notin> set (white_space @ ''+-'')" by simp
      with True d show ?thesis by (auto simp: isspace_white_space)
    qed
  qed
  have dw: "dropWhile isspace (field_text p) = ?x"
    unfolding field_text_def using ws hd by (rule dropWhile_blanks)
  show ?thesis
  proof (cases "sign p = []")
    case False
    with sg tk show ?thesis unfolding subject_def dw by auto
  next
    case True
    show ?thesis
    proof (cases "digits p")
      case (Cons c cs)
      with ds have "isdigit c" by simp
      then have "c \<noteq> CHR ''+'' \<and> c \<noteq> CHR ''-''" by (rule digit_not_sign)
      then show ?thesis unfolding subject_def dw using True Cons tk by simp
    next
      case Nil
      show ?thesis
      proof (cases "rest p")
        case r: Nil
        show ?thesis unfolding subject_def dw using True Nil r by simp
      next
        case r: (Cons c cs)
        with True Nil nn rs have "c \<noteq> CHR ''+''" "c \<noteq> CHR ''-''" "\<not> isdigit c" by auto
        then show ?thesis unfolding subject_def dw using True Nil r by simp
      qed
    qed
  qed
qed

lemma stoull_field:
  assumes "field_shape p"
  shows "stoull (field_text p) =
     (if digits p = [] then Inl invalid_argument
      else if 2 ^ 64 \<le> digits_val (digits p) then Inl out_of_range
      else Inr (if sign p = ''-'' then - word_of_nat (digits_val (digits p))
                else word_of_nat (digits_val (digits p))))"
  by (simp add: stoull_def subject_field [OF assms])

lemma minus_word_of_nat:
  assumes "v \<le> 2 ^ 64"
  shows "- (word_of_nat v :: u64) = word_of_nat ((2 ^ 64 - v) mod 2 ^ 64)"
proof -
  have "(word_of_nat ((2 ^ 64 - v) mod 2 ^ 64) :: u64) = word_of_nat (2 ^ 64 - v)"
    by (simp add: word_of_nat_eq_iff take_bit_eq_mod)
  also have "\<dots> = word_of_nat (2 ^ 64) - word_of_nat v"
    using assms by (simp only: of_nat_diff)
  also have "\<dots> = - word_of_nat v" by simp
  finally show ?thesis by simp
qed

lemma word_of_nat_less_256:
  assumes "a < 2 ^ 64"
  shows "(word_of_nat a :: u64) < 256 \<longleftrightarrow> a < 256"
proof -
  have "unat (word_of_nat a :: u64) = a"
    using assms by (simp add: unat_of_nat take_bit_nat_eq_self)
  then show ?thesis unfolding word_less_nat_alt by simp
qed

text \<open>
  Whether the loop goes on behind a field, and with which value.
\<close>

lemma octet_stoull:
  assumes "field_shape p"
  shows "(case stoull (field_text p) of Inl ex \<Rightarrow> None | Inr val \<Rightarrow> if val < 256 then Some val else None)
     = map_option word_of_nat (octet p)"
proof (cases "digits p = [] \<or> 2 ^ 64 \<le> digits_val (digits p)")
  case True
  then show ?thesis by (auto simp: stoull_field [OF assms] octet_def Let_def)
next
  case False
  then have d: "digits p \<noteq> []" and v: "digits_val (digits p) < 2 ^ 64" by auto
  let ?v = "digits_val (digits p)"
  let ?a = "if sign p = ''-'' then (2 ^ 64 - ?v) mod 2 ^ 64 else ?v"
  let ?w = "if sign p = ''-'' then - word_of_nat ?v else (word_of_nat ?v :: u64)"
  have a: "?a < 2 ^ 64" using v by simp
  have w: "?w = word_of_nat ?a" using v by (simp add: minus_word_of_nat)
  have lt: "?w < 256 \<longleftrightarrow> ?a < 256"
    unfolding w using a by (rule word_of_nat_less_256)
  have s: "stoull (field_text p) = Inr ?w" using d v by (simp add: stoull_field [OF assms])
  show ?thesis
  proof (cases "?a < 256")
    case True
    with lt have "?w < 256" by simp
    with True d v w show ?thesis unfolding s octet_def Let_def by simp
  next
    case False
    with lt have "\<not> ?w < 256" by simp
    with False d v show ?thesis unfolding s octet_def Let_def by simp
  qed
qed

text \<open>
  Every string is the text of a field of the shape.
\<close>

lemma field_exists: "\<exists>p. field_shape p \<and> field_text p = f"
proof -
  define ws where "ws = takeWhile isspace f"
  define x where "x = dropWhile isspace f"
  define sg where "sg = (if x \<noteq> [] \<and> (hd x = CHR ''+'' \<or> hd x = CHR ''-'') then [hd x] else [])"
  define y where "y = drop (length sg) x"
  define ds where "ds = takeWhile isdigit y"
  define r where "r = dropWhile isdigit y"
  let ?p = "\<lparr>blanks = ws, sign = sg, digits = ds, rest = r\<rparr>"
  have f: "ws @ x = f" by (simp add: ws_def x_def)
  have xy: "sg @ y = x" by (cases x) (auto simp: sg_def y_def)
  have yr: "ds @ r = y" by (simp add: ds_def r_def)
  have tx: "field_text ?p = f" using f xy yr by (simp add: field_text_def)
  have w: "list_all (\<lambda>c. c \<in> set white_space) ws"
    unfolding ws_def list_all_iff isspace_white_space [symmetric]
    by (auto dest: set_takeWhileD)
  have s: "sg = [] \<or> sg = ''+'' \<or> sg = ''-''" by (auto simp: sg_def)
  have d: "list_all isdigit ds"
    unfolding ds_def list_all_iff by (auto dest: set_takeWhileD)
  have rr: "r = [] \<or> \<not> isdigit (hd r)"
    unfolding r_def using hd_dropWhile [of isdigit y] by auto
  have n: "sg = [] \<and> ds = [] \<longrightarrow> r = [] \<or> hd r \<notin> set (white_space @ ''+-'')"
  proof (intro impI)
    assume a: "sg = [] \<and> ds = []"
    then have rx: "r = x" using xy yr by simp
    show "r = [] \<or> hd r \<notin> set (white_space @ ''+-'')"
    proof (cases "x = []")
      case True
      with rx show ?thesis by simp
    next
      case False
      then have "\<not> isspace (hd x)" unfolding x_def using hd_dropWhile [of isspace f] by auto
      moreover from a False have "hd x \<noteq> CHR ''+''" "hd x \<noteq> CHR ''-''"
        by (auto simp: sg_def split: if_splits)
      ultimately show ?thesis using rx by (auto simp: isspace_white_space)
    qed
  qed
  have "field_shape ?p" using w s d rr n by (simp add: field_shape_def)
  with tx show ?thesis by blast
qed

lemma field_step:
  assumes "field_shape p"
  shows "(case stoull (field_text p) of Inl ex \<Rightarrow> X | Inr a \<Rightarrow> if \<not> a < 256 then X else F a)
     = (case octet p of None \<Rightarrow> X | Some a \<Rightarrow> F (word_of_nat a))"
  using octet_stoull [OF assms] by (auto split: sum.splits option.splits if_splits)

lemma encode_IP_octets:
  assumes "field_shape pa" "field_shape pb" "field_shape pc" "field_shape pd"
    and "CHR ''.'' \<notin> set (field_text pa) \<union> set (field_text pb)
           \<union> set (field_text pc) \<union> set (field_text pd)"
  shows "encode_IP_ADDRESS
           (dotted_quad (field_text pa) (field_text pb) (field_text pc) (field_text pd)) =
     (case octet pa of None \<Rightarrow> Some kNullValue | Some a \<Rightarrow>
     (case octet pb of None \<Rightarrow> Some kNullValue | Some b \<Rightarrow>
     (case octet pc of None \<Rightarrow> Some kNullValue | Some c \<Rightarrow>
     (case octet pd of None \<Rightarrow> Some kNullValue | Some d \<Rightarrow>
        Some (word_of_nat (a * 2 ^ 24 + b * 2 ^ 16 + c * 2 ^ 8 + d))))))"
  unfolding encode_IP_unfold [OF assms(5)]
    field_step [OF assms(1)] field_step [OF assms(2)] field_step [OF assms(3)]
    field_step [OF assms(4)]
  by (simp split: option.splits)

lemma digit_not_dot: "isdigit c \<Longrightarrow> c \<noteq> CHR ''.''"
  by (auto simp: isdigit_def)

lemma plain_field:
  assumes "decimal_integer f"
  shows "field_shape (plain f)" "field_text (plain f) = f" "CHR ''.'' \<notin> set f"
    "octet (plain f) = (if digits_val f < 256 then Some (digits_val f) else None)"
proof -
  from assms have ne: "f \<noteq> []" and ds: "list_all isdigit f"
    by (simp_all add: decimal_integer_def)
  show "field_shape (plain f)" using ne ds by (simp add: field_shape_def plain_def)
  show "field_text (plain f) = f" by (simp add: field_text_def plain_def)
  show "CHR ''.'' \<notin> set f" using ds digit_not_dot by (auto simp: list_all_iff)
  show "octet (plain f) = (if digits_val f < 256 then Some (digits_val f) else None)"
    using ne by (simp add: octet_def plain_def)
qed

lemma encode_IP_decimal:
  assumes "decimal_integer fa" "decimal_integer fb" "decimal_integer fc" "decimal_integer fd"
  shows "encode_IP_ADDRESS (dotted_quad fa fb fc fd) =
     Some (if digits_val fa < 256 \<and> digits_val fb < 256 \<and> digits_val fc < 256
              \<and> digits_val fd < 256
           then word_of_nat (digits_val fa * 2 ^ 24 + digits_val fb * 2 ^ 16
                  + digits_val fc * 2 ^ 8 + digits_val fd)
           else kNullValue)"
proof -
  have dots: "CHR ''.'' \<notin> set (field_text (plain fa)) \<union> set (field_text (plain fb))
           \<union> set (field_text (plain fc)) \<union> set (field_text (plain fd))"
    using plain_field(3) [OF assms(1)] plain_field(3) [OF assms(2)]
      plain_field(3) [OF assms(3)] plain_field(3) [OF assms(4)]
    by (simp add: plain_field(2) assms)
  show ?thesis
    using encode_IP_octets [OF plain_field(1) [OF assms(1)] plain_field(1) [OF assms(2)]
        plain_field(1) [OF assms(3)] plain_field(1) [OF assms(4)] dots]
    by (simp add: plain_field(2,4) assms)
qed

lemma stoull_1x: "stoull ''1x'' = Inr 1"
  by (simp add: stoull_def subject_def isspace_def isdigit_def digits_val_def digit_val_def)
lemma stoull_2: "stoull ''2'' = Inr 2"
  by (simp add: stoull_def subject_def isspace_def isdigit_def digits_val_def digit_val_def)
lemma stoull_3: "stoull ''3'' = Inr 3"
  by (simp add: stoull_def subject_def isspace_def isdigit_def digits_val_def digit_val_def)
lemma stoull_4: "stoull ''4'' = Inr 4"
  by (simp add: stoull_def subject_def isspace_def isdigit_def digits_val_def digit_val_def)

text \<open>
  Claim C8, as stated, has the encoding return \<open>kNullValue\<close> when one of the four
  fields does not parse as a decimal integer. The field \<open>1x\<close> is no decimal integer,
  and \<open>1x.2.3.4\<close> is encoded as \<open>1.2.3.4\<close> is: \<open>stoull\<close> reads the number at the
  head of a field and leaves what follows it.
\<close>

theorem encode_IP_ADDRESS_trailing_characters:
  "\<not> decimal_integer ''1x''
   \<and> encode_IP_ADDRESS ''1x.2.3.4'' = Some 16909060
   \<and> (16909060 :: u64) \<noteq> kNullValue"
proof -
  have dots: "CHR ''.'' \<notin> set ''1x'' \<union> set ''2'' \<union> set ''3'' \<union> set ''4''" by simp
  have "encode_IP_ADDRESS (dotted_quad ''1x'' ''2'' ''3'' ''4'') = Some 16909060"
    unfolding encode_IP_unfold [OF dots] stoull_1x stoull_2 stoull_3 stoull_4 by simp
  moreover have "\<not> decimal_integer ''1x''" by (simp add: decimal_integer_def isdigit_def)
  ultimately show ?thesis by (simp add: dotted_quad_def kNullValue_def)
qed

text \<open>
  Claim C8, amended. For a dotted quad of four decimal integers (strings of digits),
  the encoding is \<open>a * 2 ^ 24 + b * 2 ^ 16 + c * 2 ^ 8 + d\<close> when the four values are
  at most 255, and \<open>kNullValue\<close> when one of them is 256 or more. For a dotted quad of
  any four fields without a dot, each field is read as \<open>stoull\<close> reads it: behind
  white space and one optional sign, the number is the run of digits found there,
  whatever follows it, negated modulo \<open>2 ^ 64\<close> behind a minus sign (every string
  has these parts: \<open>field_exists\<close>). When each field
  gives a number of at most 255 in this way (\<open>octet\<close>), the encoding is the same sum
  of the four numbers; when one of the fields has no digit in that place, or gives a
  number of 256 or more, the encoding is \<open>kNullValue\<close>.
\<close>

theorem encode_IP_ADDRESS_fields:
  "(decimal_integer fa \<and> decimal_integer fb \<and> decimal_integer fc \<and> decimal_integer fd \<longrightarrow>
      encode_IP_ADDRESS (dotted_quad fa fb fc fd) =
        Some (if digits_val fa < 256 \<and> digits_val fb < 256 \<and> digits_val fc < 256
                 \<and> digits_val fd < 256
              then word_of_nat (digits_val fa * 2 ^ 24 + digits_val fb * 2 ^ 16
                     + digits_val fc * 2 ^ 8 + digits_val fd)
              else kNullValue))
   \<and> (field_shape pa \<and> field_shape pb \<and> field_shape pc \<and> field_shape pd
      \<and> CHR ''.'' \<notin> set (field_text pa) \<union> set (field_text pb)
           \<union> set (field_text pc) \<union> set (field_text pd) \<longrightarrow>
      (octet pa = Some a \<and> octet pb = Some b \<and> octet pc = Some c \<and> octet pd = Some d \<longrightarrow>
         encode_IP_ADDRESS
           (dotted_quad (field_text pa) (field_text pb) (field_text pc) (field_text pd))
         = Some (word_of_nat (a * 2 ^ 24 + b * 2 ^ 16 + c * 2 ^ 8 + d)))
      \<and> (octet pa = None \<or> octet pb = None \<or> octet pc = None \<or> octet pd = None \<longrightarrow>
         encode_IP_ADDRESS
           (dotted_quad (field_text pa) (field_text pb) (field_text pc) (field_text pd))
         = Some kNullValue))"
proof (intro conjI impI)
  assume "decimal_integer fa \<and> decimal_integer fb \<and> decimal_integer fc \<and> decimal_integer fd"
  then show "encode_IP_ADDRESS (dotted_quad fa fb fc fd) =
        Some (if digits_val fa < 256 \<and> digits_val fb < 256 \<and> digits_val fc < 256
                 \<and> digits_val fd < 256
              then word_of_nat (digits_val fa * 2 ^ 24 + digits_val fb * 2 ^ 16
                     + digits_val fc * 2 ^ 8 + digits_val fd)
              else kNullValue)"
    using encode_IP_decimal by blast
next
  assume s: "field_shape pa \<and> field_shape pb \<and> field_shape pc \<and> field_shape pd
      \<and> CHR ''.'' \<notin> set (field_text pa) \<union> set (field_text pb)
           \<union> set (field_text pc) \<union> set (field_text pd)"
  then have e: "encode_IP_ADDRESS
           (dotted_quad (field_text pa) (field_text pb) (field_text pc) (field_text pd)) =
     (case octet pa of None \<Rightarrow> Some kNullValue | Some a \<Rightarrow>
     (case octet pb of None \<Rightarrow> Some kNullValue | Some b \<Rightarrow>
     (case octet pc of None \<Rightarrow> Some kNullValue | Some c \<Rightarrow>
     (case octet pd of None \<Rightarrow> Some kNullValue | Some d \<Rightarrow>
        Some (word_of_nat (a * 2 ^ 24 + b * 2 ^ 16 + c * 2 ^ 8 + d))))))"
    using encode_IP_octets by blast
  {
    assume "octet pa = Some a \<and> octet pb = Some b \<and> octet pc = Some c \<and> octet pd = Some d"
    then show "encode_IP_ADDRESS
           (dotted_quad (field_text pa) (field_text pb) (field_text pc) (field_text pd))
         = Some (word_of_nat (a * 2 ^ 24 + b * 2 ^ 16 + c * 2 ^ 8 + d))"
      unfolding e by simp
  next
    assume "octet pa = None \<or> octet pb = None \<or> octet pc = None \<or> octet pd = None"
    then show "encode_IP_ADDRESS
           (dotted_quad (field_text pa) (field_text pb) (field_text pc) (field_text pd))
         = Some kNullValue"
      unfolding e by (auto split: option.splits)
  }
qed

lemmas field_eval =
  field_shape_def field_text_def octet_def white_space_def isdigit_def digits_val_def
  digit_val_def decimal_integer_def Let_def

text \<open>
  The theorem at \<open>192.168.0.1\<close> and \<open>192.168.0.256\<close>, at the fields \<open>1x\<close>, \<open>+7\<close>
  behind a blank, \<open>0x10\<close> and \<open>-0\<close>, and at the fields \<open>a\<close> and \<open>-1\<close>.
\<close>

theorem encode_IP_ADDRESS_fields_witness:
  "decimal_integer ''192'' \<and> decimal_integer ''168'' \<and> decimal_integer ''0''
   \<and> decimal_integer ''1'' \<and> decimal_integer ''256''
   \<and> encode_IP_ADDRESS ''192.168.0.1'' = Some 3232235521
   \<and> encode_IP_ADDRESS ''192.168.0.256'' = Some kNullValue
   \<and> field_shape \<lparr>blanks = [], sign = [], digits = ''1'', rest = ''x''\<rparr>
   \<and> field_shape \<lparr>blanks = '' '', sign = ''+'', digits = ''7'', rest = []\<rparr>
   \<and> field_shape \<lparr>blanks = [], sign = [], digits = ''0'', rest = ''x10''\<rparr>
   \<and> field_shape \<lparr>blanks = [], sign = ''-'', digits = ''0'', rest = []\<rparr>
   \<and> octet \<lparr>blanks = [], sign = [], digits = ''1'', rest = ''x''\<rparr> = Some 1
   \<and> octet \<lparr>blanks = '' '', sign = ''+'', digits = ''7'', rest = []\<rparr> = Some 7
   \<and> octet \<lparr>blanks = [], sign = [], digits = ''0'', rest = ''x10''\<rparr> = Some 0
   \<and> octet \<lparr>blanks = [], sign = ''-'', digits = ''0'', rest = []\<rparr> = Some 0
   \<and> encode_IP_ADDRESS ''1x. +7.0x10.-0'' = Some 17235968
   \<and> field_shape \<lparr>blanks = [], sign = [], digits = [], rest = ''a''\<rparr>
   \<and> field_shape \<lparr>blanks = [], sign = ''-'', digits = ''1'', rest = []\<rparr>
   \<and> octet \<lparr>blanks = [], sign = [], digits = [], rest = ''a''\<rparr> = None
   \<and> octet \<lparr>blanks = [], sign = ''-'', digits = ''1'', rest = []\<rparr> = None
   \<and> encode_IP_ADDRESS ''1x.a.0x10.-0'' = Some kNullValue
   \<and> encode_IP_ADDRESS ''1x. +7.0x10.-1'' = Some kNullValue"
proof -
  let ?p1x = "\<lparr>blanks = [], sign = [], digits = ''1'', rest = ''x''\<rparr>"
  let ?p7 = "\<lparr>blanks = '' '', sign = ''+'', digits = ''7'', rest = []\<rparr>"
  let ?p0x = "\<lparr>blanks = [], sign = [], digits = ''0'', rest = ''x10''\<rparr>"
  let ?pm0 = "\<lparr>blanks = [], sign = ''-'', digits = ''0'', rest = []\<rparr>"
  let ?pa = "\<lparr>blanks = [], sign = [], digits = [], rest = ''a''\<rparr>"
  let ?pm1 = "\<lparr>blanks = [], sign = ''-'', digits = ''1'', rest = []\<rparr>"
  have dec: "decimal_integer ''192''" "decimal_integer ''168''" "decimal_integer ''0''"
    "decimal_integer ''1''" "decimal_integer ''256''"
    by (simp_all add: field_eval)
  have sh: "field_shape ?p1x" "field_shape ?p7" "field_shape ?p0x" "field_shape ?pm0"
    "field_shape ?pa" "field_shape ?pm1"
    by (simp_all add: field_eval)
  have oc: "octet ?p1x = Some 1" "octet ?p7 = Some 7" "octet ?p0x = Some 0" "octet ?pm0 = Some 0"
    "octet ?pa = None" "octet ?pm1 = None"
    by (simp_all add: field_eval)
  have tx: "field_text ?p1x = ''1x''" "field_text ?p7 = '' +7''" "field_text ?p0x = ''0x10''"
    "field_text ?pm0 = ''-0''" "field_text ?pa = ''a''" "field_text ?pm1 = ''-1''"
    by (simp_all add: field_eval)
  have q1: "encode_IP_ADDRESS ''192.168.0.1'' = Some 3232235521"
    using encode_IP_ADDRESS_fields [where fa = "''192''" and fb = "''168''" and fc = "''0''"
        and fd = "''1''"] dec
    by (simp add: dotted_quad_def digits_val_def digit_val_def)
  have q2: "encode_IP_ADDRESS ''192.168.0.256'' = Some kNullValue"
    using encode_IP_ADDRESS_fields [where fa = "''192''" and fb = "''168''" and fc = "''0''"
        and fd = "''256''"] dec
    by (simp add: dotted_quad_def digits_val_def digit_val_def)
  have q3: "encode_IP_ADDRESS ''1x. +7.0x10.-0'' = Some 17235968"
    using encode_IP_ADDRESS_fields [where pa = ?p1x and pb = ?p7 and pc = ?p0x and pd = ?pm0
        and a = 1 and b = 7 and c = 0 and d = 0] sh oc
    by (simp add: tx dotted_quad_def)
  have q4: "encode_IP_ADDRESS ''1x.a.0x10.-0'' = Some kNullValue"
    using encode_IP_ADDRESS_fields [where pa = ?p1x and pb = ?pa and pc = ?p0x and pd = ?pm0]
      sh oc
    by (simp add: tx dotted_quad_def)
  have q5: "encode_IP_ADDRESS ''1x. +7.0x10.-1'' = Some kNullValue"
    using encode_IP_ADDRESS_fields [where pa = ?p1x and pb = ?p7 and pc = ?p0x and pd = ?pm1]
      sh oc
    by (simp add: tx dotted_quad_def)
  from dec sh oc q1 q2 q3 q4 q5 show ?thesis by simp
qed

subsection \<open>Input that does not parse\<close>

text \<open>
  Where the conversion of the standard library throws, the encoding is the sentinel:
  the handlers of UINT, INT, FLOAT and DOUBLE.
\<close>

lemma encode_exception_sentinel:
  "stoull s = Inl ex \<Longrightarrow> encode l e UINT s = Some kNullValue"
  "stoll s = Inl ex \<Longrightarrow> encode l e INT_t s = Some kNullValue"
  "stof l (decimal_point e) (rounding e) s = Inl ex \<Longrightarrow> encode l e FLOAT s = Some kNullValue"
  "stod l (decimal_point e) (rounding e) s = Inl ex \<Longrightarrow> encode l e DOUBLE s = Some kNullValue"
  by (simp_all add: encode_def encode_UINT_def encode_INT_def encode_FLOAT_def
      encode_DOUBLE_def)

lemma bytes_of_u64_top: "bytes_of_u64 w ! 7 = char_of (unat w div 256 ^ 7)"
  unfolding bytes_of_u64_def by (simp del: upt_Suc)

lemma CHARS_top_byte: "bytes_of_u64 (encode_CHARS e s) ! 7 = NUL"
proof -
  let ?src = "take 7 (s @ NUL # map (slack e) [0..<6])"
  have len: "length ?src = 7" by simp
  show ?thesis
    unfolding CHARS_bytes using nth_append_length [of ?src NUL "[]"] len by simp
qed

lemma encode_CHARS_not_sentinel: "encode_CHARS e s \<noteq> kNullValue"
proof
  assume "encode_CHARS e s = kNullValue"
  then have "bytes_of_u64 (encode_CHARS e s) ! 7 = bytes_of_u64 kNullValue ! 7" by simp
  moreover have "bytes_of_u64 (encode_CHARS e s) ! 7 = NUL"
    by (rule CHARS_top_byte)
  moreover have "bytes_of_u64 kNullValue ! 7 = char_of (127::nat)"
    unfolding bytes_of_u64_top by (simp add: kNullValue_def)
  ultimately have "(of_char (char_of (127::nat)) :: nat) = of_char NUL" by simp
  then show False by (simp add: NUL_def)
qed

text \<open>
  BOOL: the empty string, the five spellings of false, and every other string.
\<close>

lemma encode_BOOL_cases:
  "encode_BOOL s = kNullValue \<longleftrightarrow> s = []"
  "s \<in> {''F'', ''f'', ''FALSE'', ''false'', ''0''} \<Longrightarrow> encode_BOOL s = 0"
  "s \<noteq> [] \<Longrightarrow> s \<notin> {''F'', ''f'', ''FALSE'', ''false'', ''0''} \<Longrightarrow> encode_BOOL s = 1"
  by (auto simp: encode_BOOL_def kNullValue_def)

text \<open>
  IP_ADDRESS: a first field that \<open>stoull\<close> does not convert to a value below 256
  ends the loop in its first round, whatever follows the field; in a dotted quad, so
  does each of the four fields in its round.
\<close>

lemma refused_field:
  "(\<forall>v. stoull f = Inr v \<longrightarrow> 256 \<le> v)
     \<longleftrightarrow> (case stoull f of Inl ex \<Rightarrow> True | Inr val \<Rightarrow> \<not> val < 256)"
  by (auto split: sum.splits)

lemma encode_IP_first_field:
  assumes "\<forall>v. stoull (takeWhile (\<lambda>c. c \<noteq> CHR ''.'') s) = Inr v \<longrightarrow> 256 \<le> v"
  shows "encode_IP_ADDRESS s = Some kNullValue"
proof -
  have "ip_loop 4 0 (Some s) = ip_loop (Suc 3) 0 (Some s)" by simp
  also have "\<dots> =
     (case stoull (takeWhile (\<lambda>c. c \<noteq> CHR ''.'') s) of
        Inl ex \<Rightarrow> Some kNullValue
      | Inr val \<Rightarrow>
          if val < 256 then
            ip_loop 3 (push_bit 8 0 + val)
              (case dropWhile (\<lambda>c. c \<noteq> CHR ''.'') s of [] \<Rightarrow> None | dot # r' \<Rightarrow> Some r')
          else Some kNullValue)"
    by (simp only: ip_loop.simps)
  also have "\<dots> = Some kNullValue"
    using assms unfolding refused_field by (simp split: sum.splits)
  finally show ?thesis by (simp add: encode_IP_ADDRESS_def)
qed

lemma encode_IP_any_field:
  assumes "CHR ''.'' \<notin> set fa \<union> set fb \<union> set fc \<union> set fd"
    and "(\<forall>v. stoull fa = Inr v \<longrightarrow> 256 \<le> v) \<or> (\<forall>v. stoull fb = Inr v \<longrightarrow> 256 \<le> v)
       \<or> (\<forall>v. stoull fc = Inr v \<longrightarrow> 256 \<le> v) \<or> (\<forall>v. stoull fd = Inr v \<longrightarrow> 256 \<le> v)"
  shows "encode_IP_ADDRESS (dotted_quad fa fb fc fd) = Some kNullValue"
  using assms(2) unfolding encode_IP_unfold [OF assms(1)] refused_field
  by (auto split: sum.splits)

text \<open>
  The same in terms of the characters of the string: \<open>stoull\<close> and \<open>stoll\<close>
  throw on a string that has no digit behind its white space and sign, and on a number
  that is too large.
\<close>

lemma stoll_field:
  assumes "field_shape p"
  shows "stoll (field_text p) =
     (if digits p = [] then Inl invalid_argument
      else if sign p = ''-'' then
        (if 2 ^ 63 < digits_val (digits p) then Inl out_of_range
         else Inr (- word_of_nat (digits_val (digits p))))
      else
        (if 2 ^ 63 \<le> digits_val (digits p) then Inl out_of_range
         else Inr (word_of_nat (digits_val (digits p)))))"
  by (simp add: stoll_def subject_field [OF assms])

lemma encode_UINT_no_number:
  assumes "field_shape p" "digits p = [] \<or> 2 ^ 64 \<le> digits_val (digits p)"
  shows "encode_UINT (field_text p) = kNullValue"
  using assms(2) by (auto simp: encode_UINT_def stoull_field [OF assms(1)])

lemma encode_INT_no_number:
  assumes "field_shape p" "digits p = [] \<or> 2 ^ 63 < digits_val (digits p)"
  shows "encode_INT (field_text p) = kNullValue"
  using assms(2) by (auto simp: encode_INT_def stoll_field [OF assms(1)])

lemma refused_octet:
  assumes "field_shape p" "octet p = None"
  shows "\<forall>v. stoull (field_text p) = Inr v \<longrightarrow> 256 \<le> v"
  using octet_stoull [OF assms(1)] assms(2) by (auto split: sum.splits if_splits)

lemma encode_IP_first_octet:
  assumes "field_shape p" "CHR ''.'' \<notin> set (field_text p)" "octet p = None"
  shows "encode_IP_ADDRESS (field_text p @ ''.'' @ r) = Some kNullValue"
    and "encode_IP_ADDRESS (field_text p) = Some kNullValue"
proof -
  have t: "takeWhile (\<lambda>c. c \<noteq> CHR ''.'') (field_text p @ ''.'' @ r) = field_text p"
    using takeWhile_field [OF assms(2), of r] by simp
  show "encode_IP_ADDRESS (field_text p @ ''.'' @ r) = Some kNullValue"
    using refused_octet [OF assms(1,3)] by (intro encode_IP_first_field) (simp only: t)
  show "encode_IP_ADDRESS (field_text p) = Some kNullValue"
    using refused_octet [OF assms(1,3)]
    by (intro encode_IP_first_field) (simp only: takeWhile_last_field [OF assms(2)])
qed

lemma stoull_banana: "stoull ''banana'' = Inl invalid_argument"
  by (simp add: stoull_def subject_def isspace_def isdigit_def)

lemma stoll_banana: "stoll ''banana'' = Inl invalid_argument"
  by (simp add: stoll_def subject_def isspace_def isdigit_def)

subsection \<open>Evaluation of the conversions of the library\<close>

lemmas strtod_eval =
  c_library_def strtod_def float_subject_def mantissa_def exponent_part_def scaled_def
  binary32_def binary64_def
  isspace_def isdigit_def isxdigit_def to_lower_def digits_val_def digit_val_def Let_def

lemma stof_banana: "stof c_library (CHR ''.'') to_nearest ''banana'' = Inl invalid_argument"
  by (simp add: strtod_eval)

lemma stod_banana: "stod c_library (CHR ''.'') to_nearest ''banana'' = Inl invalid_argument"
  by (simp add: strtod_eval)

lemma floor_log2_15_10: "floor_log2 15 10 = 0"
  by (simp add: floor_log2_def bit_length.simps)

lemma float_bits_15_10: "float_bits binary64 to_nearest False 15 10 = Some 0x3FF8000000000000"
  by (simp add: float_bits_def floor_log2_15_10 round_quotient_def binary64_def Let_def)

lemma stod_1_5: "stod c_library (CHR ''.'') to_nearest ''1.5'' = Inr 0x3FF8000000000000"
  by (simp add: strtod_eval float_bits_15_10 [unfolded binary64_def])

lemma floor_log2_1e39: "floor_log2 1000000000000000000000000000000000000000 (Suc 0) = 129"
  by (simp add: floor_log2_def bit_length.simps)

lemma float_bits_1e39:
  "float_bits \<lparr>precision = 24, exp_width = 8\<rparr> to_nearest False
     1000000000000000000000000000000000000000 (Suc 0) = None"
  by (simp add: float_bits_def floor_log2_1e39 round_quotient_def Let_def)

lemma stof_1e39: "stof c_library (CHR ''.'') to_nearest ''1e39'' = Inl out_of_range"
  by (simp add: strtod_eval float_bits_1e39)

lemma round_quotient_1_5:
  "round_quotient to_nearest False 6755399441055744000000 4503599627370496 = 1500000"
  by (simp add: round_quotient_def Let_def)

lemma printf_1_5: "printf_f binary64 (CHR ''.'') to_nearest 4609434218613702656 = ''1.500000''"
proof -
  have "printf_f binary64 (CHR ''.'') to_nearest 4609434218613702656
      = digit_char (Suc 0) # CHR ''.'' # six_digits 500000"
    by (simp add: printf_f_def binary64_def round_quotient_1_5)
  also have "\<dots> = ''1.500000''"
    by (simp add: six_digits_def digit_char_def char_of_eq_iff)
  finally show ?thesis .
qed

lemma double_to_string_1_5:
  "double_to_string c_library (CHR ''.'') to_nearest 0x3FF8000000000000 = ''1.500000''"
  by (simp add: c_library_def printf_1_5)

subsection \<open>The sentinel and the exceptions\<close>

text \<open>
  Claim C1, as stated, has every type return the sentinel for an input that cannot be
  parsed as that type. The string \<open>banana\<close> is no truth value, and its BOOL encoding
  is 1: whatever is neither empty nor one of the five spellings of false is true.
\<close>

theorem encode_BOOL_banana:
  "encode_BOOL ''banana'' = 1 \<and> encode_BOOL ''banana'' \<noteq> kNullValue"
  by (simp add: encode_BOOL_def kNullValue_def)

text \<open>
  Claim C1, amended.
  \<^item> For UINT, INT, FLOAT and DOUBLE, \<open>encode\<close> returns \<open>kNullValue\<close> when the
    conversion of the standard library (\<open>stoull\<close>, \<open>stoll\<close>, \<open>stof\<close>, \<open>stod\<close>)
    throws, whichever exception it throws. For UINT and INT that is the case for
    every string that has no digit behind its white space and optional sign, and for
    a number of \<open>2 ^ 64\<close> or more (UINT), of more than \<open>2 ^ 63\<close> (INT).
  \<^item> For IP_ADDRESS it returns \<open>kNullValue\<close> when \<open>stoull\<close> gives no value below
    256 for the first field of the string, and for a dotted quad when it gives none
    for one of the four fields. That is the case for a first field that has no digit
    behind its white space and optional sign, or whose number is 256 or more
    (\<open>octet\<close>).
  \<^item> For BOOL it returns \<open>kNullValue\<close> for the empty string only, 0 for the five
    spellings of false and 1 for every other string.
  \<^item> For CHARS it never returns \<open>kNullValue\<close>.
  \<^item> In all of these and for the date types the call returns a value to its caller,
    for IP_ADDRESS on the strings that have four fields or more: no exception of a
    conversion leaves \<open>encode\<close>.
\<close>

theorem encode_unparseable:
  "(stoull s = Inl ex \<longrightarrow> encode l e UINT s = Some kNullValue)
   \<and> (stoll s = Inl ex \<longrightarrow> encode l e INT_t s = Some kNullValue)
   \<and> (stof l (decimal_point e) (rounding e) s = Inl ex \<longrightarrow> encode l e FLOAT s = Some kNullValue)
   \<and> (stod l (decimal_point e) (rounding e) s = Inl ex \<longrightarrow> encode l e DOUBLE s = Some kNullValue)
   \<and> ((\<forall>v. stoull (takeWhile (\<lambda>c. c \<noteq> CHR ''.'') s) = Inr v \<longrightarrow> 256 \<le> v) \<longrightarrow>
        encode l e IP_ADDRESS s = Some kNullValue)
   \<and> (CHR ''.'' \<notin> set fa \<union> set fb \<union> set fc \<union> set fd
        \<and> ((\<forall>v. stoull fa = Inr v \<longrightarrow> 256 \<le> v) \<or> (\<forall>v. stoull fb = Inr v \<longrightarrow> 256 \<le> v)
           \<or> (\<forall>v. stoull fc = Inr v \<longrightarrow> 256 \<le> v) \<or> (\<forall>v. stoull fd = Inr v \<longrightarrow> 256 \<le> v)) \<longrightarrow>
        encode l e IP_ADDRESS (dotted_quad fa fb fc fd) = Some kNullValue)
   \<and> (field_shape p \<and> (digits p = [] \<or> 2 ^ 64 \<le> digits_val (digits p)) \<longrightarrow>
        encode l e UINT (field_text p) = Some kNullValue)
   \<and> (field_shape p \<and> (digits p = [] \<or> 2 ^ 63 < digits_val (digits p)) \<longrightarrow>
        encode l e INT_t (field_text p) = Some kNullValue)
   \<and> (field_shape p \<and> CHR ''.'' \<notin> set (field_text p) \<and> octet p = None \<longrightarrow>
        encode l e IP_ADDRESS (field_text p @ ''.'' @ s) = Some kNullValue
        \<and> encode l e IP_ADDRESS (field_text p) = Some kNullValue)
   \<and> (encode l e BOOL s = Some kNullValue \<longleftrightarrow> s = [])
   \<and> (s \<in> {''F'', ''f'', ''FALSE'', ''false'', ''0''} \<longrightarrow> encode l e BOOL s = Some 0)
   \<and> (s \<noteq> [] \<and> s \<notin> {''F'', ''f'', ''FALSE'', ''false'', ''0''} \<longrightarrow> encode l e BOOL s = Some 1)
   \<and> encode l e CHARS s \<noteq> Some kNullValue
   \<and> (dt \<in> {UINT, INT_t, FLOAT, DOUBLE, BOOL, CHARS, DATE, USDATE, DATE_TIME} \<longrightarrow>
        (\<exists>v. encode l e dt s = Some v))
   \<and> (CHR ''.'' \<notin> set fa \<union> set fb \<union> set fc \<longrightarrow>
        (\<exists>v. encode l e IP_ADDRESS (dotted_quad fa fb fc s) = Some v))"
proof -
  have s1: "field_shape p \<and> (digits p = [] \<or> 2 ^ 64 \<le> digits_val (digits p)) \<longrightarrow>
        encode l e UINT (field_text p) = Some kNullValue"
    using encode_UINT_no_number [of p] by (simp add: encode_def)
  have s2: "field_shape p \<and> (digits p = [] \<or> 2 ^ 63 < digits_val (digits p)) \<longrightarrow>
        encode l e INT_t (field_text p) = Some kNullValue"
    using encode_INT_no_number [of p] by (simp add: encode_def)
  have s3: "field_shape p \<and> CHR ''.'' \<notin> set (field_text p) \<and> octet p = None \<longrightarrow>
        encode l e IP_ADDRESS (field_text p @ ''.'' @ s) = Some kNullValue
        \<and> encode l e IP_ADDRESS (field_text p) = Some kNullValue"
    using encode_IP_first_octet(1) [of p s] encode_IP_first_octet(2) [of p]
    by (simp add: encode_def)
  have ip1: "(\<forall>v. stoull (takeWhile (\<lambda>c. c \<noteq> CHR ''.'') s) = Inr v \<longrightarrow> 256 \<le> v) \<longrightarrow>
        encode l e IP_ADDRESS s = Some kNullValue"
    using encode_IP_first_field [of s] by (simp add: encode_def)
  have ip4: "CHR ''.'' \<notin> set fa \<union> set fb \<union> set fc \<union> set fd
        \<and> ((\<forall>v. stoull fa = Inr v \<longrightarrow> 256 \<le> v) \<or> (\<forall>v. stoull fb = Inr v \<longrightarrow> 256 \<le> v)
           \<or> (\<forall>v. stoull fc = Inr v \<longrightarrow> 256 \<le> v) \<or> (\<forall>v. stoull fd = Inr v \<longrightarrow> 256 \<le> v)) \<longrightarrow>
        encode l e IP_ADDRESS (dotted_quad fa fb fc fd) = Some kNullValue"
    using encode_IP_any_field [of fa fb fc fd] by (simp add: encode_def)
  have b0: "encode l e BOOL s = Some kNullValue \<longleftrightarrow> s = []"
    by (simp add: encode_def encode_BOOL_cases(1))
  have b1: "s \<in> {''F'', ''f'', ''FALSE'', ''false'', ''0''} \<longrightarrow> encode l e BOOL s = Some 0"
    using encode_BOOL_cases(2) [of s] by (simp add: encode_def)
  have b2: "s \<noteq> [] \<and> s \<notin> {''F'', ''f'', ''FALSE'', ''false'', ''0''} \<longrightarrow> encode l e BOOL s = Some 1"
    using encode_BOOL_cases(3) [of s] by (simp add: encode_def)
  have chars: "encode l e CHARS s \<noteq> Some kNullValue"
    by (simp add: encode_def encode_CHARS_not_sentinel)
  have tot: "dt \<in> {UINT, INT_t, FLOAT, DOUBLE, BOOL, CHARS, DATE, USDATE, DATE_TIME} \<longrightarrow>
        (\<exists>v. encode l e dt s = Some v)"
    by (auto simp: encode_def)
  have ipt: "CHR ''.'' \<notin> set fa \<union> set fb \<union> set fc \<longrightarrow>
        (\<exists>v. encode l e IP_ADDRESS (dotted_quad fa fb fc s) = Some v)"
    using encode_IP_four_fields [of fa fb fc s] by (simp add: encode_def)
  have c1: "stoull s = Inl ex \<longrightarrow> encode l e UINT s = Some kNullValue"
    and c2: "stoll s = Inl ex \<longrightarrow> encode l e INT_t s = Some kNullValue"
    and c3: "stof l (decimal_point e) (rounding e) s = Inl ex \<longrightarrow>
      encode l e FLOAT s = Some kNullValue"
    and c4: "stod l (decimal_point e) (rounding e) s = Inl ex \<longrightarrow>
      encode l e DOUBLE s = Some kNullValue"
    using encode_exception_sentinel(1) [of s ex l e] encode_exception_sentinel(2) [of s ex l e]
      encode_exception_sentinel(3) [of l e s ex] encode_exception_sentinel(4) [of l e s ex]
    by simp_all
  show ?thesis
    by (intro conjI) (fact c1 c2 c3 c4 ip1 ip4 s1 s2 s3 b0 b1 b2 chars tot ipt)+
qed

text \<open>
  The theorem in the library \<open>c_library\<close> and in UTC: at the string \<open>banana\<close>, at
  \<open>1e39\<close>, which is out of the range of \<^verbatim>\<open>float\<close>, at the dotted quad
  \<open>1.2.banana.4\<close>, at the string \<open>false\<close> and at \<open>1.2.3.4\<close>; at the field made
  of a blank, a minus sign and the letter \<open>x\<close>, and at the field \<open>256\<close>.
\<close>

theorem encode_unparseable_witness:
  "stoull ''banana'' = Inl invalid_argument
   \<and> encode c_library utc UINT ''banana'' = Some kNullValue
   \<and> stoll ''banana'' = Inl invalid_argument
   \<and> encode c_library utc INT_t ''banana'' = Some kNullValue
   \<and> stof c_library (decimal_point utc) (rounding utc) ''1e39'' = Inl out_of_range
   \<and> encode c_library utc FLOAT ''1e39'' = Some kNullValue
   \<and> stod c_library (decimal_point utc) (rounding utc) ''banana'' = Inl invalid_argument
   \<and> encode c_library utc DOUBLE ''banana'' = Some kNullValue
   \<and> encode c_library utc IP_ADDRESS ''banana'' = Some kNullValue
   \<and> CHR ''.'' \<notin> set ''1'' \<union> set ''2'' \<union> set ''banana'' \<union> set ''4''
   \<and> encode c_library utc IP_ADDRESS ''1.2.banana.4'' = Some kNullValue
   \<and> ''false'' \<in> {''F'', ''f'', ''FALSE'', ''false'', ''0''}
   \<and> encode c_library utc BOOL ''false'' = Some 0
   \<and> ''banana'' \<noteq> [] \<and> ''banana'' \<notin> {''F'', ''f'', ''FALSE'', ''false'', ''0''}
   \<and> encode c_library utc BOOL ''banana'' = Some 1
   \<and> DATE \<in> {UINT, INT_t, FLOAT, DOUBLE, BOOL, CHARS, DATE, USDATE, DATE_TIME}
   \<and> encode c_library utc DATE ''banana'' \<noteq> None
   \<and> CHR ''.'' \<notin> set ''1'' \<union> set ''2'' \<union> set ''3''
   \<and> encode c_library utc IP_ADDRESS ''1.2.3.4'' \<noteq> None
   \<and> field_shape \<lparr>blanks = '' '', sign = ''-'', digits = [], rest = ''x''\<rparr>
   \<and> encode c_library utc UINT '' -x'' = Some kNullValue
   \<and> encode c_library utc INT_t '' -x'' = Some kNullValue
   \<and> field_shape \<lparr>blanks = [], sign = [], digits = ''256'', rest = []\<rparr>
   \<and> octet \<lparr>blanks = [], sign = [], digits = ''256'', rest = []\<rparr> = None
   \<and> encode c_library utc IP_ADDRESS ''256.banana'' = Some kNullValue
   \<and> encode c_library utc IP_ADDRESS ''256'' = Some kNullValue"
proof -
  let ?px = "\<lparr>blanks = '' '', sign = ''-'', digits = [], rest = ''x''\<rparr>"
  let ?p256 = "\<lparr>blanks = [], sign = [], digits = ''256'', rest = []\<rparr>"
  have f1: "field_shape ?px" "field_shape ?p256" by (simp_all add: field_eval)
  have f2: "digits ?px = [] \<or> 2 ^ 64 \<le> digits_val (digits ?px)"
    "digits ?px = [] \<or> 2 ^ 63 < digits_val (digits ?px)" by simp_all
  have f3: "octet ?p256 = None" by (simp add: field_eval)
  have f4: "CHR ''.'' \<notin> set (field_text ?p256)" by (simp add: field_eval)
  have f5: "field_text ?px = '' -x''" "field_text ?p256 = ''256''"
    "field_text ?p256 @ ''.'' @ ''banana'' = ''256.banana''"
    by (simp_all add: field_eval)
  let ?F = "{''F'', ''f'', ''FALSE'', ''false'', ''0''}"
  have ev: "decimal_point utc = CHR ''.''" "rounding utc = to_nearest"
    by (simp_all add: utc_def)
  have h1: "stoull ''banana'' = Inl invalid_argument" by (rule stoull_banana)
  have h2: "stoll ''banana'' = Inl invalid_argument" by (rule stoll_banana)
  have h3: "stof c_library (decimal_point utc) (rounding utc) ''1e39'' = Inl out_of_range"
    unfolding ev by (rule stof_1e39)
  have h4: "stod c_library (decimal_point utc) (rounding utc) ''banana'' = Inl invalid_argument"
    unfolding ev by (rule stod_banana)
  have h5: "\<forall>v. stoull (takeWhile (\<lambda>c. c \<noteq> CHR ''.'') ''banana'') = Inr v \<longrightarrow> 256 \<le> v"
    by (simp add: stoull_banana)
  have h6: "CHR ''.'' \<notin> set ''1'' \<union> set ''2'' \<union> set ''banana'' \<union> set ''4''" by simp
  have h7: "(\<forall>v. stoull ''1'' = Inr v \<longrightarrow> 256 \<le> v) \<or> (\<forall>v. stoull ''2'' = Inr v \<longrightarrow> 256 \<le> v)
      \<or> (\<forall>v. stoull ''banana'' = Inr v \<longrightarrow> 256 \<le> v) \<or> (\<forall>v. stoull ''4'' = Inr v \<longrightarrow> 256 \<le> v)"
    by (simp add: stoull_banana)
  have h8: "''false'' \<in> ?F" by simp
  have h9: "''banana'' \<noteq> []" "''banana'' \<notin> ?F" by simp_all
  have h10: "DATE \<in> {UINT, INT_t, FLOAT, DOUBLE, BOOL, CHARS, DATE, USDATE, DATE_TIME}" by simp
  have h11: "CHR ''.'' \<notin> set ''1'' \<union> set ''2'' \<union> set ''3''" by simp
  have q: "dotted_quad ''1'' ''2'' ''banana'' ''4'' = ''1.2.banana.4''"
    "dotted_quad ''1'' ''2'' ''3'' ''4'' = ''1.2.3.4''"
    by (simp_all add: dotted_quad_def)
  note a = encode_unparseable [where s = "''banana''" and ex = invalid_argument
      and l = c_library and e = utc and fa = "''1''" and fb = "''2''" and fc = "''banana''"
      and fd = "''4''" and dt = DATE and p = ?p256]
  note b = encode_unparseable [where s = "''1e39''" and ex = out_of_range
      and l = c_library and e = utc and fa = "''1''" and fb = "''2''" and fc = "''banana''"
      and fd = "''4''" and dt = DATE and p = ?px]
  note c = encode_unparseable [where s = "''false''" and ex = out_of_range
      and l = c_library and e = utc and fa = "''1''" and fb = "''2''" and fc = "''banana''"
      and fd = "''4''" and dt = DATE and p = ?px]
  note d = encode_unparseable [where s = "''4''" and ex = out_of_range
      and l = c_library and e = utc and fa = "''1''" and fb = "''2''" and fc = "''3''"
      and fd = "''4''" and dt = DATE and p = ?px]
  have "field_shape ?px \<and> (digits ?px = [] \<or> 2 ^ 64 \<le> digits_val (digits ?px)) \<longrightarrow>
      encode c_library utc UINT (field_text ?px) = Some kNullValue"
    using b by (elim conjE)
  from this conjI [OF f1(1) f2(1)]
  have "encode c_library utc UINT (field_text ?px) = Some kNullValue" by (rule mp)
  then have r11: "encode c_library utc UINT '' -x'' = Some kNullValue" unfolding f5 .
  have "field_shape ?px \<and> (digits ?px = [] \<or> 2 ^ 63 < digits_val (digits ?px)) \<longrightarrow>
      encode c_library utc INT_t (field_text ?px) = Some kNullValue"
    using b by (elim conjE)
  from this conjI [OF f1(1) f2(2)]
  have "encode c_library utc INT_t (field_text ?px) = Some kNullValue" by (rule mp)
  then have r12: "encode c_library utc INT_t '' -x'' = Some kNullValue" unfolding f5 .
  have "field_shape ?p256 \<and> CHR ''.'' \<notin> set (field_text ?p256) \<and> octet ?p256 = None \<longrightarrow>
      encode c_library utc IP_ADDRESS (field_text ?p256 @ ''.'' @ ''banana'') = Some kNullValue
      \<and> encode c_library utc IP_ADDRESS (field_text ?p256) = Some kNullValue"
    using a by (elim conjE)
  from this conjI [OF f1(2) conjI [OF f4 f3]]
  have "encode c_library utc IP_ADDRESS (field_text ?p256 @ ''.'' @ ''banana'') = Some kNullValue
      \<and> encode c_library utc IP_ADDRESS (field_text ?p256) = Some kNullValue"
    by (rule mp)
  then have r13: "encode c_library utc IP_ADDRESS ''256.banana'' = Some kNullValue"
    "encode c_library utc IP_ADDRESS ''256'' = Some kNullValue"
    by (simp_all add: field_text_def)
  have "stoull ''banana'' = Inl invalid_argument \<longrightarrow>
      encode c_library utc UINT ''banana'' = Some kNullValue"
    using a by (elim conjE)
  from this h1 have r1: "encode c_library utc UINT ''banana'' = Some kNullValue" by (rule mp)
  have "stoll ''banana'' = Inl invalid_argument \<longrightarrow>
      encode c_library utc INT_t ''banana'' = Some kNullValue"
    using a by (elim conjE)
  from this h2 have r2: "encode c_library utc INT_t ''banana'' = Some kNullValue" by (rule mp)
  have "stof c_library (decimal_point utc) (rounding utc) ''1e39'' = Inl out_of_range \<longrightarrow>
      encode c_library utc FLOAT ''1e39'' = Some kNullValue"
    using b by (elim conjE)
  from this h3 have r3: "encode c_library utc FLOAT ''1e39'' = Some kNullValue" by (rule mp)
  have "stod c_library (decimal_point utc) (rounding utc) ''banana'' = Inl invalid_argument \<longrightarrow>
      encode c_library utc DOUBLE ''banana'' = Some kNullValue"
    using a by (elim conjE)
  from this h4 have r4: "encode c_library utc DOUBLE ''banana'' = Some kNullValue" by (rule mp)
  have "(\<forall>v. stoull (takeWhile (\<lambda>c. c \<noteq> CHR ''.'') ''banana'') = Inr v \<longrightarrow> 256 \<le> v) \<longrightarrow>
      encode c_library utc IP_ADDRESS ''banana'' = Some kNullValue"
    using a by (elim conjE)
  from this h5 have r5: "encode c_library utc IP_ADDRESS ''banana'' = Some kNullValue"
    by (rule mp)
  have "CHR ''.'' \<notin> set ''1'' \<union> set ''2'' \<union> set ''banana'' \<union> set ''4''
      \<and> ((\<forall>v. stoull ''1'' = Inr v \<longrightarrow> 256 \<le> v) \<or> (\<forall>v. stoull ''2'' = Inr v \<longrightarrow> 256 \<le> v)
         \<or> (\<forall>v. stoull ''banana'' = Inr v \<longrightarrow> 256 \<le> v)
         \<or> (\<forall>v. stoull ''4'' = Inr v \<longrightarrow> 256 \<le> v)) \<longrightarrow>
      encode c_library utc IP_ADDRESS (dotted_quad ''1'' ''2'' ''banana'' ''4'') = Some kNullValue"
    using a by (elim conjE)
  from this conjI [OF h6 h7]
  have "encode c_library utc IP_ADDRESS (dotted_quad ''1'' ''2'' ''banana'' ''4'') = Some kNullValue"
    by (rule mp)
  then have r6: "encode c_library utc IP_ADDRESS ''1.2.banana.4'' = Some kNullValue"
    unfolding q .
  have "''false'' \<in> ?F \<longrightarrow> encode c_library utc BOOL ''false'' = Some 0"
    using c by (elim conjE)
  from this h8 have r7: "encode c_library utc BOOL ''false'' = Some 0" by (rule mp)
  have "''banana'' \<noteq> [] \<and> ''banana'' \<notin> ?F \<longrightarrow> encode c_library utc BOOL ''banana'' = Some 1"
    using a by (elim conjE)
  from this conjI [OF h9] have r8: "encode c_library utc BOOL ''banana'' = Some 1" by (rule mp)
  have "DATE \<in> {UINT, INT_t, FLOAT, DOUBLE, BOOL, CHARS, DATE, USDATE, DATE_TIME} \<longrightarrow>
      (\<exists>v. encode c_library utc DATE ''banana'' = Some v)"
    using a by (elim conjE)
  from this h10 have "\<exists>v. encode c_library utc DATE ''banana'' = Some v" by (rule mp)
  then have r9: "encode c_library utc DATE ''banana'' \<noteq> None" by auto
  have "CHR ''.'' \<notin> set ''1'' \<union> set ''2'' \<union> set ''3'' \<longrightarrow>
      (\<exists>v. encode c_library utc IP_ADDRESS (dotted_quad ''1'' ''2'' ''3'' ''4'') = Some v)"
    using d by (elim conjE)
  from this h11 have "\<exists>v. encode c_library utc IP_ADDRESS (dotted_quad ''1'' ''2'' ''3'' ''4'') = Some v"
    by (rule mp)
  then have r10: "encode c_library utc IP_ADDRESS ''1.2.3.4'' \<noteq> None" unfolding q by auto
  show ?thesis
    by (intro conjI)
      (fact h1 h2 h3 h4 h6 h8 h9 h10 h11 r1 r2 r3 r4 r5 r6 r7 r8 r9 r10 r11 r12 r13 f1 f3)+
qed

subsection \<open>Dates that do not parse\<close>

lemmas strptime_eval =
  get_number_def conv_spec_def isdigit_def isspace_def digits_val_def digit_val_def Let_def

lemma strptime_DATE_banana: "strptime_c ''banana'' ''%Y-%m-%d'' date_init = date_init"
  by (simp add: strptime_eval)

lemma strptime_USDATE_banana: "strptime_c ''banana'' ''%m/%d/%y'' date_init = date_init"
  by (simp add: strptime_eval)

lemma strptime_DATE_TIME_banana:
  "strptime_c ''banana'' ''%Y-%m-%dT%H:%M:%S'' date_init = date_init"
  by (simp add: strptime_eval)

lemma c_str_banana: "c_str ''banana'' = ''banana''"
  by (simp add: c_str_def NUL_def)

lemma timegm_date_init: "timegm date_init = - 2209075200"
  by (simp add: timegm_def date_init_def days_from_civil_def)

lemma utc_offset_utc: "utc_offset utc l = 0"
  by (simp add: utc_def)

lemma mktime_utc: "mktime utc t = timegm t"
  by (simp add: mktime_def utc_def)

lemma mktime_cet: "mktime cet t = timegm t - 3600"
  by (simp add: mktime_def cet_def)

lemma encode_time_untouched:
  assumes "sp (c_str s) fmt date_init = date_init"
  shows "encode_time fmt sp e s = word_of_int (- 2209075200 - utc_offset e (- 2209075200))"
  using assms by (simp add: encode_time_def mktime_def timegm_date_init)

lemma strptime_DATE_2020:
  "strptime_c ''2020-01-01'' ''%Y-%m-%d'' date_init = date_init\<lparr>tm_mday := 1, tm_year := 120\<rparr>"
  by (simp add: strptime_eval date_init_def)

lemma timegm_2020: "timegm (date_init\<lparr>tm_mday := 1, tm_year := 120\<rparr>) = 1577836800"
  by (simp add: timegm_def date_init_def days_from_civil_def)

lemma c_str_2020: "c_str ''2020-01-01'' = ''2020-01-01''"
  by (simp add: c_str_def NUL_def)

lemma mktime_zone: "utc_offset e1 = utc_offset e2 \<Longrightarrow> mktime e1 t = mktime e2 t"
  by (simp add: mktime_def)

text \<open>
  The date types have a handler that returns \<open>kNullValue\<close>, but nothing can enter
  it. The string \<open>banana\<close> is no date in any of the three formats: \<open>strptime\<close>
  fails on its first character and leaves the \<^verbatim>\<open>struct tm\<close> as it was initialised,
  which \<open>mktime\<close> reads as the last day of 1899. In UTC the three encodings are that
  time, \<open>- 2209075200\<close>, and not \<open>kNullValue\<close>.
\<close>

lemma encode_DATE_unparseable:
  "encode_DATE strptime_c utc ''banana'' = word_of_int (- 2209075200)
   \<and> encode_DATE strptime_c utc ''banana'' \<noteq> kNullValue
   \<and> encode_USDATE strptime_c utc ''banana'' \<noteq> kNullValue
   \<and> encode_DATE_TIME strptime_c utc ''banana'' \<noteq> kNullValue"
proof -
  have "encode_DATE strptime_c utc ''banana'' = word_of_int (- 2209075200)"
    "encode_USDATE strptime_c utc ''banana'' = word_of_int (- 2209075200)"
    "encode_DATE_TIME strptime_c utc ''banana'' = word_of_int (- 2209075200)"
    unfolding encode_DATE_def encode_USDATE_def encode_DATE_TIME_def
    using encode_time_untouched [of strptime_c "''banana''" _ utc]
    by (simp_all only: c_str_banana strptime_DATE_banana strptime_USDATE_banana
        strptime_DATE_TIME_banana utc_offset_utc diff_0_right)
  moreover have "(word_of_int (- 2209075200) :: u64) \<noteq> kNullValue"
    by (simp add: kNullValue_def)
  ultimately show ?thesis by simp
qed

subsection \<open>The environment\<close>

lemma encode_DATE_2020_utc:
  "encode_DATE strptime_c utc ''2020-01-01'' = word_of_int 1577836800"
  by (simp only: encode_DATE_def encode_time_def c_str_2020 strptime_DATE_2020 mktime_utc
      timegm_2020)

text \<open>
  Claim C5, as stated, has \<open>encode\<close> return equal results for equal arguments in
  every ambient environment. The DATE encoding of \<open>2020-01-01\<close> differs by an hour
  between a process in UTC and a process one hour east of it.
\<close>

theorem encode_DATE_time_zone:
  "encode_DATE strptime_c utc ''2020-01-01'' = 1577836800
   \<and> encode_DATE strptime_c cet ''2020-01-01'' = 1577833200
   \<and> encode_DATE strptime_c utc ''2020-01-01'' \<noteq> encode_DATE strptime_c cet ''2020-01-01''"
proof -
  have "encode_DATE strptime_c utc ''2020-01-01'' = word_of_int 1577836800"
    by (rule encode_DATE_2020_utc)
  moreover have "encode_DATE strptime_c cet ''2020-01-01'' = word_of_int (1577836800 - 3600)"
    by (simp only: encode_DATE_def encode_time_def c_str_2020 strptime_DATE_2020 mktime_cet timegm_2020)
  ultimately show ?thesis by simp
qed

lemma take_7_slack:
  assumes "6 \<le> length s"
  shows "take 7 (s @ NUL # xs) = take 7 (s @ NUL # ys)"
proof -
  have "7 - length s = 0 \<or> 7 - length s = 1" using assms by arith
  then have "take (7 - length s) (NUL # xs) = take (7 - length s) (NUL # ys)" by auto
  then show ?thesis by simp
qed

lemma encode_CHARS_long:
  assumes "6 \<le> length s"
  shows "encode_CHARS e1 s = encode_CHARS e2 s"
  by (simp only: encode_CHARS_def
      take_7_slack [OF assms, of "map (slack e1) [0..<6]" "map (slack e2) [0..<6]"])

text \<open>
  Claim C5, amended. Two calls with equal arguments, in any two environments \<open>e1\<close>
  and \<open>e2\<close> (time zone, locale, rounding direction, uninitialised memory, bytes
  behind the string) and with any two libraries \<open>l1\<close> and \<open>l2\<close>, return equal
  values:
  \<^item> \<open>encode\<close> for UINT, INT and BOOL on every string, for CHARS on the strings of
    six characters or more, for IP_ADDRESS on the strings of four fields or more;
  \<^item> \<open>decode\<close> for UINT, INT and BOOL on every value, for CHARS on the values that
    have a zero byte.

  With the same library in both calls, they return equal values:
  \<^item> \<open>encode\<close> for DOUBLE when the environments have the same radix character and
    rounding direction, which \<open>stod\<close> reads;
  \<^item> \<open>encode\<close> for DATE, USDATE and DATE_TIME when the environments have the same
    time zone, which \<open>mktime\<close> reads;
  \<^item> \<open>decode\<close> for FLOAT and DOUBLE when the environments have the same radix
    character and rounding direction, which \<open>to_string\<close> reads.
\<close>

theorem encode_environment:
  "encode l1 e1 UINT s = encode l2 e2 UINT s \<and> encode l1 e1 UINT s \<noteq> None
   \<and> encode l1 e1 INT_t s = encode l2 e2 INT_t s \<and> encode l1 e1 INT_t s \<noteq> None
   \<and> encode l1 e1 BOOL s = encode l2 e2 BOOL s \<and> encode l1 e1 BOOL s \<noteq> None
   \<and> (6 \<le> length s \<longrightarrow>
        encode l1 e1 CHARS s = encode l2 e2 CHARS s \<and> encode l1 e1 CHARS s \<noteq> None)
   \<and> (CHR ''.'' \<notin> set fa \<union> set fb \<union> set fc \<longrightarrow>
        encode l1 e1 IP_ADDRESS (dotted_quad fa fb fc s)
          = encode l2 e2 IP_ADDRESS (dotted_quad fa fb fc s)
        \<and> encode l1 e1 IP_ADDRESS (dotted_quad fa fb fc s) \<noteq> None)
   \<and> (decimal_point e1 = decimal_point e2 \<and> rounding e1 = rounding e2 \<longrightarrow>
        encode l e1 DOUBLE s = encode l e2 DOUBLE s \<and> encode l e1 DOUBLE s \<noteq> None)
   \<and> (dt \<in> {DATE, USDATE, DATE_TIME} \<and> utc_offset e1 = utc_offset e2 \<longrightarrow>
        encode l e1 dt s = encode l e2 dt s \<and> encode l e1 dt s \<noteq> None)
   \<and> decode l1 e1 UINT v = decode l2 e2 UINT v \<and> decode l1 e1 UINT v \<noteq> None
   \<and> decode l1 e1 INT_t v = decode l2 e2 INT_t v \<and> decode l1 e1 INT_t v \<noteq> None
   \<and> decode l1 e1 BOOL v = decode l2 e2 BOOL v \<and> decode l1 e1 BOOL v \<noteq> None
   \<and> (NUL \<in> set (bytes_of_u64 v) \<longrightarrow>
        decode l1 e1 CHARS v = decode l2 e2 CHARS v \<and> decode l1 e1 CHARS v \<noteq> None)
   \<and> (dt \<in> {FLOAT, DOUBLE} \<and> decimal_point e1 = decimal_point e2 \<and> rounding e1 = rounding e2 \<longrightarrow>
        decode l e1 dt v = decode l e2 dt v \<and> decode l e1 dt v \<noteq> None)"
proof -
  have enc: "encode l1 e1 UINT s = encode l2 e2 UINT s" "encode l1 e1 UINT s \<noteq> None"
    "encode l1 e1 INT_t s = encode l2 e2 INT_t s" "encode l1 e1 INT_t s \<noteq> None"
    "encode l1 e1 BOOL s = encode l2 e2 BOOL s" "encode l1 e1 BOOL s \<noteq> None"
    by (simp_all add: encode_def)
  have chars: "6 \<le> length s \<longrightarrow>
        encode l1 e1 CHARS s = encode l2 e2 CHARS s \<and> encode l1 e1 CHARS s \<noteq> None"
    using encode_CHARS_long [of s e1 e2] by (simp add: encode_def)
  have ip: "CHR ''.'' \<notin> set fa \<union> set fb \<union> set fc \<longrightarrow>
        encode l1 e1 IP_ADDRESS (dotted_quad fa fb fc s)
          = encode l2 e2 IP_ADDRESS (dotted_quad fa fb fc s)
        \<and> encode l1 e1 IP_ADDRESS (dotted_quad fa fb fc s) \<noteq> None"
    using encode_IP_four_fields [of fa fb fc s] by (auto simp: encode_def)
  have dbl: "decimal_point e1 = decimal_point e2 \<and> rounding e1 = rounding e2 \<longrightarrow>
        encode l e1 DOUBLE s = encode l e2 DOUBLE s \<and> encode l e1 DOUBLE s \<noteq> None"
    by (simp add: encode_def encode_DOUBLE_def)
  have date: "dt \<in> {DATE, USDATE, DATE_TIME} \<and> utc_offset e1 = utc_offset e2 \<longrightarrow>
        encode l e1 dt s = encode l e2 dt s \<and> encode l e1 dt s \<noteq> None"
  proof
    assume a: "dt \<in> {DATE, USDATE, DATE_TIME} \<and> utc_offset e1 = utc_offset e2"
    then have "\<And>fmt. encode_time fmt (strptime l) e1 s = encode_time fmt (strptime l) e2 s"
      by (simp add: encode_time_def mktime_zone [of e1 e2])
    with a show "encode l e1 dt s = encode l e2 dt s \<and> encode l e1 dt s \<noteq> None"
      by (auto simp: encode_def encode_DATE_def encode_USDATE_def encode_DATE_TIME_def)
  qed
  have dec: "decode l1 e1 UINT v = decode l2 e2 UINT v" "decode l1 e1 UINT v \<noteq> None"
    "decode l1 e1 INT_t v = decode l2 e2 INT_t v" "decode l1 e1 INT_t v \<noteq> None"
    "decode l1 e1 BOOL v = decode l2 e2 BOOL v" "decode l1 e1 BOOL v \<noteq> None"
    by (simp_all add: decode_def)
  have dchars: "NUL \<in> set (bytes_of_u64 v) \<longrightarrow>
        decode l1 e1 CHARS v = decode l2 e2 CHARS v \<and> decode l1 e1 CHARS v \<noteq> None"
    by (simp add: decode_def decode_CHARS_def Let_def)
  have dfl: "dt \<in> {FLOAT, DOUBLE} \<and> decimal_point e1 = decimal_point e2
        \<and> rounding e1 = rounding e2 \<longrightarrow>
        decode l e1 dt v = decode l e2 dt v \<and> decode l e1 dt v \<noteq> None"
    by (auto simp: decode_def decode_FLOAT_def decode_DOUBLE_def)
  show ?thesis
    by (intro conjI) (fact enc chars ip dbl date dec dchars dfl)+
qed

text \<open>
  The theorem in the library \<open>c_library\<close>: at \<open>shadow\<close> between two environments
  with different bytes behind the string; at \<open>1.2.3.4\<close> and at \<open>1.5\<close> between the
  two time zones; at \<open>2020-01-01\<close> between two environments in UTC with different
  uninitialised memory; at the bytes of \<open>shad\<close> and at the bits of \<open>1.5\<close> between the
  two time zones.
\<close>

theorem encode_environment_witness:
  "6 \<le> length ''shadow''
   \<and> encode c_library utc CHARS ''shadow''
      = encode c_library (utc\<lparr>slack := (\<lambda>i. CHR ''x'')\<rparr>) CHARS ''shadow''
   \<and> CHR ''.'' \<notin> set ''1'' \<union> set ''2'' \<union> set ''3''
   \<and> encode c_library utc IP_ADDRESS ''1.2.3.4'' = encode c_library cet IP_ADDRESS ''1.2.3.4''
   \<and> encode c_library utc IP_ADDRESS ''1.2.3.4'' \<noteq> None
   \<and> decimal_point utc = decimal_point cet \<and> rounding utc = rounding cet
   \<and> encode c_library utc DOUBLE ''1.5'' = Some 0x3FF8000000000000
   \<and> encode c_library cet DOUBLE ''1.5'' = Some 0x3FF8000000000000
   \<and> DATE \<in> {DATE, USDATE, DATE_TIME} \<and> utc_offset utc = utc_offset (utc\<lparr>uninit := 1\<rparr>)
   \<and> encode c_library utc DATE ''2020-01-01'' = Some 1577836800
   \<and> encode c_library (utc\<lparr>uninit := 1\<rparr>) DATE ''2020-01-01'' = Some 1577836800
   \<and> NUL \<in> set (bytes_of_u64 0x64616873)
   \<and> decode c_library utc CHARS 0x64616873 = decode c_library cet CHARS 0x64616873
   \<and> decode c_library utc CHARS 0x64616873 \<noteq> None
   \<and> DOUBLE \<in> {FLOAT, DOUBLE}
   \<and> decode c_library utc DOUBLE 0x3FF8000000000000 = Some ''1.500000''
   \<and> decode c_library cet DOUBLE 0x3FF8000000000000 = Some ''1.500000''"
proof -
  let ?e = "utc\<lparr>slack := (\<lambda>i. CHR ''x'')\<rparr>"
  let ?u = "utc\<lparr>uninit := 1\<rparr>"
  have env: "decimal_point utc = decimal_point cet" "rounding utc = rounding cet"
    "utc_offset utc = utc_offset ?u"
    by (simp_all add: utc_def cet_def)
  have ev: "decimal_point utc = CHR ''.''" "rounding utc = to_nearest"
    by (simp_all add: utc_def)
  have len: "6 \<le> length ''shadow''" by simp
  have dots: "CHR ''.'' \<notin> set ''1'' \<union> set ''2'' \<union> set ''3''" by simp
  have q: "dotted_quad ''1'' ''2'' ''3'' ''4'' = ''1.2.3.4''" by (simp add: dotted_quad_def)
  have nul: "NUL \<in> set (bytes_of_u64 0x64616873)"
  proof -
    have "bytes_of_u64 0x64616873 ! 7 = NUL"
      unfolding bytes_of_u64_top by (simp add: NUL_def char_of_eq_iff)
    moreover have "7 < length (bytes_of_u64 0x64616873)" by (simp add: bytes_of_u64_def)
    ultimately show ?thesis by (metis nth_mem)
  qed
  have d0: "encode c_library utc DOUBLE ''1.5'' = Some 0x3FF8000000000000"
    by (simp add: encode_def encode_DOUBLE_def ev stod_1_5)
  have t0: "encode c_library utc DATE ''2020-01-01'' = Some 1577836800"
    by (simp add: encode_def c_library_def encode_DATE_2020_utc)
  have p0: "decode c_library utc DOUBLE 0x3FF8000000000000 = Some ''1.500000''"
    by (simp add: decode_def decode_DOUBLE_def ev double_to_string_1_5 kNullValue_def)
  have "6 \<le> length ''shadow'' \<longrightarrow>
      encode c_library utc CHARS ''shadow'' = encode c_library ?e CHARS ''shadow''
      \<and> encode c_library utc CHARS ''shadow'' \<noteq> None"
    using encode_environment [where l = c_library and ?l1.0 = c_library
        and ?l2.0 = c_library and ?e1.0 = utc and ?e2.0 = ?e
        and s = "''shadow''" and fa = "''1''" and fb = "''2''" and fc = "''3''" and dt = DATE
        and v = 0]
    by (elim conjE)
  from this len
  have "encode c_library utc CHARS ''shadow'' = encode c_library ?e CHARS ''shadow''
      \<and> encode c_library utc CHARS ''shadow'' \<noteq> None"
    by (rule mp)
  then have c: "encode c_library utc CHARS ''shadow'' = encode c_library ?e CHARS ''shadow''" ..
  have "CHR ''.'' \<notin> set ''1'' \<union> set ''2'' \<union> set ''3'' \<longrightarrow>
      encode c_library utc IP_ADDRESS (dotted_quad ''1'' ''2'' ''3'' ''4'')
        = encode c_library cet IP_ADDRESS (dotted_quad ''1'' ''2'' ''3'' ''4'')
      \<and> encode c_library utc IP_ADDRESS (dotted_quad ''1'' ''2'' ''3'' ''4'') \<noteq> None"
    using encode_environment [where l = c_library and ?l1.0 = c_library
        and ?l2.0 = c_library and ?e1.0 = utc and ?e2.0 = cet
        and s = "''4''" and fa = "''1''" and fb = "''2''" and fc = "''3''" and dt = DATE
        and v = 0]
    by (elim conjE)
  from this dots
  have "encode c_library utc IP_ADDRESS (dotted_quad ''1'' ''2'' ''3'' ''4'')
        = encode c_library cet IP_ADDRESS (dotted_quad ''1'' ''2'' ''3'' ''4'')
      \<and> encode c_library utc IP_ADDRESS (dotted_quad ''1'' ''2'' ''3'' ''4'') \<noteq> None"
    by (rule mp)
  then have i: "encode c_library utc IP_ADDRESS ''1.2.3.4'' = encode c_library cet IP_ADDRESS ''1.2.3.4''"
    "encode c_library utc IP_ADDRESS ''1.2.3.4'' \<noteq> None"
    unfolding q by (rule conjunct1, rule conjunct2)
  have "decimal_point utc = decimal_point cet \<and> rounding utc = rounding cet \<longrightarrow>
      encode c_library utc DOUBLE ''1.5'' = encode c_library cet DOUBLE ''1.5''
      \<and> encode c_library utc DOUBLE ''1.5'' \<noteq> None"
    using encode_environment [where l = c_library and ?l1.0 = c_library
        and ?l2.0 = c_library and ?e1.0 = utc and ?e2.0 = cet
        and s = "''1.5''" and fa = "''1''" and fb = "''2''" and fc = "''3''" and dt = DATE
        and v = 0]
    by (elim conjE)
  from this conjI [OF env(1,2)]
  have "encode c_library utc DOUBLE ''1.5'' = encode c_library cet DOUBLE ''1.5''
      \<and> encode c_library utc DOUBLE ''1.5'' \<noteq> None"
    by (rule mp)
  then have "encode c_library utc DOUBLE ''1.5'' = encode c_library cet DOUBLE ''1.5''" ..
  with d0 have d1: "encode c_library cet DOUBLE ''1.5'' = Some 0x3FF8000000000000"
    by simp
  have m1: "DATE \<in> {DATE, USDATE, DATE_TIME}" and m2: "DOUBLE \<in> {FLOAT, DOUBLE}" by simp_all
  have "DATE \<in> {DATE, USDATE, DATE_TIME} \<and> utc_offset utc = utc_offset ?u \<longrightarrow>
      encode c_library utc DATE ''2020-01-01'' = encode c_library ?u DATE ''2020-01-01''
      \<and> encode c_library utc DATE ''2020-01-01'' \<noteq> None"
    using encode_environment [where l = c_library and ?l1.0 = c_library
        and ?l2.0 = c_library and ?e1.0 = utc and ?e2.0 = ?u
        and s = "''2020-01-01''" and fa = "''1''" and fb = "''2''" and fc = "''3''" and dt = DATE
        and v = 0]
    by (elim conjE)
  from this conjI [OF m1 env(3)]
  have "encode c_library utc DATE ''2020-01-01'' = encode c_library ?u DATE ''2020-01-01''
      \<and> encode c_library utc DATE ''2020-01-01'' \<noteq> None"
    by (rule mp)
  then have "encode c_library utc DATE ''2020-01-01'' = encode c_library ?u DATE ''2020-01-01''" ..
  with t0 have t1: "encode c_library ?u DATE ''2020-01-01'' = Some 1577836800"
    by simp
  have "NUL \<in> set (bytes_of_u64 0x64616873) \<longrightarrow>
      decode c_library utc CHARS 0x64616873 = decode c_library cet CHARS 0x64616873
      \<and> decode c_library utc CHARS 0x64616873 \<noteq> None"
    using encode_environment [where l = c_library and ?l1.0 = c_library
        and ?l2.0 = c_library and ?e1.0 = utc and ?e2.0 = cet
        and s = "''4''" and fa = "''1''" and fb = "''2''" and fc = "''3''" and dt = DATE
        and v = "0x64616873"]
    by (elim conjE)
  from this nul
  have "decode c_library utc CHARS 0x64616873 = decode c_library cet CHARS 0x64616873
      \<and> decode c_library utc CHARS 0x64616873 \<noteq> None"
    by (rule mp)
  then have k: "decode c_library utc CHARS 0x64616873 = decode c_library cet CHARS 0x64616873"
    "decode c_library utc CHARS 0x64616873 \<noteq> None"
    by (rule conjunct1, rule conjunct2)
  have "DOUBLE \<in> {FLOAT, DOUBLE} \<and> decimal_point utc = decimal_point cet
        \<and> rounding utc = rounding cet \<longrightarrow>
      decode c_library utc DOUBLE 0x3FF8000000000000
        = decode c_library cet DOUBLE 0x3FF8000000000000
      \<and> decode c_library utc DOUBLE 0x3FF8000000000000 \<noteq> None"
    using encode_environment [where l = c_library and ?l1.0 = c_library
        and ?l2.0 = c_library and ?e1.0 = utc and ?e2.0 = cet
        and s = "''4''" and fa = "''1''" and fb = "''2''" and fc = "''3''" and dt = DOUBLE
        and v = "0x3FF8000000000000"]
    by (elim conjE)
  from this conjI [OF m2 conjI [OF env(1,2)]]
  have "decode c_library utc DOUBLE 0x3FF8000000000000
        = decode c_library cet DOUBLE 0x3FF8000000000000
      \<and> decode c_library utc DOUBLE 0x3FF8000000000000 \<noteq> None"
    by (rule mp)
  then have "decode c_library utc DOUBLE 0x3FF8000000000000
        = decode c_library cet DOUBLE 0x3FF8000000000000" ..
  with p0 have p1: "decode c_library cet DOUBLE 0x3FF8000000000000 = Some ''1.500000''"
    by simp
  show ?thesis
    by (intro conjI) (fact len c dots i env d0 d1 m1 m2 t0 t1 nul k p0 p1)+
qed

section \<open>Properties of the distributed hash map\<close>

subsection \<open>What an operation changes\<close>

lemma dispatch_fields [simp]:
  "registries (dispatch h t s) = registries s"
  "next_oid (dispatch h t s) = next_oid s"
  "inflight (dispatch h t s) = inflight s @ [(h, t)]"
  "buffers (dispatch h t s) = buffers s"
  "visited (dispatch h t s) = visited s"
  "handles (dispatch h t s) h' =
     (if h' = h then (handles s h)\<lparr>issued := Suc (issued (handles s h))\<rparr> else handles s h')"
  by (simp_all add: dispatch_def)

lemma complete_fields [simp]:
  "registries (complete h s) = registries s"
  "next_oid (complete h s) = next_oid s"
  "inflight (complete h s) = inflight s"
  "buffers (complete h s) = buffers s"
  "visited (complete h s) = visited s"
  "handles (complete h s) h' =
     (if h' = h then (handles s h)\<lparr>completed := Suc (completed (handles s h))\<rparr> else handles s h')"
  by (simp_all add: complete_def)

lemma enqueue_fields [simp]:
  "registries (enqueue b kv s) = registries s"
  "next_oid (enqueue b kv s) = next_oid s"
  "inflight (enqueue b kv s) = inflight s"
  "handles (enqueue b kv s) = handles s"
  "visited (enqueue b kv s) = visited s"
  "buffers (enqueue b kv s) b' = (if b' = b then buffers s b @ [kv] else buffers s b')"
  by (simp_all add: enqueue_def)

lemma remove_task_fields [simp]:
  "registries (remove_task i s) = registries s"
  "next_oid (remove_task i s) = next_oid s"
  "inflight (remove_task i s) = take i (inflight s) @ drop (Suc i) (inflight s)"
  "handles (remove_task i s) = handles s"
  "visited (remove_task i s) = visited s"
  "buffers (remove_task i s) = buffers s"
  by (simp_all add: remove_task_def)

lemma n_loc_simps [simp]:
  "n_loc (enqueue b kv s) = n_loc s"
  "n_loc (remove_task i s) = n_loc s"
  "n_loc (dispatch h t s) = n_loc s"
  "n_loc (complete h s) = n_loc s"
  "n_loc (s\<lparr>inflight := fl\<rparr>) = n_loc s"
  "n_loc (s\<lparr>buffers := bf\<rparr>) = n_loc s"
  "n_loc (s\<lparr>visited := vs\<rparr>) = n_loc s"
  "n_loc (s\<lparr>handles := hs\<rparr>) = n_loc s"
  "n_loc (s\<lparr>registries := map f (registries s)\<rparr>) = n_loc s"
  "n_loc (s\<lparr>registries := (registries s)[i := r]\<rparr>) = n_loc s"
  by (simp_all add: n_loc_def enqueue_def remove_task_def)

lemma flush1_fields [simp]:
  "registries (flush1 obj st s) = registries s"
  "next_oid (flush1 obj st s) = next_oid s"
  "visited (flush1 obj st s) = visited s"
  "n_loc (flush1 obj st s) = n_loc s"
  by (simp_all add: flush1_def Let_def)

lemma flush1_inflight:
  "inflight (flush1 obj st s) =
     (if buffers s (obj, st) = [] then inflight s
      else inflight s @ [(BufferHandle obj, BatchTask obj (snd st) (buffers s (obj, st)))])"
  by (simp add: flush1_def Let_def)

lemma flush1_buffers:
  "buffers (flush1 obj st s) = (buffers s)((obj, st) := [])"
  by (auto simp: flush1_def Let_def)

lemma flush1_handles:
  "handles (flush1 obj st s) h =
     (if h = BufferHandle obj \<and> buffers s (obj, st) \<noteq> []
      then (handles s h)\<lparr>issued := Suc (issued (handles s h))\<rparr> else handles s h)"
  by (simp add: flush1_def Let_def)

lemma local_apply_fields:
  assumes "local_apply loc obj f s = Inr s'"
  shows "next_oid s' = next_oid s" "inflight s' = inflight s" "buffers s' = buffers s"
    "visited s' = visited s" "handles s' = handles s" "n_loc s' = n_loc s"
    "loc < n_loc s"
    "\<exists>sh. (registries s ! loc) obj = Some sh
       \<and> registries s' = (registries s)[loc := (registries s ! loc)(obj \<mapsto> f sh)]"
  using assms
  by (auto simp: local_apply_def resolve_def n_loc_def split: sum.splits if_splits option.splits)

lemma local_apply_Inl:
  "local_apply loc obj f s = Inl e \<Longrightarrow> resolve s loc obj = Inl e"
  by (auto simp: local_apply_def split: sum.splits)

lemma run_task_fields [simp]:
  "next_oid (run_task cfg t s) = next_oid s"
  "inflight (run_task cfg t s) = inflight s"
  "buffers (run_task cfg t s) = buffers s"
  "handles (run_task cfg t s) = handles s"
  "n_loc (run_task cfg t s) = n_loc s"
  by (auto simp: run_task_def local_apply_fields split: task.splits sum.splits)

lemma fold_dispatch_fields [simp]:
  "registries (fold (\<lambda>x. dispatch h (g x)) xs s) = registries s"
  "next_oid (fold (\<lambda>x. dispatch h (g x)) xs s) = next_oid s"
  "buffers (fold (\<lambda>x. dispatch h (g x)) xs s) = buffers s"
  "visited (fold (\<lambda>x. dispatch h (g x)) xs s) = visited s"
  "n_loc (fold (\<lambda>x. dispatch h (g x)) xs s) = n_loc s"
  "inflight (fold (\<lambda>x. dispatch h (g x)) xs s) = inflight s @ map (\<lambda>x. (h, g x)) xs"
  by (induction xs arbitrary: s) simp_all

lemma fold_flush1_fields [simp]:
  "registries (fold (flush1 obj) sts s) = registries s"
  "next_oid (fold (flush1 obj) sts s) = next_oid s"
  "visited (fold (flush1 obj) sts s) = visited s"
  "n_loc (fold (flush1 obj) sts s) = n_loc s"
  by (induction sts arbitrary: s) simp_all

lemma flush_all_fields [simp]:
  "registries (flush_all obj s) = registries s"
  "next_oid (flush_all obj s) = next_oid s"
  "visited (flush_all obj s) = visited s"
  "n_loc (flush_all obj s) = n_loc s"
  by (simp_all add: flush_all_def)

lemma Create_fields [simp]:
  "registries (snd (Create hint s)) =
     map (\<lambda>r. r(next_oid s \<mapsto> \<lparr>capacity = hint, entries = []\<rparr>)) (registries s)"
  "next_oid (snd (Create hint s)) = Suc (next_oid s)"
  "inflight (snd (Create hint s)) = inflight s"
  "handles (snd (Create hint s)) = handles s"
  "buffers (snd (Create hint s)) = buffers s"
  "visited (snd (Create hint s)) = visited s"
  "n_loc (snd (Create hint s)) = n_loc s"
  "fst (Create hint s) = next_oid s"
  by (simp_all add: Create_def n_loc_def)

text \<open>
  The steps of a history, one case for each call that has a next state.
\<close>

lemma perform_cases [consumes 1, case_names Create Destroy Insert AsyncInsert Enqueue
    EnqueueFlush Flush ForEach Wait Exec]:
  assumes "perform cfg c s = Some s'"
  obtains
    hint where "c = Create_call hint" "s' = snd (Create hint s)"
  | obj where "c = Destroy_call obj" "live s obj"
      "s' = s\<lparr>registries := map (\<lambda>r. r(obj := None)) (registries s)\<rparr>"
  | src obj k v where "c = Insert_call src obj k v" "src < n_loc s"
      "local_apply (partition cfg (n_loc s) k) obj (shard_insert k v) s = Inr s'"
  | src u obj k v where "c = AsyncInsert_call src u obj k v" "src < n_loc s" "live s obj"
      "s' = dispatch (UserHandle u) (InsertTask obj k v) s"
  | src obj k v where "c = BufferedAsyncInsert_call src obj k v" "src < n_loc s" "live s obj"
      "s' = enqueue (obj, src, partition cfg (n_loc s) k) (k, v) s"
  | src obj k v where "c = BufferedAsyncInsert_call src obj k v" "src < n_loc s" "live s obj"
      "s' = flush1 obj (src, partition cfg (n_loc s) k)
              (enqueue (obj, src, partition cfg (n_loc s) k) (k, v) s)"
  | obj where "c = Flush_call obj" "live s obj" "s' = flush_all obj s"
  | u obj where "c = AsyncForEachKey_call u obj" "live s obj"
      "s' = fold (\<lambda>loc. dispatch (UserHandle u) (KeysTask obj loc)) [0..<n_loc s] s"
  | h where "c = Wait_call h" "drained h s" "s' = s"
  | i where "c = Exec i" "i < length (inflight s)"
      "s' = complete (fst (inflight s ! i)) (run_task cfg (snd (inflight s ! i)) (remove_task i s))"
proof (cases c)
  case (Create_call hint)
  with assms that(1) show ?thesis by (simp add: perform_def)
next
  case (Destroy_call obj)
  with assms that(2) show ?thesis
    by (auto simp: perform_def returned_def Destroy_def split: if_splits)
next
  case (Insert_call src obj k v)
  with assms that(3) [of src obj k v] show ?thesis
    by (auto simp: perform_def returned_def Insert_def split: if_splits sum.splits)
next
  case (AsyncInsert_call src u obj k v)
  with assms that(4) show ?thesis
    by (auto simp: perform_def returned_def AsyncInsert_def split: if_splits)
next
  case (BufferedAsyncInsert_call src obj k v)
  with assms that(5) [of src obj k v] that(6) [of src obj k v] show ?thesis
    by (auto simp: perform_def returned_def BufferedAsyncInsert_def Let_def split: if_splits)
next
  case (Flush_call obj)
  with assms that(7) show ?thesis by (auto simp: perform_def split: if_splits)
next
  case (AsyncForEachKey_call u obj)
  with assms that(8) show ?thesis
    by (auto simp: perform_def returned_def AsyncForEachKey_def split: if_splits)
next
  case (Wait_call h)
  with assms that(9) show ?thesis
    by (auto simp: perform_def waitForCompletion_def split: if_splits)
next
  case (Exec i)
  with assms that(10) show ?thesis
    by (auto simp: perform_def exec_def split: if_splits)
qed

lemma run_append:
  "run cfg (cs @ ds) s = (case run cfg cs s of None \<Rightarrow> None | Some s' \<Rightarrow> run cfg ds s')"
  by (induction cs arbitrary: s) (auto split: option.splits)

lemma run_invariant:
  assumes "run cfg cs s = Some s'" and "P s"
    and "\<And>c s s'. c \<in> set cs \<Longrightarrow> P s \<Longrightarrow> perform cfg c s = Some s' \<Longrightarrow> P s'"
  shows "P s'"
  using assms
proof (induction cs arbitrary: s)
  case Nil
  then show ?case by simp
next
  case (Cons c cs)
  from Cons.prems(1) obtain s1 where p: "perform cfg c s = Some s1" and r: "run cfg cs s1 = Some s'"
    by (auto split: option.splits)
  have "P s1" using Cons.prems(3) [of c s s1] Cons.prems(2) p by simp
  moreover have "P t'" if "d \<in> set cs" "P t" "perform cfg d t = Some t'" for d t t'
    using Cons.prems(3) [of d t t'] that by simp
  ultimately show ?case by (rule Cons.IH [OF r])
qed

subsection \<open>The invariant of the histories\<close>

lemma filter_remove_nth:
  assumes "i < length xs"
  shows "length (filter P (take i xs @ drop (Suc i) xs)) + (if P (xs ! i) then 1 else 0)
       = length (filter P xs)"
proof -
  have "xs = take i xs @ xs ! i # drop (Suc i) xs"
    using assms by (rule id_take_nth_drop)
  then have "length (filter P xs) = length (filter P (take i xs @ xs ! i # drop (Suc i) xs))"
    by simp
  then show ?thesis by simp
qed

lemma accounted_dispatch: "accounted s \<Longrightarrow> accounted (dispatch h t s)"
  by (simp add: accounted_def inflight_count_def)

lemma accounted_flush1: "accounted s \<Longrightarrow> accounted (flush1 obj st s)"
proof (cases "buffers s (obj, st) = []")
  case True
  then show "accounted s \<Longrightarrow> accounted (flush1 obj st s)" by (simp add: flush1_def)
next
  case False
  assume "accounted s"
  then have "accounted (s\<lparr>buffers := (buffers s)((obj, st) := [])\<rparr>)"
    by (simp add: accounted_def inflight_count_def)
  then show "accounted (flush1 obj st s)"
    using False by (simp add: flush1_def accounted_dispatch)
qed

lemma accounted_exec:
  assumes "accounted s" "i < length (inflight s)"
  shows "accounted (complete (fst (inflight s ! i)) (run_task cfg t (remove_task i s)))"
  unfolding accounted_def inflight_count_def
proof
  fix h
  let ?n = "length (filter (\<lambda>p. fst p = h) (take i (inflight s) @ drop (Suc i) (inflight s)))"
  have rm: "?n + (if fst (inflight s ! i) = h then 1 else 0)
        = length (filter (\<lambda>p. fst p = h) (inflight s))"
    using assms(2) by (rule filter_remove_nth)
  have acc: "issued (handles s h) = completed (handles s h)
        + length (filter (\<lambda>p. fst p = h) (inflight s))"
    using assms(1) by (simp add: accounted_def inflight_count_def)
  have fl: "inflight (complete (fst (inflight s ! i)) (run_task cfg t (remove_task i s)))
      = take i (inflight s) @ drop (Suc i) (inflight s)"
    by simp
  show "issued (handles (complete (fst (inflight s ! i)) (run_task cfg t (remove_task i s))) h)
      = completed (handles (complete (fst (inflight s ! i)) (run_task cfg t (remove_task i s))) h)
        + length (filter (\<lambda>p. fst p = h)
            (inflight (complete (fst (inflight s ! i)) (run_task cfg t (remove_task i s)))))"
  proof (cases "fst (inflight s ! i) = h")
    case True
    with rm acc have "issued (handles s h) = Suc (completed (handles s h)) + ?n" by simp
    with True show ?thesis unfolding fl by simp
  next
    case False
    with rm acc have "issued (handles s h) = completed (handles s h) + ?n" by simp
    with False show ?thesis unfolding fl by simp
  qed
qed

lemma accounted_fold_dispatch:
  "accounted s \<Longrightarrow> accounted (fold (\<lambda>x. dispatch h (g x)) xs s)"
  by (induction xs arbitrary: s) (simp_all add: accounted_dispatch)

lemma accounted_fold_flush1:
  "accounted s \<Longrightarrow> accounted (fold (flush1 obj) sts s)"
  by (induction sts arbitrary: s) (simp_all add: accounted_flush1)

lemma accounted_perform:
  assumes "perform cfg c s = Some s'" "accounted s"
  shows "accounted s'"
  using assms(1)
proof (cases rule: perform_cases)
  case (Create hint)
  with assms(2) show ?thesis by (simp add: accounted_def inflight_count_def)
next
  case (Destroy obj)
  with assms(2) show ?thesis by (simp add: accounted_def inflight_count_def)
next
  case (Insert src obj k v)
  then show ?thesis using assms(2) local_apply_fields(2,5) [OF Insert(3)]
    by (simp add: accounted_def inflight_count_def)
next
  case (AsyncInsert src u obj k v)
  with assms(2) show ?thesis by (simp add: accounted_dispatch)
next
  case (Enqueue src obj k v)
  with assms(2) show ?thesis by (simp add: accounted_def inflight_count_def)
next
  case (EnqueueFlush src obj k v)
  have "accounted (enqueue (obj, src, partition cfg (n_loc s) k) (k, v) s)"
    using assms(2) by (simp add: accounted_def inflight_count_def)
  with EnqueueFlush show ?thesis by (simp add: accounted_flush1)
next
  case (Flush obj)
  with assms(2) show ?thesis by (simp add: flush_all_def accounted_fold_flush1)
next
  case (ForEach u obj)
  with assms(2) show ?thesis by (simp add: accounted_fold_dispatch)
next
  case (Wait h)
  with assms(2) show ?thesis by simp
next
  case (Exec i)
  with assms(2) show ?thesis by (simp add: accounted_exec)
qed

lemma fresh_local_apply:
  assumes "local_apply loc obj f s = Inr s'" "fresh s"
  shows "fresh s'"
proof -
  from local_apply_fields(8) [OF assms(1)] obtain sh where
    sh: "(registries s ! loc) obj = Some sh"
    and r: "registries s' = (registries s)[loc := (registries s ! loc)(obj \<mapsto> f sh)]"
    by blast
  have loc: "loc < length (registries s)"
    using local_apply_fields(7) [OF assms(1)] by (simp add: n_loc_def)
  show ?thesis
    unfolding fresh_def r local_apply_fields(1) [OF assms(1)]
  proof (intro ballI allI impI)
    fix r' o' assume r': "r' \<in> set ((registries s)[loc := (registries s ! loc)(obj \<mapsto> f sh)])"
      and o': "r' o' \<noteq> None"
    from r' have "r' = (registries s ! loc)(obj \<mapsto> f sh) \<or> r' \<in> set (registries s)"
      using set_update_subset_insert by fastforce
    then show "o' < next_oid s"
    proof
      assume "r' = (registries s ! loc)(obj \<mapsto> f sh)"
      with o' sh have "(registries s ! loc) o' \<noteq> None" by (auto split: if_splits)
      with nth_mem [OF loc] assms(2) show ?thesis unfolding fresh_def by blast
    next
      assume "r' \<in> set (registries s)"
      with o' assms(2) show ?thesis unfolding fresh_def by blast
    qed
  qed
qed

lemma fresh_run_task:
  assumes "fresh s"
  shows "fresh (run_task cfg t s)"
proof (cases t)
  case (InsertTask obj k v)
  then show ?thesis
    using assms fresh_local_apply [of "partition cfg (n_loc s) k" obj "shard_insert k v" s]
    by (simp add: run_task_def split: sum.splits)
next
  case (BatchTask obj tgt kvs)
  then show ?thesis
    using assms fresh_local_apply [of tgt obj "insert_all kvs" s]
    by (simp add: run_task_def split: sum.splits)
next
  case (KeysTask obj loc)
  then show ?thesis
    using assms by (simp add: run_task_def fresh_def split: sum.splits)
qed

lemma fresh_perform:
  assumes "perform cfg c s = Some s'" "fresh s"
  shows "fresh s'"
  using assms(1)
proof (cases rule: perform_cases)
  case (Create hint)
  show ?thesis
    unfolding fresh_def Create Create_fields
  proof (intro ballI allI impI)
    fix r obj
    assume "r \<in> set (map (\<lambda>r. r(next_oid s \<mapsto> \<lparr>capacity = hint, entries = []\<rparr>)) (registries s))"
      and o: "r obj \<noteq> None"
    then obtain r0 where r0: "r0 \<in> set (registries s)"
      and r: "r = r0(next_oid s \<mapsto> \<lparr>capacity = hint, entries = []\<rparr>)" by auto
    show "obj < Suc (next_oid s)"
    proof (cases "obj = next_oid s")
      case True
      then show ?thesis by simp
    next
      case False
      with o r have "r0 obj \<noteq> None" by simp
      with r0 assms(2) have "obj < next_oid s" unfolding fresh_def by blast
      then show ?thesis by simp
    qed
  qed
next
  case (Destroy obj)
  show ?thesis
    unfolding fresh_def Destroy
  proof (intro ballI allI impI)
    fix r o'
    assume "r \<in> set (registries (s\<lparr>registries := map (\<lambda>r. r(obj := None)) (registries s)\<rparr>))"
      and o: "r o' \<noteq> None"
    then obtain r0 where r0: "r0 \<in> set (registries s)" and r: "r = r0(obj := None)" by auto
    from o r have "r0 o' \<noteq> None" by (simp split: if_splits)
    with r0 assms(2) show "o' < next_oid (s\<lparr>registries := map (\<lambda>r. r(obj := None)) (registries s)\<rparr>)"
      unfolding fresh_def by simp
  qed
next
  case (Insert src obj k v)
  with assms(2) show ?thesis by (simp add: fresh_local_apply)
next
  case (AsyncInsert src u obj k v)
  with assms(2) show ?thesis by (simp add: fresh_def)
next
  case (Enqueue src obj k v)
  with assms(2) show ?thesis by (simp add: fresh_def)
next
  case (EnqueueFlush src obj k v)
  with assms(2) show ?thesis by (simp add: fresh_def)
next
  case (Flush obj)
  with assms(2) show ?thesis by (simp add: fresh_def)
next
  case (ForEach u obj)
  with assms(2) show ?thesis by (simp add: fresh_def)
next
  case (Wait h)
  with assms(2) show ?thesis by simp
next
  case (Exec i)
  have "fresh (remove_task i s)" using assms(2) by (simp add: fresh_def)
  then have "fresh (run_task cfg (snd (inflight s ! i)) (remove_task i s))"
    by (rule fresh_run_task)
  then show ?thesis using Exec by (simp add: fresh_def)
qed

lemma partition_less: "0 < n \<Longrightarrow> partition cfg n k < n"
  by (simp add: partition_def)

lemma bufs_ok_enqueue:
  assumes "bufs_ok cfg s" "src < n_loc s"
  shows "bufs_ok cfg (enqueue (obj, src, partition cfg (n_loc s) k) (k, v) s)"
  unfolding bufs_ok_def
proof (intro allI impI)
  fix obj' src' tgt'
  let ?b = "(obj, src, partition cfg (n_loc s) k)"
  assume ne: "buffers (enqueue ?b (k, v) s) (obj', src', tgt') \<noteq> []"
  have tgt: "partition cfg (n_loc s) k < n_loc s"
    using assms(2) by (intro partition_less) simp
  show "src' < n_loc (enqueue ?b (k, v) s) \<and> tgt' < n_loc (enqueue ?b (k, v) s)
      \<and> list_all (\<lambda>kv. partition cfg (n_loc (enqueue ?b (k, v) s)) (fst kv) = tgt')
          (buffers (enqueue ?b (k, v) s) (obj', src', tgt'))"
  proof (cases "(obj', src', tgt') = ?b")
    case True
    have old: "list_all (\<lambda>kv. partition cfg (n_loc s) (fst kv) = partition cfg (n_loc s) k)
        (buffers s ?b)"
    proof (cases "buffers s ?b = []")
      case True
      then show ?thesis by simp
    next
      case False
      with assms(1) show ?thesis unfolding bufs_ok_def by blast
    qed
    from True have eq: "obj' = obj" "src' = src" "tgt' = partition cfg (n_loc s) k" by simp_all
    show ?thesis unfolding eq using assms(2) tgt old by simp
  next
    case False
    with ne have "buffers s (obj', src', tgt') \<noteq> []" by (auto split: if_splits)
    with assms(1) have "src' < n_loc s \<and> tgt' < n_loc s
      \<and> list_all (\<lambda>kv. partition cfg (n_loc s) (fst kv) = tgt') (buffers s (obj', src', tgt'))"
      unfolding bufs_ok_def by blast
    with False show ?thesis by auto
  qed
qed

lemma bufs_ok_flush1: "bufs_ok cfg s \<Longrightarrow> bufs_ok cfg (flush1 obj st s)"
  unfolding bufs_ok_def by (simp add: flush1_buffers)

lemma bufs_ok_perform:
  assumes "perform cfg c s = Some s'" "bufs_ok cfg s"
  shows "bufs_ok cfg s'"
  using assms(1)
proof (cases rule: perform_cases)
  case (Create hint)
  with assms(2) show ?thesis by (simp add: bufs_ok_def)
next
  case (Destroy obj)
  with assms(2) show ?thesis by (simp add: bufs_ok_def)
next
  case (Insert src obj k v)
  then show ?thesis using assms(2) local_apply_fields(3,6) [OF Insert(3)]
    by (simp add: bufs_ok_def)
next
  case (AsyncInsert src u obj k v)
  with assms(2) show ?thesis by (simp add: bufs_ok_def)
next
  case (Enqueue src obj k v)
  with assms(2) show ?thesis by (simp add: bufs_ok_enqueue)
next
  case (EnqueueFlush src obj k v)
  with assms(2) show ?thesis by (simp add: bufs_ok_enqueue bufs_ok_flush1)
next
  case (Flush obj)
  have "bufs_ok cfg (fold (flush1 obj) sts s)" for sts
    using assms(2) by (induction sts arbitrary: s) (simp_all add: bufs_ok_flush1)
  with Flush show ?thesis by (simp add: flush_all_def)
next
  case (ForEach u obj)
  with assms(2) show ?thesis by (simp add: bufs_ok_def)
next
  case (Wait h)
  with assms(2) show ?thesis by simp
next
  case (Exec i)
  then show ?thesis using assms(2) by (simp add: bufs_ok_def)
qed

lemma tasks_ok_dispatch:
  "tasks_ok cfg s \<Longrightarrow> task_ok cfg (n_loc s) h t \<Longrightarrow> tasks_ok cfg (dispatch h t s)"
  by (simp add: tasks_ok_def)

lemma tasks_ok_flush1:
  assumes "tasks_ok cfg s" "bufs_ok cfg s"
  shows "tasks_ok cfg (flush1 obj st s)"
proof (cases "buffers s (obj, st) = []")
  case True
  with assms(1) show ?thesis by (simp add: flush1_def)
next
  case False
  obtain src tgt where st: "st = (src, tgt)" by (cases st)
  from False assms(2) have "tgt < n_loc s
      \<and> list_all (\<lambda>kv. partition cfg (n_loc s) (fst kv) = tgt) (buffers s (obj, src, tgt))"
    unfolding st bufs_ok_def by blast
  then have "task_ok cfg (n_loc s) (BufferHandle obj) (BatchTask obj tgt (buffers s (obj, src, tgt)))"
    by (simp add: task_ok_def)
  with assms(1) show ?thesis
    unfolding st by (simp add: tasks_ok_def flush1_inflight)
qed

lemma set_remove_nth: "set (take i xs @ drop (Suc i) xs) \<subseteq> set xs"
  using set_take_subset [of i xs] set_drop_subset [of "Suc i" xs] by simp

lemma tasks_ok_remove:
  assumes "tasks_ok cfg s"
  shows "tasks_ok cfg (remove_task i s)"
proof -
  have "\<forall>p \<in> set (inflight s). task_ok cfg (n_loc s) (fst p) (snd p)"
    using assms by (simp add: tasks_ok_def list_all_iff)
  then have "\<forall>p \<in> set (take i (inflight s) @ drop (Suc i) (inflight s)).
      task_ok cfg (n_loc s) (fst p) (snd p)"
    using set_remove_nth [of i "inflight s"] by blast
  then show ?thesis by (simp add: tasks_ok_def list_all_iff)
qed

lemma tasks_bufs_fold_flush1:
  "tasks_ok cfg s \<and> bufs_ok cfg s \<Longrightarrow>
     tasks_ok cfg (fold (flush1 obj) sts s) \<and> bufs_ok cfg (fold (flush1 obj) sts s)"
  by (induction sts arbitrary: s) (simp_all add: tasks_ok_flush1 bufs_ok_flush1)

lemma tasks_bufs_flush_all:
  "tasks_ok cfg s \<and> bufs_ok cfg s \<Longrightarrow> tasks_ok cfg (flush_all obj s) \<and> bufs_ok cfg (flush_all obj s)"
  unfolding flush_all_def by (rule tasks_bufs_fold_flush1)

lemma tasks_ok_perform:
  assumes "perform cfg c s = Some s'" "tasks_ok cfg s" "bufs_ok cfg s"
  shows "tasks_ok cfg s'"
  using assms(1)
proof (cases rule: perform_cases)
  case (Insert src obj k v)
  then show ?thesis using assms(2) local_apply_fields(2,6) [OF Insert(3)]
    by (simp add: tasks_ok_def)
next
  case (AsyncInsert src u obj k v)
  then show ?thesis using assms(2) by (simp add: tasks_ok_dispatch task_ok_def)
next
  case (Enqueue src obj k v)
  then show ?thesis using assms(2) by (simp add: tasks_ok_def)
next
  case (EnqueueFlush src obj k v)
  have "tasks_ok cfg (enqueue (obj, src, partition cfg (n_loc s) k) (k, v) s)"
    using assms(2) by (simp add: tasks_ok_def)
  then show ?thesis
    using EnqueueFlush assms(3) by (simp add: tasks_ok_flush1 bufs_ok_enqueue)
next
  case (Flush obj)
  then show ?thesis using tasks_bufs_flush_all assms(2,3) by blast
next
  case (ForEach u obj)
  have "list_all (\<lambda>p. task_ok cfg (n_loc s) (fst p) (snd p))
          (map (\<lambda>loc. (UserHandle u, KeysTask obj loc)) [0..<n_loc s])"
    by (simp add: list_all_iff task_ok_def)
  with ForEach assms(2) show ?thesis by (simp add: tasks_ok_def)
next
  case (Exec i)
  have "tasks_ok cfg (remove_task i s)" using assms(2) by (rule tasks_ok_remove)
  then show ?thesis using Exec by (simp add: tasks_ok_def)
next
  case (Create hint)
  with assms(2) show ?thesis by (simp add: tasks_ok_def)
next
  case (Destroy obj)
  with assms(2) show ?thesis by (simp add: tasks_ok_def)
next
  case (Wait h)
  with assms(2) show ?thesis by simp
qed

lemma inv_perform:
  assumes "perform cfg c s = Some s'" "inv cfg s"
  shows "inv cfg s'"
  using assms accounted_perform fresh_perform tasks_ok_perform bufs_ok_perform
  unfolding inv_def by blast

lemma inv_init: "inv cfg (init n)"
  by (simp add: inv_def accounted_def inflight_count_def fresh_def tasks_ok_def bufs_ok_def init_def)

lemma inv_run:
  assumes "run cfg cs s = Some s'" "inv cfg s"
  shows "inv cfg s'"
  using assms(1,2) by (rule run_invariant) (rule inv_perform)

lemma inv_reachable: "run cfg cs (init n) = Some s \<Longrightarrow> inv cfg s"
  using inv_run inv_init by blast

subsection \<open>Evaluation of histories\<close>

lemma init_4: "(init 4 :: ('k, 'v) state) =
   \<lparr>registries = [Map.empty, Map.empty, Map.empty, Map.empty], next_oid = 0,
     handles = (\<lambda>h. \<lparr>issued = 0, completed = 0\<rparr>), inflight = [],
     buffers = (\<lambda>b. []), visited = []\<rparr>"
  by (simp add: init_def eval_nat_numeral)

lemmas map_eval =
  perform_def returned_def Create_def Destroy_def Insert_def AsyncInsert_def
  BufferedAsyncInsert_def AsyncForEachKey_def flush_all_def flush1_def enqueue_def
  exec_def remove_task_def run_task_def complete_def dispatch_def local_apply_def resolve_def
  waitForCompletion_def drained_def live_def n_loc_def partition_def int_config_def
  shard_insert_def shard_lookup_def shard_keys_def insert_all_def Lookup_def Let_def
  fresh_map_def init_4

lemma run_Some_the: "run cfg cs s \<noteq> None \<Longrightarrow> run cfg cs s = Some (the (run cfg cs s))"
  by simp

subsection \<open>The registry\<close>

lemma live_n_loc: "live s obj \<Longrightarrow> 0 < n_loc s"
  by (simp add: live_def n_loc_def)

lemma live_nth:
  assumes "live s obj" "loc < n_loc s"
  shows "\<exists>sh. (registries s ! loc) obj = Some sh"
proof -
  have "registries s ! loc \<in> set (registries s)"
    using assms(2) by (simp add: n_loc_def)
  with assms(1) show ?thesis by (auto simp: live_def list_all_iff)
qed

lemma live_resolve:
  assumes "live s obj" "loc < n_loc s"
  shows "\<exists>sh. resolve s loc obj = Inr sh \<and> (registries s ! loc) obj = Some sh"
  using live_nth [OF assms] assms(2) by (auto simp: resolve_def)

lemma live_fresh: "live s obj \<Longrightarrow> fresh s \<Longrightarrow> obj < next_oid s"
  unfolding live_def fresh_def list_all_iff
  by (cases "registries s") auto

lemma not_live_Destroy: "live s obj \<Longrightarrow> \<not> live (snd (Destroy obj s)) obj"
  unfolding live_def Destroy_def list_all_iff
  by (cases "registries s") auto

text \<open>
  Claim C10: \<open>Destroy\<close> of an identifier that is not live fails with \<open>NotFound\<close> and
  returns the state it was given; such are an identifier that has been destroyed (a
  second \<open>Destroy\<close> after one that succeeded) and, in every state that a history
  reaches, an identifier that was never given out.
\<close>

theorem Destroy_not_found:
  "(\<not> live s obj \<longrightarrow> Destroy obj s = (Inl NotFound, s))
   \<and> (live s obj \<longrightarrow>
        fst (Destroy obj s) = Inr ()
        \<and> Destroy obj (snd (Destroy obj s)) = (Inl NotFound, snd (Destroy obj s)))
   \<and> (run cfg cs (init n) = Some s \<and> next_oid s \<le> obj \<longrightarrow> Destroy obj s = (Inl NotFound, s))"
proof (intro conjI impI)
  assume "\<not> live s obj"
  then show "Destroy obj s = (Inl NotFound, s)" by (simp add: Destroy_def)
next
  assume "live s obj"
  then show "fst (Destroy obj s) = Inr ()" by (simp add: Destroy_def)
next
  assume "live s obj"
  then have "\<not> live (snd (Destroy obj s)) obj" by (rule not_live_Destroy)
  then show "Destroy obj (snd (Destroy obj s)) = (Inl NotFound, snd (Destroy obj s))"
    by (simp add: Destroy_def)
next
  assume a: "run cfg cs (init n) = Some s \<and> next_oid s \<le> obj"
  then have "fresh s" using inv_reachable [of cfg cs n s] by (simp add: inv_def)
  with a have "\<not> live s obj" using live_fresh [of s obj] by auto
  then show "Destroy obj s = (Inl NotFound, s)" by (simp add: Destroy_def)
qed

lemma live_Create: "n \<noteq> 0 \<Longrightarrow> live (snd (Create hint (init n))) 0"
  by (simp add: live_def init_def list_all_iff Create_def)

theorem Destroy_not_found_witness:
  "\<not> live (init 4 :: (int, int) state) 0
   \<and> Destroy 0 (init 4 :: (int, int) state) = (Inl NotFound, init 4)
   \<and> live (snd (Create 16 (init 4 :: (int, int) state))) 0
   \<and> fst (Destroy 0 (snd (Create 16 (init 4 :: (int, int) state)))) = Inr ()
   \<and> fst (Destroy 0 (snd (Destroy 0 (snd (Create 16 (init 4 :: (int, int) state)))))) = Inl NotFound
   \<and> run int_config [Create_call 16] (init 4) = Some (snd (Create 16 (init 4 :: (int, int) state)))
   \<and> next_oid (snd (Create 16 (init 4 :: (int, int) state))) \<le> 7
   \<and> fst (Destroy 7 (snd (Create 16 (init 4 :: (int, int) state)))) = Inl NotFound"
proof -
  let ?s0 = "init 4 :: (int, int) state"
  let ?s1 = "snd (Create 16 ?s0)"
  have nl: "\<not> live ?s0 0" by (simp add: live_def init_def list_all_iff)
  have l: "live ?s1 0" by (rule live_Create) simp
  have r: "run int_config [Create_call 16] ?s0 = Some ?s1" by (simp add: perform_def)
  have n: "next_oid ?s1 \<le> 7" by (simp add: init_def)
  show ?thesis
    using Destroy_not_found [of ?s0 0 int_config "[]" 4]
      Destroy_not_found [of ?s1 0 int_config "[]" 4]
      Destroy_not_found [of ?s1 7 int_config "[Create_call 16]" 4]
      nl l r n
    by simp
qed

subsection \<open>Completion handles\<close>

lemma accounted_le: "accounted s \<Longrightarrow> completed (handles s h) \<le> issued (handles s h)"
  by (simp add: accounted_def)

lemma accounted_drained:
  "accounted s \<Longrightarrow> drained h s \<Longrightarrow> inflight_count h s = 0"
  by (simp add: accounted_def drained_def)

lemma issued_perform:
  assumes "perform cfg c s = Some s'" "insert_phase c"
  shows "issued (handles s' h) = issued (handles s h) + issues h c"
  using assms
proof (cases rule: perform_cases)
  case (AsyncInsert src u obj k v)
  then show ?thesis by (simp add: issues_def)
next
  case (Wait h')
  then show ?thesis by (simp add: issues_def)
next
  case (Exec i)
  then show ?thesis by (simp add: issues_def)
qed (simp_all add: insert_phase_def)

lemma issued_run:
  assumes "run cfg cs s = Some s'" "list_all insert_phase cs"
  shows "issued (handles s' h) = issued (handles s h) + asyncs h cs"
  using assms
proof (induction cs arbitrary: s)
  case Nil
  then show ?case by (simp add: asyncs_def)
next
  case (Cons c cs)
  from Cons.prems(1) obtain s1 where p: "perform cfg c s = Some s1" and r: "run cfg cs s1 = Some s'"
    by (auto split: option.splits)
  have "issued (handles s1 h) = issued (handles s h) + issues h c"
    using p Cons.prems(2) by (simp add: issued_perform)
  moreover have "issued (handles s' h) = issued (handles s1 h) + asyncs h cs"
    using Cons.IH [OF r] Cons.prems(2) by simp
  ultimately show ?case by (simp add: asyncs_def)
qed

text \<open>
  Claim C3: in every state that a history reaches, \<open>completed \<le> issued\<close> for every
  handle, and \<open>waitForCompletion\<close> returns only when \<open>completed = issued\<close>, no task
  of the handle being in flight. An asynchronous insert increments \<open>issued\<close>, the
  execution of a task increments \<open>completed\<close> of its handle. When a phase of
  asynchronous inserts starts on an empty handle and issues \<open>N\<close> operations under it,
  \<open>issued\<close> is \<open>N\<close>, and \<open>waitForCompletion\<close> returns only when \<open>completed\<close> is \<open>N\<close>.
\<close>

theorem handle_accounting:
  "(run cfg cs0 (init n) = Some s \<longrightarrow>
      completed (handles s h) \<le> issued (handles s h)
      \<and> (waitForCompletion h s \<noteq> None \<longrightarrow>
           completed (handles s h) = issued (handles s h) \<and> inflight_count h s = 0))
   \<and> (live s obj \<longrightarrow>
        issued (handles (snd (AsyncInsert cfg src u obj k v s)) (UserHandle u))
          = Suc (issued (handles s (UserHandle u)))
        \<and> completed (handles (snd (AsyncInsert cfg src u obj k v s)) (UserHandle u))
          = completed (handles s (UserHandle u)))
   \<and> (exec cfg i s = Some s1 \<and> fst (inflight s ! i) = h \<longrightarrow>
        completed (handles s1 h) = Suc (completed (handles s h))
        \<and> issued (handles s1 h) = issued (handles s h))
   \<and> (run cfg cs0 (init n) = Some s \<and> handles s h = \<lparr>issued = 0, completed = 0\<rparr>
        \<and> list_all insert_phase cs \<and> run cfg cs s = Some s' \<longrightarrow>
        issued (handles s' h) = asyncs h cs
        \<and> completed (handles s' h) \<le> asyncs h cs
        \<and> (waitForCompletion h s' \<noteq> None \<longrightarrow> completed (handles s' h) = asyncs h cs))"
proof (intro conjI impI)
  assume r: "run cfg cs0 (init n) = Some s"
  then have acc: "accounted s" using inv_reachable [of cfg cs0 n s] by (simp add: inv_def)
  then show "completed (handles s h) \<le> issued (handles s h)" by (rule accounted_le)
  assume "waitForCompletion h s \<noteq> None"
  then have d: "drained h s" by (simp add: waitForCompletion_def split: if_splits)
  then show "completed (handles s h) = issued (handles s h)" by (simp add: drained_def)
  show "inflight_count h s = 0" using acc d by (rule accounted_drained)
next
  assume "live s obj"
  then show "issued (handles (snd (AsyncInsert cfg src u obj k v s)) (UserHandle u))
          = Suc (issued (handles s (UserHandle u)))"
    and "completed (handles (snd (AsyncInsert cfg src u obj k v s)) (UserHandle u))
          = completed (handles s (UserHandle u))"
    by (simp_all add: AsyncInsert_def)
next
  assume "exec cfg i s = Some s1 \<and> fst (inflight s ! i) = h"
  then show "completed (handles s1 h) = Suc (completed (handles s h))"
    and "issued (handles s1 h) = issued (handles s h)"
    by (auto simp: exec_def split: if_splits)
next
  assume a: "run cfg cs0 (init n) = Some s \<and> handles s h = \<lparr>issued = 0, completed = 0\<rparr>
        \<and> list_all insert_phase cs \<and> run cfg cs s = Some s'"
  then have "inv cfg s" using inv_reachable by blast
  with a have "inv cfg s'" using inv_run by blast
  then have acc: "accounted s'" by (simp add: inv_def)
  from a have "issued (handles s' h) = issued (handles s h) + asyncs h cs"
    using issued_run by blast
  with a show n: "issued (handles s' h) = asyncs h cs" by simp
  show "completed (handles s' h) \<le> asyncs h cs"
    using accounted_le [OF acc, of h] n by simp
  assume "waitForCompletion h s' \<noteq> None"
  then have "drained h s'" by (simp add: waitForCompletion_def split: if_splits)
  with n show "completed (handles s' h) = asyncs h cs" by (simp add: drained_def)
qed

lemma run_fresh_map: "run int_config [Create_call 16] (init 4) = Some fresh_map"
  by (simp add: perform_def fresh_map_def)

lemma run_two_inserts: "run int_config two_inserts fresh_map \<noteq> None"
  by (simp add: two_inserts_def map_eval)

text \<open>
  The theorem at the history \<open>two_inserts\<close> on \<open>fresh_map\<close> and the handle 0, and
  at the first step of the runtime in it.
\<close>

theorem handle_accounting_witness:
  "run int_config [Create_call 16] (init 4) = Some fresh_map
   \<and> waitForCompletion (UserHandle 0) fresh_map \<noteq> None
   \<and> live fresh_map 0
   \<and> handles fresh_map (UserHandle 0) = \<lparr>issued = 0, completed = 0\<rparr>
   \<and> list_all insert_phase two_inserts
   \<and> run int_config two_inserts fresh_map = Some (the (run int_config two_inserts fresh_map))
   \<and> waitForCompletion (UserHandle 0) (the (run int_config two_inserts fresh_map)) \<noteq> None
   \<and> asyncs (UserHandle 0) two_inserts = 2
   \<and> completed (handles (the (run int_config two_inserts fresh_map)) (UserHandle 0)) = 2
   \<and> exec int_config 0 (snd (AsyncInsert int_config 0 0 0 5 5 fresh_map)) \<noteq> None
   \<and> fst (inflight (snd (AsyncInsert int_config 0 0 0 5 5 fresh_map)) ! 0) = UserHandle 0
   \<and> completed (handles (the (exec int_config 0 (snd (AsyncInsert int_config 0 0 0 5 5 fresh_map))))
         (UserHandle 0)) = 1"
proof -
  let ?h = "UserHandle 0"
  let ?s' = "the (run int_config two_inserts fresh_map)"
  let ?a = "snd (AsyncInsert int_config 0 0 0 5 5 fresh_map)"
  have r: "run int_config two_inserts fresh_map = Some ?s'"
    using run_two_inserts by (rule run_Some_the)
  have w0: "waitForCompletion ?h fresh_map \<noteq> None" by (simp add: map_eval)
  have l: "live fresh_map 0" by (simp add: map_eval)
  have e: "handles fresh_map ?h = \<lparr>issued = 0, completed = 0\<rparr>" by (simp add: map_eval)
  have p: "list_all insert_phase two_inserts" by (simp add: two_inserts_def insert_phase_def)
  have w: "waitForCompletion ?h ?s' \<noteq> None" by (simp add: two_inserts_def map_eval)
  have n: "asyncs ?h two_inserts = 2" by (simp add: two_inserts_def asyncs_def issues_def)
  have x0: "exec int_config 0 ?a \<noteq> None" by (simp add: map_eval)
  then have x: "exec int_config 0 ?a = Some (the (exec int_config 0 ?a))" by simp
  have f: "fst (inflight ?a ! 0) = ?h" by (simp add: map_eval)
  have c: "completed (handles ?s' ?h) = 2"
    using handle_accounting [where cfg = int_config and ?cs0.0 = "[Create_call 16]" and n = 4
        and s = fresh_map and h = ?h and obj = 0 and cs = two_inserts and s' = ?s'
        and i = 0 and ?s1.0 = fresh_map and src = 0 and u = 0 and k = 5 and v = 5]
      run_fresh_map r e p w n
    by simp
  have c1: "completed (handles (the (exec int_config 0 ?a)) ?h) = 1"
    using handle_accounting [where cfg = int_config and ?cs0.0 = "[]" and n = 4
        and s = ?a and h = ?h and obj = 0 and cs = "[]" and s' = ?a
        and i = 0 and ?s1.0 = "the (exec int_config 0 ?a)" and src = 0 and u = 0 and k = 5
        and v = 5]
      x f
    by (simp add: map_eval)
  show ?thesis
    using run_fresh_map r w0 l e p w n x0 f c c1 by simp
qed

subsection \<open>Lookups along a history\<close>

lemma Lookup_src: "Lookup cfg src obj k s = Lookup cfg src' obj k s"
  by (simp add: Lookup_def)

lemma Lookup_registries:
  "registries s' = registries s \<Longrightarrow> Lookup cfg src obj k s' = Lookup cfg src obj k s"
  by (simp add: Lookup_def resolve_def n_loc_def)

lemma live_registries: "registries s' = registries s \<Longrightarrow> live s' obj = live s obj"
  by (simp add: live_def)

lemma shard_lookup_insert:
  "shard_lookup (shard_insert k' v' sh) k = (if k = k' then Some v' else shard_lookup sh k)"
  by (simp add: shard_lookup_def shard_insert_def update_conv')

lemma shard_lookup_insert_all:
  "shard_lookup (insert_all kvs sh) k =
     (case map_of (rev kvs) k of None \<Rightarrow> shard_lookup sh k | Some v \<Rightarrow> Some v)"
proof (induction kvs arbitrary: sh)
  case Nil
  show ?case by (simp add: insert_all_def)
next
  case (Cons kv kvs)
  obtain k' v' where kv: "kv = (k', v')" by (cases kv)
  have "insert_all (kv # kvs) sh = insert_all kvs (shard_insert k' v' sh)"
    by (simp add: insert_all_def kv)
  then show ?case
    using Cons.IH [of "shard_insert k' v' sh"]
    by (auto simp: kv shard_lookup_insert map_add_def split: option.splits)
qed

lemma map_of_rev_None: "map_of (rev kvs) k = None \<longleftrightarrow> k \<notin> fst ` set kvs"
  by (simp add: map_of_eq_None_iff)

lemma shard_lookup_insert_all_other:
  "k \<notin> fst ` set kvs \<Longrightarrow> shard_lookup (insert_all kvs sh) k = shard_lookup sh k"
  using map_of_rev_None [of kvs k] by (simp add: shard_lookup_insert_all)

lemma shard_lookup_insert_all_in:
  "k \<in> fst ` set kvs \<Longrightarrow> \<exists>v. shard_lookup (insert_all kvs sh) k = Some v"
  using map_of_rev_None [of kvs k] by (auto simp: shard_lookup_insert_all split: option.splits)

lemma shard_lookup_insert_all_mono:
  "shard_lookup sh k = Some v \<Longrightarrow> \<exists>v'. shard_lookup (insert_all kvs sh) k = Some v'"
  by (simp add: shard_lookup_insert_all split: option.splits)

text \<open>
  A lookup after an operation on one shard: the shard that the lookup reads is the
  one operated on, or the lookup is what it was.
\<close>

lemma Lookup_local_apply:
  assumes "local_apply loc obj' f s = Inr s'"
  shows "Lookup cfg src obj k s' =
     (if obj' = obj \<and> loc = partition cfg (n_loc s) k
      then Inr (shard_lookup (f (the ((registries s ! loc) obj'))) k)
      else Lookup cfg src obj k s)"
proof -
  from local_apply_fields(8) [OF assms] obtain sh where
    sh: "(registries s ! loc) obj' = Some sh"
    and r: "registries s' = (registries s)[loc := (registries s ! loc)(obj' \<mapsto> f sh)]"
    by blast
  have loc: "loc < length (registries s)"
    using local_apply_fields(7) [OF assms] by (simp add: n_loc_def)
  have n: "n_loc s' = n_loc s" by (rule local_apply_fields(6) [OF assms])
  show ?thesis
  proof (cases "partition cfg (n_loc s) k = loc")
    case True
    then show ?thesis
      using sh loc unfolding Lookup_def resolve_def n r
      by (auto simp: n_loc_def)
  next
    case False
    then show ?thesis
      unfolding Lookup_def resolve_def n r
      by (auto simp: n_loc_def)
  qed
qed

lemma live_local_apply:
  assumes "local_apply loc obj' f s = Inr s'"
  shows "live s' obj = live s obj"
proof -
  from local_apply_fields(8) [OF assms] obtain sh where
    sh: "(registries s ! loc) obj' = Some sh"
    and r: "registries s' = (registries s)[loc := (registries s ! loc)(obj' \<mapsto> f sh)]"
    by blast
  have loc: "loc < length (registries s)"
    using local_apply_fields(7) [OF assms] by (simp add: n_loc_def)
  let ?P = "\<lambda>r. r obj \<noteq> None"
  have upd: "?P ((registries s ! loc)(obj' \<mapsto> f sh)) = ?P (registries s ! loc)"
    using sh by auto
  have "list_all ?P ((registries s)[loc := (registries s ! loc)(obj' \<mapsto> f sh)])
      = list_all ?P (registries s)"
    unfolding list_all_length using loc upd
    by (auto simp: nth_list_update)
  then show ?thesis unfolding live_def r using loc by auto
qed

lemma live_run_task: "live (run_task cfg t s) obj = live s obj"
proof (cases t)
  case (InsertTask o' k v)
  then show ?thesis
    using live_local_apply [of "partition cfg (n_loc s) k" o' "shard_insert k v" s]
    by (simp add: run_task_def split: sum.splits)
next
  case (BatchTask o' tgt kvs)
  then show ?thesis
    using live_local_apply [of tgt o' "insert_all kvs" s]
    by (simp add: run_task_def split: sum.splits)
next
  case (KeysTask o' loc)
  then show ?thesis
    by (simp add: run_task_def live_def split: sum.splits)
qed

lemma live_perform:
  assumes "perform cfg c s = Some s'" "c \<noteq> Destroy_call obj" "live s obj"
  shows "live s' obj"
  using assms(1)
proof (cases rule: perform_cases)
  case (Create hint)
  with assms(3) show ?thesis
    by (auto simp: live_def list_all_iff)
next
  case (Destroy o')
  with assms(2,3) show ?thesis
    by (auto simp: live_def list_all_iff)
next
  case (Insert src o' k v)
  with assms(3) show ?thesis by (simp add: live_local_apply)
next
  case (AsyncInsert src u o' k v)
  with assms(3) show ?thesis by (simp add: live_def)
next
  case (Enqueue src o' k v)
  with assms(3) show ?thesis by (simp add: live_def)
next
  case (EnqueueFlush src o' k v)
  with assms(3) show ?thesis by (simp add: live_def)
next
  case (Flush o')
  with assms(3) show ?thesis by (simp add: live_def)
next
  case (ForEach u o')
  with assms(3) show ?thesis by (simp add: live_def)
next
  case (Wait h)
  with assms(3) show ?thesis by simp
next
  case (Exec i)
  have "live (remove_task i s) obj" using assms(3) by (simp add: live_def)
  then have "live (run_task cfg (snd (inflight s ! i)) (remove_task i s)) obj"
    by (simp add: live_run_task)
  with Exec show ?thesis by (simp add: live_def)
qed

text \<open>
  The blocking insert, then a lookup from any locality.
\<close>

lemma Insert_Lookup_sync:
  assumes "live s obj"
  shows "fst (Insert cfg src obj k v s) = Inr ()"
    and "Lookup cfg src' obj k (snd (Insert cfg src obj k v s)) = Inr (Some v)"
proof -
  let ?loc = "partition cfg (n_loc s) k"
  have loc: "?loc < n_loc s" using live_n_loc [OF assms] by (rule partition_less)
  from live_resolve [OF assms loc] obtain sh where sh: "resolve s ?loc obj = Inr sh" by blast
  then obtain s' where la: "local_apply ?loc obj (shard_insert k v) s = Inr s'"
    by (simp add: local_apply_def)
  then show "fst (Insert cfg src obj k v s) = Inr ()" by (simp add: Insert_def)
  have "Lookup cfg src' obj k s' = Inr (Some v)"
    using Lookup_local_apply [OF la, of cfg src' obj k] by (simp add: shard_lookup_insert)
  then show "Lookup cfg src' obj k (snd (Insert cfg src obj k v s)) = Inr (Some v)"
    using la by (simp add: Insert_def)
qed

subsection \<open>An asynchronous insert, then a lookup\<close>

lemma filter_remove_nth_neg:
  assumes "i < length xs" "\<not> P (xs ! i)"
  shows "filter P (take i xs @ drop (Suc i) xs) = filter P xs"
proof -
  have "filter P xs = filter P (take i xs @ xs ! i # drop (Suc i) xs)"
    using id_take_nth_drop [OF assms(1)] by simp
  with assms(2) show ?thesis by simp
qed

lemma filter_remove_nth_single:
  assumes "i < length xs" "P (xs ! i)" "filter P xs = [w]"
  shows "xs ! i = w" and "filter P (take i xs @ drop (Suc i) xs) = []"
proof -
  have "filter P xs = filter P (take i xs) @ xs ! i # filter P (drop (Suc i) xs)"
    using id_take_nth_drop [OF assms(1)] assms(2)
    by (metis filter.simps(2) filter_append)
  with assms(3) have e: "filter P (take i xs) @ xs ! i # filter P (drop (Suc i) xs) = [w]"
    by simp
  then have a: "filter P (take i xs) = []" by (cases "filter P (take i xs)") simp_all
  with e show "xs ! i = w" by simp
  from a e have "filter P (drop (Suc i) xs) = []" by simp
  with a show "filter P (take i xs @ drop (Suc i) xs) = []" by simp
qed

lemma writers_dispatch:
  "writers obj k (dispatch h t s) = writers obj k s @ (if task_writes obj k t then [(h, t)] else [])"
  by (simp add: writers_def)

lemma writers_inflight: "inflight s' = inflight s \<Longrightarrow> writers obj k s' = writers obj k s"
  by (simp add: writers_def)

lemma unbuffered_buffers: "buffers s' = buffers s \<Longrightarrow> unbuffered obj k s' = unbuffered obj k s"
  by (simp add: unbuffered_def)

lemma flush1_quiet:
  assumes "unbuffered obj k s"
  shows "writers obj k (flush1 obj' st s) = writers obj k s \<and> unbuffered obj k (flush1 obj' st s)"
proof -
  have "k \<notin> fst ` set (buffers s (obj, st))"
    using assms unfolding unbuffered_def by blast
  then have "\<not> task_writes obj k (BatchTask obj' (snd st) (buffers s (obj', st)))"
    by (auto simp: task_writes_def)
  then have "writers obj k (flush1 obj' st s) = writers obj k s"
    by (simp add: writers_def flush1_inflight)
  moreover have "unbuffered obj k (flush1 obj' st s)"
    using assms by (simp add: unbuffered_def flush1_buffers)
  ultimately show ?thesis by simp
qed

lemma fold_flush1_quiet:
  "unbuffered obj k s \<Longrightarrow>
     writers obj k (fold (flush1 obj') sts s) = writers obj k s
     \<and> unbuffered obj k (fold (flush1 obj') sts s)"
proof (induction sts arbitrary: s)
  case Nil
  then show ?case by simp
next
  case (Cons st sts)
  from flush1_quiet [OF Cons.prems, of obj' st]
  have w: "writers obj k (flush1 obj' st s) = writers obj k s"
    and u: "unbuffered obj k (flush1 obj' st s)" by simp_all
  from Cons.IH [OF u] w show ?case by simp
qed

lemma writers_fold_keys:
  "writers obj k (fold (\<lambda>loc. dispatch h (KeysTask obj' loc)) locs s) = writers obj k s"
  by (simp add: writers_def task_writes_def)

lemma Lookup_Create:
  assumes "obj \<noteq> next_oid s"
  shows "Lookup cfg src obj k (snd (Create hint s)) = Lookup cfg src obj k s"
  using assms by (auto simp: Lookup_def resolve_def n_loc_def Create_def)

lemma Lookup_Destroy:
  assumes "obj' \<noteq> obj"
  shows "Lookup cfg src obj k (s\<lparr>registries := map (\<lambda>r. r(obj' := None)) (registries s)\<rparr>)
       = Lookup cfg src obj k s"
  using assms by (auto simp: Lookup_def resolve_def n_loc_def)

lemma Lookup_resolved:
  assumes "local_apply (partition cfg (n_loc s) k) obj f s = Inr s'"
  shows "Lookup cfg src obj k s
       = Inr (shard_lookup (the ((registries s ! partition cfg (n_loc s) k) obj)) k)"
  using assms
  by (auto simp: local_apply_def Lookup_def resolve_def split: sum.splits if_splits option.splits)

lemma Lookup_local_apply_other:
  assumes "local_apply loc obj' f s = Inr s'"
    and "obj' = obj \<Longrightarrow> shard_lookup (f (the ((registries s ! loc) obj'))) k
          = shard_lookup (the ((registries s ! loc) obj')) k"
  shows "Lookup cfg src obj k s' = Lookup cfg src obj k s"
proof (cases "obj' = obj \<and> loc = partition cfg (n_loc s) k")
  case True
  then have la: "local_apply (partition cfg (n_loc s) k) obj f s = Inr s'"
    using assms(1) by simp
  show ?thesis
    using Lookup_local_apply [OF assms(1), of cfg src obj k] Lookup_resolved [OF la, of src]
      assms(2) True
    by simp
next
  case False
  then show ?thesis using Lookup_local_apply [OF assms(1), of cfg src obj k] by auto
qed

lemma Lookup_run_task_other:
  assumes "\<not> task_writes obj k t"
  shows "Lookup cfg src obj k (run_task cfg t s) = Lookup cfg src obj k s"
proof (cases t)
  case (InsertTask o' k' v')
  with assms have ne: "o' = obj \<Longrightarrow> k' \<noteq> k" by (auto simp: task_writes_def)
  show ?thesis
  proof (cases "local_apply (partition cfg (n_loc s) k') o' (shard_insert k' v') s")
    case (Inl e)
    with InsertTask show ?thesis by (simp add: run_task_def)
  next
    case (Inr s')
    have "Lookup cfg src obj k s' = Lookup cfg src obj k s"
      using Inr by (rule Lookup_local_apply_other) (use ne in \<open>simp add: shard_lookup_insert\<close>)
    with InsertTask Inr show ?thesis by (simp add: run_task_def)
  qed
next
  case (BatchTask o' tgt kvs)
  with assms have ne: "o' = obj \<Longrightarrow> k \<notin> fst ` set kvs" by (auto simp: task_writes_def)
  show ?thesis
  proof (cases "local_apply tgt o' (insert_all kvs) s")
    case (Inl e)
    with BatchTask show ?thesis by (simp add: run_task_def)
  next
    case (Inr s')
    have "Lookup cfg src obj k s' = Lookup cfg src obj k s"
      using Inr by (rule Lookup_local_apply_other) (use ne in \<open>simp add: shard_lookup_insert_all_other\<close>)
    with BatchTask Inr show ?thesis by (simp add: run_task_def)
  qed
next
  case (KeysTask o' loc)
  then show ?thesis
    by (auto simp: run_task_def intro: Lookup_registries split: sum.splits)
qed

lemma Lookup_run_insert:
  assumes "live s obj"
  shows "Lookup cfg src obj k (run_task cfg (InsertTask obj k v) s) = Inr (Some v)"
  using Insert_Lookup_sync(2) [OF assms, where cfg = cfg and src' = src and k = k and v = v and src = 0]
  by (simp add: run_task_def Insert_def split: sum.splits)

lemma insert_pending_perform:
  assumes "perform cfg c s = Some s'" "\<not> call_writes obj k c" "insert_pending cfg obj k v u s"
  shows "insert_pending cfg obj k v u s'"
proof -
  let ?ours = "(UserHandle u, InsertTask obj k v)"
  from assms(3) have l: "live s obj" and f: "fresh s" and ub: "unbuffered obj k s"
    and d: "writers obj k s = [?ours] \<or> writers obj k s = [] \<and> Lookup cfg 0 obj k s = Inr (Some v)"
    by (simp_all add: insert_pending_def)
  have nd: "c \<noteq> Destroy_call obj" using assms(2) by (auto simp: call_writes_def)
  have l': "live s' obj" using assms(1) nd l by (rule live_perform)
  have f': "fresh s'" using assms(1) f by (rule fresh_perform)
  have same: "insert_pending cfg obj k v u s'"
    if "writers obj k s' = writers obj k s" "unbuffered obj k s'"
      "Lookup cfg 0 obj k s' = Lookup cfg 0 obj k s"
    using that l' f' d by (simp add: insert_pending_def)
  from assms(1) show ?thesis
  proof (cases rule: perform_cases)
    case (Create hint)
    have "obj \<noteq> next_oid s" using live_fresh [OF l f] by simp
    then have "Lookup cfg 0 obj k s' = Lookup cfg 0 obj k s"
      unfolding Create by (rule Lookup_Create)
    moreover have "writers obj k s' = writers obj k s" "unbuffered obj k s' = unbuffered obj k s"
      unfolding Create by (simp_all add: writers_def unbuffered_def)
    ultimately show ?thesis using same ub by simp
  next
    case (Destroy o')
    with nd have "o' \<noteq> obj" by simp
    then have "Lookup cfg 0 obj k s' = Lookup cfg 0 obj k s"
      unfolding Destroy by (rule Lookup_Destroy)
    moreover have "writers obj k s' = writers obj k s" "unbuffered obj k s' = unbuffered obj k s"
      unfolding Destroy by (simp_all add: writers_def unbuffered_def)
    ultimately show ?thesis using same ub by simp
  next
    case (Insert src o' k' v')
    with assms(2) have ne: "o' = obj \<Longrightarrow> k' \<noteq> k" by (auto simp: call_writes_def)
    have "Lookup cfg 0 obj k s' = Lookup cfg 0 obj k s"
      using Insert(3) by (rule Lookup_local_apply_other) (use ne in \<open>simp add: shard_lookup_insert\<close>)
    moreover have "writers obj k s' = writers obj k s" "unbuffered obj k s' = unbuffered obj k s"
      using local_apply_fields(2,3) [OF Insert(3)] by (simp_all add: writers_def unbuffered_def)
    ultimately show ?thesis using same ub by simp
  next
    case (AsyncInsert src u' o' k' v')
    with assms(2) have "\<not> task_writes obj k (InsertTask o' k' v')"
      by (auto simp: call_writes_def task_writes_def)
    then have "writers obj k s' = writers obj k s"
      unfolding AsyncInsert by (simp add: writers_dispatch)
    moreover have "unbuffered obj k s' = unbuffered obj k s"
      unfolding AsyncInsert by (simp add: unbuffered_def)
    moreover have "Lookup cfg 0 obj k s' = Lookup cfg 0 obj k s"
      unfolding AsyncInsert by (rule Lookup_registries) simp
    ultimately show ?thesis using same ub by simp
  next
    case (Enqueue src o' k' v')
    with assms(2) have ne: "o' = obj \<Longrightarrow> k' \<noteq> k" by (auto simp: call_writes_def)
    have "unbuffered obj k s'"
      using ub ne unfolding Enqueue unbuffered_def by auto
    moreover have "writers obj k s' = writers obj k s"
      unfolding Enqueue by (simp add: writers_def)
    moreover have "Lookup cfg 0 obj k s' = Lookup cfg 0 obj k s"
      unfolding Enqueue by (rule Lookup_registries) simp
    ultimately show ?thesis using same by simp
  next
    case (EnqueueFlush src o' k' v')
    with assms(2) have ne: "o' = obj \<Longrightarrow> k' \<noteq> k" by (auto simp: call_writes_def)
    let ?s1 = "enqueue (o', src, partition cfg (n_loc s) k') (k', v') s"
    have u1: "unbuffered obj k ?s1"
      using ub ne unfolding unbuffered_def by auto
    have w1: "writers obj k ?s1 = writers obj k s" by (simp add: writers_def)
    from flush1_quiet [OF u1, of o' "(src, partition cfg (n_loc s) k')"] w1
    have "writers obj k s' = writers obj k s" "unbuffered obj k s'"
      unfolding EnqueueFlush by simp_all
    moreover have "Lookup cfg 0 obj k s' = Lookup cfg 0 obj k s"
      unfolding EnqueueFlush by (rule Lookup_registries) simp
    ultimately show ?thesis using same by simp
  next
    case (Flush o')
    from fold_flush1_quiet [OF ub, of o' "List.product [0..<n_loc s] [0..<n_loc s]"]
    have "writers obj k s' = writers obj k s" "unbuffered obj k s'"
      unfolding Flush flush_all_def by simp_all
    moreover have "Lookup cfg 0 obj k s' = Lookup cfg 0 obj k s"
      unfolding Flush by (rule Lookup_registries) simp
    ultimately show ?thesis using same by simp
  next
    case (ForEach u' o')
    have "writers obj k s' = writers obj k s"
      unfolding ForEach by (rule writers_fold_keys)
    moreover have "unbuffered obj k s' = unbuffered obj k s"
      unfolding ForEach by (simp add: unbuffered_def)
    moreover have "Lookup cfg 0 obj k s' = Lookup cfg 0 obj k s"
      unfolding ForEach by (rule Lookup_registries) simp
    ultimately show ?thesis using same ub by simp
  next
    case (Wait h)
    with assms(3) show ?thesis by simp
  next
    case (Exec i)
    let ?h = "fst (inflight s ! i)" and ?t = "snd (inflight s ! i)"
    let ?r = "remove_task i s"
    have u': "unbuffered obj k s'" using ub unfolding Exec by (simp add: unbuffered_def)
    have ws': "writers obj k s' = writers obj k ?r" unfolding Exec by (simp add: writers_def)
    have lk': "Lookup cfg 0 obj k s' = Lookup cfg 0 obj k (run_task cfg ?t ?r)"
      unfolding Exec by (rule Lookup_registries) simp
    have lr: "Lookup cfg 0 obj k ?r = Lookup cfg 0 obj k s"
      by (rule Lookup_registries) simp
    show ?thesis
    proof (cases "task_writes obj k ?t")
      case True
      then have "inflight s ! i \<in> set (writers obj k s)"
        using Exec(2) by (simp add: writers_def)
      with d have w: "writers obj k s = [?ours]" by auto
      from filter_remove_nth_single [OF Exec(2), of "\<lambda>p. task_writes obj k (snd p)" ?ours]
        True w
      have ours: "inflight s ! i = ?ours" and none: "writers obj k ?r = []"
        by (simp_all add: writers_def)
      have "live ?r obj" using l by (simp add: live_def)
      then have "Lookup cfg 0 obj k (run_task cfg (InsertTask obj k v) ?r) = Inr (Some v)"
        by (rule Lookup_run_insert)
      with ours lk' have "Lookup cfg 0 obj k s' = Inr (Some v)" by simp
      with none ws' u' l' f' show ?thesis by (simp add: insert_pending_def)
    next
      case False
      have "writers obj k ?r = writers obj k s"
        using filter_remove_nth_neg [OF Exec(2), of "\<lambda>p. task_writes obj k (snd p)"] False
        by (simp add: writers_def)
      moreover have "Lookup cfg 0 obj k (run_task cfg ?t ?r) = Lookup cfg 0 obj k ?r"
        using False by (rule Lookup_run_task_other)
      ultimately show ?thesis using same ws' u' lk' lr by simp
    qed
  qed
qed

lemma insert_pending_run:
  assumes "run cfg cs s = Some s'" "list_all (\<lambda>c. \<not> call_writes obj k c) cs"
    "insert_pending cfg obj k v u s"
  shows "insert_pending cfg obj k v u s'"
  using assms(1,3)
proof (rule run_invariant)
  fix c t t'
  assume "c \<in> set cs" "insert_pending cfg obj k v u t" "perform cfg c t = Some t'"
  with assms(2) show "insert_pending cfg obj k v u t'"
    using insert_pending_perform [of cfg c t t' obj k v u] by (auto simp: list_all_iff)
qed

lemma insert_pending_start:
  assumes "live s obj" "fresh s" "quiet s obj k"
  shows "insert_pending cfg obj k v u (snd (AsyncInsert cfg src u obj k v s))"
  using assms
  by (simp add: insert_pending_def AsyncInsert_def quiet_def writers_dispatch task_writes_def
      live_def fresh_def unbuffered_def)

lemma insert_pending_drained:
  assumes "insert_pending cfg obj k v u s" "accounted s" "drained (UserHandle u) s"
  shows "Lookup cfg src obj k s = Inr (Some v)"
proof -
  have "inflight_count (UserHandle u) s = 0" using assms(2,3) by (rule accounted_drained)
  then have "(UserHandle u, InsertTask obj k v) \<notin> set (inflight s)"
    by (auto simp: inflight_count_def filter_empty_conv)
  then have "writers obj k s \<noteq> [(UserHandle u, InsertTask obj k v)]"
    unfolding writers_def
    by (metis filter_is_subset list.set_intros(1) subsetD)
  with assms(1) have "Lookup cfg 0 obj k s = Inr (Some v)" by (simp add: insert_pending_def)
  then show ?thesis using Lookup_src [of cfg src obj k s 0] by simp
qed

text \<open>
  Claim C2: after the blocking \<open>Insert\<close> of \<open>(k, v)\<close> into a live map has returned,
  a lookup of \<open>k\<close> from any locality returns \<open>v\<close>. After \<open>AsyncInsert\<close> of \<open>(k, v)\<close>
  under a handle, in a state that a history has reached and in which no other write
  of \<open>k\<close> is pending, and after any further calls and steps of the runtime that do
  not write \<open>k\<close>, a lookup of \<open>k\<close> from any locality returns \<open>v\<close> once
  \<open>waitForCompletion\<close> on the handle returns.
\<close>

theorem Insert_then_Lookup:
  "(live s obj \<longrightarrow>
      fst (Insert cfg src obj k v s) = Inr ()
      \<and> Lookup cfg src' obj k (snd (Insert cfg src obj k v s)) = Inr (Some v))
   \<and> (run cfg cs0 (init n) = Some s \<and> live s obj \<and> quiet s obj k
        \<and> list_all (\<lambda>c. \<not> call_writes obj k c) cs
        \<and> run cfg cs (snd (AsyncInsert cfg src u obj k v s)) = Some s'
        \<and> waitForCompletion (UserHandle u) s' \<noteq> None \<longrightarrow>
      Lookup cfg src' obj k s' = Inr (Some v))"
proof (intro conjI impI)
  assume "live s obj"
  then show "fst (Insert cfg src obj k v s) = Inr ()"
    and "Lookup cfg src' obj k (snd (Insert cfg src obj k v s)) = Inr (Some v)"
    by (rule Insert_Lookup_sync)+
next
  let ?a = "snd (AsyncInsert cfg src u obj k v s)"
  assume a: "run cfg cs0 (init n) = Some s \<and> live s obj \<and> quiet s obj k
        \<and> list_all (\<lambda>c. \<not> call_writes obj k c) cs
        \<and> run cfg cs ?a = Some s'
        \<and> waitForCompletion (UserHandle u) s' \<noteq> None"
  then have i: "inv cfg s" using inv_reachable by blast
  then have f: "fresh s" by (simp add: inv_def)
  have "perform cfg (AsyncInsert_call 0 u obj k v) s = Some ?a"
    using a live_n_loc [of s obj] by (simp add: perform_def returned_def AsyncInsert_def)
  then have "inv cfg ?a" using i by (rule inv_perform)
  with a have "inv cfg s'" using inv_run by blast
  then have acc: "accounted s'" by (simp add: inv_def)
  have "insert_pending cfg obj k v u ?a"
    using a f by (simp add: insert_pending_start)
  with a have p: "insert_pending cfg obj k v u s'"
    using insert_pending_run [of cfg cs ?a s' obj k v u] by simp
  from a have "drained (UserHandle u) s'"
    by (simp add: waitForCompletion_def split: if_splits)
  with p acc show "Lookup cfg src' obj k s' = Inr (Some v)" by (rule insert_pending_drained)
qed

text \<open>
  The theorem at the key 5 and the value 7 on \<open>fresh_map\<close>, with the history
  \<open>then_other\<close> after the asynchronous insert.
\<close>

theorem Insert_then_Lookup_witness:
  "live fresh_map 0
   \<and> fst (Insert int_config 0 0 5 7 fresh_map) = Inr ()
   \<and> Lookup int_config 3 0 5 (snd (Insert int_config 0 0 5 7 fresh_map)) = Inr (Some 7)
   \<and> run int_config [Create_call 16] (init 4) = Some fresh_map
   \<and> quiet fresh_map 0 5
   \<and> list_all (\<lambda>c. \<not> call_writes 0 5 c) then_other
   \<and> run int_config then_other (snd (AsyncInsert int_config 0 0 0 5 7 fresh_map)) \<noteq> None
   \<and> waitForCompletion (UserHandle 0)
        (the (run int_config then_other (snd (AsyncInsert int_config 0 0 0 5 7 fresh_map)))) \<noteq> None
   \<and> Lookup int_config 3 0 5
        (the (run int_config then_other (snd (AsyncInsert int_config 0 0 0 5 7 fresh_map))))
       = Inr (Some 7)"
proof -
  let ?a = "snd (AsyncInsert int_config 0 0 0 5 7 fresh_map)"
  let ?s' = "the (run int_config then_other ?a)"
  have l: "live fresh_map 0" by (simp add: map_eval)
  have q: "quiet fresh_map 0 5"
    by (simp add: quiet_def writers_def unbuffered_def map_eval)
  have nw: "list_all (\<lambda>c. \<not> call_writes 0 5 c) then_other"
    by (simp add: then_other_def call_writes_def)
  have r0: "run int_config then_other ?a \<noteq> None"
    by (simp add: then_other_def map_eval)
  then have r: "run int_config then_other ?a = Some ?s'" by simp
  have w: "waitForCompletion (UserHandle 0) ?s' \<noteq> None"
    by (simp add: then_other_def map_eval)
  note t = Insert_then_Lookup [where s = fresh_map and obj = 0 and cfg = int_config and src = 0
      and k = 5 and v = 7 and src' = 3 and ?cs0.0 = "[Create_call 16]" and n = 4
      and cs = then_other and u = 0 and s' = ?s']
  show ?thesis
    using t l q nw r0 r w run_fresh_map by simp
qed

subsection \<open>Buffered inserts\<close>

lemma registries_perform:
  assumes "perform cfg c s = Some s'" "issue_only c"
  shows "registries s' = registries s"
  using assms by (cases rule: perform_cases) (simp_all add: issue_only_def)

lemma registries_run:
  assumes "run cfg cs s = Some s'" "list_all issue_only cs"
  shows "registries s' = registries s"
proof -
  have "registries s' = registries s"
    using assms(1)
  proof (rule run_invariant [where P = "\<lambda>t. registries t = registries s"])
    show "registries s = registries s" by simp
  next
    fix c t t'
    assume "c \<in> set cs" "registries t = registries s" "perform cfg c t = Some t'"
    with assms(2) show "registries t' = registries s"
      using registries_perform [of cfg c t t'] by (auto simp: list_all_iff)
  qed
  then show ?thesis .
qed

lemma registries_BufferedAsyncInsert:
  "registries (snd (BufferedAsyncInsert cfg src obj k v s)) = registries s"
  by (simp add: BufferedAsyncInsert_def Let_def)

lemma stored_registries:
  "registries s' = registries s \<Longrightarrow> stored cfg obj k s' = stored cfg obj k s"
  using Lookup_registries [of s' s cfg 0 obj k] by (simp add: stored_def)

lemma in_batch_inflight:
  "inflight s' = inflight s \<Longrightarrow> in_batch obj k s' = in_batch obj k s"
  by (simp add: in_batch_def)

lemma in_batch_dispatch: "in_batch obj k s \<Longrightarrow> in_batch obj k (dispatch h t s)"
  by (auto simp: in_batch_def)

lemma in_batch_flush1: "in_batch obj k s \<Longrightarrow> in_batch obj k (flush1 obj' st s)"
  by (auto simp: in_batch_def flush1_inflight)

lemma in_batch_fold_flush1: "in_batch obj k s \<Longrightarrow> in_batch obj k (fold (flush1 obj') sts s)"
  by (induction sts arbitrary: s) (simp_all add: in_batch_flush1)

lemma in_batch_fold_dispatch:
  "in_batch obj k s \<Longrightarrow> in_batch obj k (fold (\<lambda>x. dispatch h (g x)) xs s)"
  by (auto simp: in_batch_def)

lemma flush1_sends:
  assumes "k \<in> fst ` set (buffers s (obj, st))"
  shows "in_batch obj k (flush1 obj st s)"
proof -
  from assms have "buffers s (obj, st) \<noteq> []" by auto
  then have "(BufferHandle obj, BatchTask obj (snd st) (buffers s (obj, st)))
      \<in> set (inflight (flush1 obj st s))"
    by (simp add: flush1_inflight)
  with assms show ?thesis unfolding in_batch_def by force
qed

lemma flush1_keeps:
  assumes "k \<in> fst ` set (buffers s (obj, st))"
  shows "in_batch obj k (flush1 obj' st' s) \<or> k \<in> fst ` set (buffers (flush1 obj' st' s) (obj, st))"
proof (cases "obj' = obj \<and> st' = st")
  case True
  with flush1_sends [OF assms] show ?thesis by simp
next
  case False
  then have "buffers (flush1 obj' st' s) (obj, st) = buffers s (obj, st)"
    by (auto simp: flush1_buffers)
  with assms show ?thesis by simp
qed

lemma fold_flush1_sends:
  assumes "st \<in> set sts" "k \<in> fst ` set (buffers s (obj, st))"
  shows "in_batch obj k (fold (flush1 obj) sts s)"
  using assms
proof (induction sts arbitrary: s)
  case Nil
  then show ?case by simp
next
  case (Cons st' sts)
  show ?case
  proof (cases "st' = st")
    case True
    have "in_batch obj k (flush1 obj st s)" using Cons.prems(2) by (rule flush1_sends)
    then show ?thesis using True by (simp add: in_batch_fold_flush1)
  next
    case False
    with Cons.prems(1) have mem: "st \<in> set sts" by simp
    have "buffers (flush1 obj st' s) (obj, st) = buffers s (obj, st)"
      using False by (simp add: flush1_buffers)
    with Cons.prems(2) have "k \<in> fst ` set (buffers (flush1 obj st' s) (obj, st))" by simp
    from Cons.IH [OF mem this] show ?thesis by simp
  qed
qed

lemma flush_all_sends:
  assumes "bufs_ok cfg s" "\<not> unbuffered obj k s"
  shows "in_batch obj k (flush_all obj s)"
proof -
  from assms(2) obtain src tgt where k: "k \<in> fst ` set (buffers s (obj, src, tgt))"
    unfolding unbuffered_def by auto
  then have "buffers s (obj, src, tgt) \<noteq> []" by auto
  with assms(1) have "src < n_loc s" "tgt < n_loc s" unfolding bufs_ok_def by blast+
  then have "(src, tgt) \<in> set (List.product [0..<n_loc s] [0..<n_loc s])" by simp
  then show ?thesis unfolding flush_all_def using k by (rule fold_flush1_sends)
qed

lemma stored_local_apply:
  assumes "local_apply loc obj' f s = Inr s'" "stored cfg obj k s"
    and "\<And>sh v. shard_lookup sh k = Some v \<Longrightarrow> \<exists>v'. shard_lookup (f sh) k = Some v'"
  shows "stored cfg obj k s'"
proof (cases "obj' = obj \<and> loc = partition cfg (n_loc s) k")
  case True
  then have la: "local_apply (partition cfg (n_loc s) k) obj f s = Inr s'"
    using assms(1) by simp
  from assms(2) Lookup_resolved [OF la, of 0]
  obtain v where "shard_lookup (the ((registries s ! loc) obj')) k = Some v"
    using True by (auto simp: stored_def)
  from assms(3) [OF this] obtain v' where
    "shard_lookup (f (the ((registries s ! loc) obj'))) k = Some v'" by blast
  then show ?thesis
    using Lookup_local_apply [OF assms(1), of cfg 0 obj k] True by (simp add: stored_def)
next
  case False
  then show ?thesis
    using Lookup_local_apply [OF assms(1), of cfg 0 obj k] assms(2) by (auto simp: stored_def)
qed

lemma shard_lookup_insert_mono:
  "shard_lookup sh k = Some v \<Longrightarrow> \<exists>v'. shard_lookup (shard_insert k' v'' sh) k = Some v'"
  by (simp add: shard_lookup_insert)

lemma stored_run_task:
  assumes "stored cfg obj k s"
  shows "stored cfg obj k (run_task cfg t s)"
proof (cases t)
  case (InsertTask o' k' v')
  show ?thesis
  proof (cases "local_apply (partition cfg (n_loc s) k') o' (shard_insert k' v') s")
    case (Inl e)
    then have "run_task cfg t s = s" unfolding InsertTask by (simp add: run_task_def)
    with assms show ?thesis by simp
  next
    case (Inr s')
    have "stored cfg obj k s'"
      using Inr assms by (rule stored_local_apply) (rule shard_lookup_insert_mono)
    moreover have "run_task cfg t s = s'" unfolding InsertTask using Inr by (simp add: run_task_def)
    ultimately show ?thesis by simp
  qed
next
  case (BatchTask o' tgt kvs)
  show ?thesis
  proof (cases "local_apply tgt o' (insert_all kvs) s")
    case (Inl e)
    then have "run_task cfg t s = s" unfolding BatchTask by (simp add: run_task_def)
    with assms show ?thesis by simp
  next
    case (Inr s')
    have "stored cfg obj k s'"
      using Inr assms by (rule stored_local_apply) (rule shard_lookup_insert_all_mono)
    moreover have "run_task cfg t s = s'" unfolding BatchTask using Inr by (simp add: run_task_def)
    ultimately show ?thesis by simp
  qed
next
  case (KeysTask o' loc)
  have "registries (run_task cfg (KeysTask o' loc) s) = registries s"
    by (simp add: run_task_def split: sum.splits)
  then have "stored cfg obj k (run_task cfg (KeysTask o' loc) s) = stored cfg obj k s"
    by (rule stored_registries)
  with KeysTask assms show ?thesis by simp
qed

lemma stored_run_batch:
  assumes "live s obj" "tgt < n_loc s" "partition cfg (n_loc s) k = tgt" "k \<in> fst ` set kvs"
  shows "stored cfg obj k (run_task cfg (BatchTask obj tgt kvs) s)"
proof -
  from live_resolve [OF assms(1,2)] obtain sh where sh: "resolve s tgt obj = Inr sh" by blast
  then obtain s' where la: "local_apply tgt obj (insert_all kvs) s = Inr s'"
    by (simp add: local_apply_def)
  from shard_lookup_insert_all_in [OF assms(4)] obtain v where
    "shard_lookup (insert_all kvs (the ((registries s ! tgt) obj))) k = Some v" by blast
  then have "stored cfg obj k s'"
    using Lookup_local_apply [OF la, of cfg 0 obj k] assms(3) by (simp add: stored_def)
  with la show ?thesis by (simp add: run_task_def)
qed

lemma tracked_perform:
  assumes "perform cfg c s = Some s'" "c \<noteq> Destroy_call obj" "tracked b cfg obj k s"
  shows "tracked b cfg obj k s'"
proof -
  from assms(3) have l: "live s obj" and i: "inv cfg s"
    and d: "b \<and> \<not> unbuffered obj k s \<or> in_batch obj k s \<or> stored cfg obj k s"
    by (simp_all add: tracked_def)
  have l': "live s' obj" using assms(1,2) l by (rule live_perform)
  have i': "inv cfg s'" using assms(1) i by (rule inv_perform)
  have f: "fresh s" and to: "tasks_ok cfg s" using i by (simp_all add: inv_def)
  have same: "tracked b cfg obj k s'"
    if "unbuffered obj k s' \<Longrightarrow> unbuffered obj k s \<or> in_batch obj k s'"
      "in_batch obj k s \<Longrightarrow> in_batch obj k s' \<or> stored cfg obj k s'"
      "stored cfg obj k s \<Longrightarrow> stored cfg obj k s'"
    using that l' i' d unfolding tracked_def by blast
  have frame: "tracked b cfg obj k s'"
    if "buffers s' = buffers s" "in_batch obj k s \<Longrightarrow> in_batch obj k s'"
      "stored cfg obj k s' = stored cfg obj k s"
  proof (rule same)
    show "unbuffered obj k s' \<Longrightarrow> unbuffered obj k s \<or> in_batch obj k s'"
      using unbuffered_buffers [OF that(1), of obj k] by simp
    show "in_batch obj k s \<Longrightarrow> in_batch obj k s' \<or> stored cfg obj k s'"
      using that(2) by simp
    show "stored cfg obj k s \<Longrightarrow> stored cfg obj k s'"
      using that(3) by simp
  qed
  from assms(1) show ?thesis
  proof (cases rule: perform_cases)
    case (Create hint)
    have "obj \<noteq> next_oid s" using live_fresh [OF l f] by simp
    then have "Lookup cfg 0 obj k s' = Lookup cfg 0 obj k s"
      unfolding Create by (rule Lookup_Create)
    then have st: "stored cfg obj k s' = stored cfg obj k s" by (simp add: stored_def)
    have bf: "buffers s' = buffers s" unfolding Create by simp
    have "inflight s' = inflight s" unfolding Create by simp
    then have "in_batch obj k s' = in_batch obj k s" by (rule in_batch_inflight)
    then show ?thesis using frame [OF bf _ st] by simp
  next
    case (Destroy o')
    with assms(2) have "o' \<noteq> obj" by simp
    then have "Lookup cfg 0 obj k s' = Lookup cfg 0 obj k s"
      unfolding Destroy by (rule Lookup_Destroy)
    then have st: "stored cfg obj k s' = stored cfg obj k s" by (simp add: stored_def)
    have bf: "buffers s' = buffers s" unfolding Destroy by simp
    have "inflight s' = inflight s" unfolding Destroy by simp
    then have "in_batch obj k s' = in_batch obj k s" by (rule in_batch_inflight)
    then show ?thesis using frame [OF bf _ st] by simp
  next
    case (Insert src o' k' v')
    have bf: "buffers s' = buffers s" by (rule local_apply_fields(3) [OF Insert(3)])
    have "inflight s' = inflight s" by (rule local_apply_fields(2) [OF Insert(3)])
    then have ib: "in_batch obj k s' = in_batch obj k s" by (rule in_batch_inflight)
    show ?thesis
    proof (rule same)
      show "unbuffered obj k s' \<Longrightarrow> unbuffered obj k s \<or> in_batch obj k s'"
        using unbuffered_buffers [OF bf, of obj k] by simp
      show "in_batch obj k s \<Longrightarrow> in_batch obj k s' \<or> stored cfg obj k s'"
        using ib by simp
      assume "stored cfg obj k s"
      with Insert(3) show "stored cfg obj k s'"
        by (rule stored_local_apply) (rule shard_lookup_insert_mono)
    qed
  next
    case (AsyncInsert src u o' k' v')
    have bf: "buffers s' = buffers s" unfolding AsyncInsert by simp
    have st: "stored cfg obj k s' = stored cfg obj k s"
      unfolding AsyncInsert by (rule stored_registries) simp
    have "in_batch obj k s \<Longrightarrow> in_batch obj k s'"
      unfolding AsyncInsert by (rule in_batch_dispatch)
    then show ?thesis using frame [OF bf _ st] by simp
  next
    case (Enqueue src o' k' v')
    have st: "stored cfg obj k s' = stored cfg obj k s"
      unfolding Enqueue by (rule stored_registries) simp
    have "inflight s' = inflight s" unfolding Enqueue by simp
    then have ib: "in_batch obj k s' = in_batch obj k s" by (rule in_batch_inflight)
    show ?thesis
    proof (rule same)
      assume u': "unbuffered obj k s'"
      have "unbuffered obj k s"
        unfolding unbuffered_def
      proof
        fix st
        have "k \<notin> fst ` set (buffers s' (obj, st))"
          using u' unfolding unbuffered_def by blast
        moreover have "set (buffers s (obj, st)) \<subseteq> set (buffers s' (obj, st))"
          unfolding Enqueue by auto
        ultimately show "k \<notin> fst ` set (buffers s (obj, st))" by blast
      qed
      then show "unbuffered obj k s \<or> in_batch obj k s'" by simp
    next
      show "in_batch obj k s \<Longrightarrow> in_batch obj k s' \<or> stored cfg obj k s'"
        using ib by simp
      show "stored cfg obj k s \<Longrightarrow> stored cfg obj k s'" using st by simp
    qed
  next
    case (EnqueueFlush src o' k' v')
    let ?b = "(o', src, partition cfg (n_loc s) k')"
    let ?s1 = "enqueue ?b (k', v') s"
    have st: "stored cfg obj k s' = stored cfg obj k s"
      unfolding EnqueueFlush by (rule stored_registries) simp
    have "inflight ?s1 = inflight s" by simp
    then have ib1: "in_batch obj k ?s1 = in_batch obj k s" by (rule in_batch_inflight)
    show ?thesis
    proof (rule same)
      assume u': "unbuffered obj k s'"
      show "unbuffered obj k s \<or> in_batch obj k s'"
      proof (rule disjCI)
        assume nb: "\<not> in_batch obj k s'"
        show "unbuffered obj k s"
        proof (rule ccontr)
          assume "\<not> unbuffered obj k s"
          then obtain st where "k \<in> fst ` set (buffers s (obj, st))"
            unfolding unbuffered_def by blast
          then have "k \<in> fst ` set (buffers ?s1 (obj, st))" by auto
          from flush1_keeps [OF this, of o' "(src, partition cfg (n_loc s) k')"] nb
          have "k \<in> fst ` set (buffers s' (obj, st))" unfolding EnqueueFlush by simp
          with u' show False unfolding unbuffered_def by blast
        qed
      qed
    next
      assume "in_batch obj k s"
      then have "in_batch obj k ?s1" using ib1 by simp
      then have "in_batch obj k s'" unfolding EnqueueFlush by (rule in_batch_flush1)
      then show "in_batch obj k s' \<or> stored cfg obj k s'" by simp
    next
      show "stored cfg obj k s \<Longrightarrow> stored cfg obj k s'" using st by simp
    qed
  next
    case (Flush o')
    have st: "stored cfg obj k s' = stored cfg obj k s"
      unfolding Flush by (rule stored_registries) simp
    have keep: "\<not> unbuffered obj k t \<Longrightarrow>
        in_batch obj k (fold (flush1 o') sts t) \<or> \<not> unbuffered obj k (fold (flush1 o') sts t)"
      for sts t
    proof (induction sts arbitrary: t)
      case Nil
      then show ?case by simp
    next
      case (Cons st' sts)
      from Cons.prems obtain st where "k \<in> fst ` set (buffers t (obj, st))"
        unfolding unbuffered_def by blast
      from flush1_keeps [OF this, of o' st']
      have "in_batch obj k (flush1 o' st' t) \<or> \<not> unbuffered obj k (flush1 o' st' t)"
        unfolding unbuffered_def by blast
      then show ?case
      proof
        assume "in_batch obj k (flush1 o' st' t)"
        then have "in_batch obj k (fold (flush1 o') sts (flush1 o' st' t))"
          by (rule in_batch_fold_flush1)
        then show ?thesis by simp
      next
        assume "\<not> unbuffered obj k (flush1 o' st' t)"
        from Cons.IH [OF this] show ?thesis by simp
      qed
    qed
    show ?thesis
    proof (rule same)
      assume u': "unbuffered obj k s'"
      show "unbuffered obj k s \<or> in_batch obj k s'"
        using keep [of s "List.product [0..<n_loc s] [0..<n_loc s]"] u'
        unfolding Flush flush_all_def by blast
    next
      assume "in_batch obj k s"
      then have "in_batch obj k s'"
        unfolding Flush flush_all_def by (rule in_batch_fold_flush1)
      then show "in_batch obj k s' \<or> stored cfg obj k s'" by simp
    next
      show "stored cfg obj k s \<Longrightarrow> stored cfg obj k s'" using st by simp
    qed
  next
    case (ForEach u o')
    have bf: "buffers s' = buffers s" unfolding ForEach by simp
    have st: "stored cfg obj k s' = stored cfg obj k s"
      unfolding ForEach by (rule stored_registries) simp
    have "in_batch obj k s \<Longrightarrow> in_batch obj k s'"
      unfolding ForEach by (rule in_batch_fold_dispatch)
    then show ?thesis using frame [OF bf _ st] by simp
  next
    case (Wait h)
    with assms(3) show ?thesis by simp
  next
    case (Exec i)
    let ?h = "fst (inflight s ! i)" and ?t = "snd (inflight s ! i)"
    let ?r = "remove_task i s"
    have bf: "buffers s' = buffers s" unfolding Exec by simp
    have sr: "stored cfg obj k ?r = stored cfg obj k s" by (rule stored_registries) simp
    have st': "stored cfg obj k s' = stored cfg obj k (run_task cfg ?t ?r)"
      unfolding Exec by (rule stored_registries) simp
    have fl': "inflight s' = take i (inflight s) @ drop (Suc i) (inflight s)"
      unfolding Exec by simp
    show ?thesis
    proof (rule same)
      show "unbuffered obj k s' \<Longrightarrow> unbuffered obj k s \<or> in_batch obj k s'"
        using unbuffered_buffers [OF bf, of obj k] by simp
    next
      assume "stored cfg obj k s"
      then have "stored cfg obj k ?r" using sr by simp
      then have "stored cfg obj k (run_task cfg ?t ?r)" by (rule stored_run_task)
      then show "stored cfg obj k s'" using st' by simp
    next
      assume "in_batch obj k s"
      then obtain p tgt kvs where p: "p \<in> set (inflight s)" "snd p = BatchTask obj tgt kvs"
        "k \<in> fst ` set kvs" unfolding in_batch_def by blast
      show "in_batch obj k s' \<or> stored cfg obj k s'"
      proof (cases "inflight s ! i = p")
        case True
        have "task_ok cfg (n_loc s) (fst p) (snd p)"
          using to p(1) by (simp add: tasks_ok_def list_all_iff)
        then have tgt: "tgt < n_loc ?r" "partition cfg (n_loc ?r) k = tgt"
          using p(3) unfolding p(2) by (auto simp: task_ok_def list_all_iff)
        have "live ?r obj" using l by (simp add: live_def)
        then have "stored cfg obj k (run_task cfg (BatchTask obj tgt kvs) ?r)"
          using tgt p(3) by (rule stored_run_batch)
        then have "stored cfg obj k (run_task cfg ?t ?r)" using True p(2) by simp
        then show ?thesis using st' by simp
      next
        case False
        have "set (inflight s)
            = set (take i (inflight s) @ inflight s ! i # drop (Suc i) (inflight s))"
          using arg_cong [OF id_take_nth_drop [OF Exec(2)], of set] .
        then have "set (inflight s) = set (inflight s') \<union> {inflight s ! i}"
          unfolding fl' by auto
        with p(1) False have "p \<in> set (inflight s')" by auto
        with p(2,3) show ?thesis unfolding in_batch_def by blast
      qed
    qed
  qed
qed

lemma tracked_run:
  assumes "run cfg cs s = Some s'" "Destroy_call obj \<notin> set cs" "tracked b cfg obj k s"
  shows "tracked b cfg obj k s'"
  using assms(1,3)
proof (rule run_invariant)
  fix c t t'
  assume "c \<in> set cs" "tracked b cfg obj k t" "perform cfg c t = Some t'"
  with assms(2) show "tracked b cfg obj k t'"
    using tracked_perform [of cfg c t t' obj b k] by auto
qed

lemma tracked_flush_all:
  assumes "tracked True cfg obj k s"
  shows "tracked False cfg obj k (flush_all obj s)"
proof -
  from assms have l: "live s obj" and i: "inv cfg s" by (simp_all add: tracked_def)
  have p: "perform cfg (Flush_call obj) s = Some (flush_all obj s)"
    using l by (simp add: perform_def)
  have t: "tracked True cfg obj k (flush_all obj s)"
    using p _ assms by (rule tracked_perform) simp
  have "in_batch obj k (flush_all obj s) \<or> stored cfg obj k (flush_all obj s)"
  proof (cases "unbuffered obj k s")
    case True
    with assms have "in_batch obj k s \<or> stored cfg obj k s" by (simp add: tracked_def)
    moreover have "in_batch obj k s \<Longrightarrow> in_batch obj k (flush_all obj s)"
      unfolding flush_all_def by (rule in_batch_fold_flush1)
    moreover have "stored cfg obj k (flush_all obj s) = stored cfg obj k s"
      by (rule stored_registries) simp
    ultimately show ?thesis by blast
  next
    case False
    have "bufs_ok cfg s" using i by (simp add: inv_def)
    then have "in_batch obj k (flush_all obj s)" using False by (rule flush_all_sends)
    then show ?thesis by simp
  qed
  with t show ?thesis by (simp add: tracked_def)
qed

lemma tracked_drained:
  assumes "tracked False cfg obj k s" "drained (BufferHandle obj) s"
  shows "\<exists>v. Lookup cfg src obj k s = Inr (Some v)"
proof -
  from assms(1) have i: "inv cfg s" by (simp add: tracked_def)
  then have acc: "accounted s" and to: "tasks_ok cfg s" by (simp_all add: inv_def)
  have none: "inflight_count (BufferHandle obj) s = 0" using acc assms(2) by (rule accounted_drained)
  have "\<not> in_batch obj k s"
  proof
    assume "in_batch obj k s"
    then obtain p tgt kvs where p: "p \<in> set (inflight s)" "snd p = BatchTask obj tgt kvs"
      unfolding in_batch_def by blast
    have "task_ok cfg (n_loc s) (fst p) (snd p)"
      using to p(1) by (simp add: tasks_ok_def list_all_iff)
    with p(2) have "fst p = BufferHandle obj" by (simp add: task_ok_def)
    with p(1) have "filter (\<lambda>p. fst p = BufferHandle obj) (inflight s) \<noteq> []"
      by (auto simp: filter_empty_conv)
    with none show False by (simp add: inflight_count_def)
  qed
  with assms(1) have "stored cfg obj k s" by (simp add: tracked_def)
  then show ?thesis using Lookup_src [of cfg src obj k s 0] by (simp add: stored_def)
qed

lemma tracked_start:
  assumes "inv cfg s" "live s obj" "src < n_loc s"
  shows "tracked True cfg obj k (snd (BufferedAsyncInsert cfg src obj k v s))"
proof -
  let ?a = "snd (BufferedAsyncInsert cfg src obj k v s)"
  let ?b = "(obj, src, partition cfg (n_loc s) k)"
  have p: "perform cfg (BufferedAsyncInsert_call src obj k v) s = Some ?a"
    using assms(2,3) by (simp add: perform_def returned_def BufferedAsyncInsert_def Let_def)
  have i': "inv cfg ?a" using p assms(1) by (rule inv_perform)
  have l': "live ?a obj" using p _ assms(2) by (rule live_perform) simp
  have k: "k \<in> fst ` set (buffers (enqueue ?b (k, v) s) ?b)" by simp
  have "\<not> unbuffered obj k ?a \<or> in_batch obj k ?a"
  proof (cases "batch_capacity cfg \<le> length (buffers (enqueue ?b (k, v) s) ?b)")
    case True
    then have a: "?a = flush1 obj (src, partition cfg (n_loc s) k) (enqueue ?b (k, v) s)"
      using assms(2) by (simp add: BufferedAsyncInsert_def Let_def)
    show ?thesis unfolding a using flush1_sends [OF k] by simp
  next
    case False
    then have a: "?a = enqueue ?b (k, v) s"
      using assms(2) by (simp add: BufferedAsyncInsert_def Let_def)
    show ?thesis unfolding a unbuffered_def using k by blast
  qed
  with i' l' show ?thesis unfolding tracked_def by blast
qed

text \<open>
  Claim C4: \<open>BufferedAsyncInsert\<close> changes no shard, so that lookups and traversals
  on every locality see what they saw before it; nor do the other calls that only
  issue operations, a flush among them: the entry becomes visible by a step of the
  runtime only. When the insert was made in a state that a history has reached, on a
  live map that is not destroyed afterwards, then after any calls, the flush of the
  buffers and any further calls, once the wait for the handle of the map returns, a
  lookup of the key from any locality finds a value.
\<close>

theorem buffered_visibility:
  "registries (snd (BufferedAsyncInsert cfg src obj k v s)) = registries s
   \<and> Lookup cfg src' obj k' (snd (BufferedAsyncInsert cfg src obj k v s)) = Lookup cfg src' obj k' s
   \<and> resolve (snd (BufferedAsyncInsert cfg src obj k v s)) loc obj = resolve s loc obj
   \<and> (list_all issue_only cs \<and> run cfg cs (snd (BufferedAsyncInsert cfg src obj k v s)) = Some s1 \<longrightarrow>
        Lookup cfg src' obj k' s1 = Lookup cfg src' obj k' s
        \<and> resolve s1 loc obj = resolve s loc obj)
   \<and> (run cfg cs0 (init n) = Some s \<and> src < n_loc s \<and> live s obj
        \<and> Destroy_call obj \<notin> set cs1 \<union> set cs2
        \<and> run cfg (cs1 @ Flush_call obj # cs2) (snd (BufferedAsyncInsert cfg src obj k v s)) = Some s'
        \<and> waitForCompletion (BufferHandle obj) s' \<noteq> None \<longrightarrow>
        (\<exists>v'. Lookup cfg src' obj k s' = Inr (Some v')))"
proof (intro conjI impI)
  let ?a = "snd (BufferedAsyncInsert cfg src obj k v s)"
  have r: "registries ?a = registries s" by (rule registries_BufferedAsyncInsert)
  show "registries ?a = registries s" by (rule r)
  show "Lookup cfg src' obj k' ?a = Lookup cfg src' obj k' s"
    using r by (rule Lookup_registries)
  show "resolve ?a loc obj = resolve s loc obj"
    using r by (simp add: resolve_def n_loc_def)
  {
    assume a: "list_all issue_only cs \<and> run cfg cs ?a = Some s1"
    then have r1: "registries s1 = registries s" using registries_run [of cfg cs ?a s1] r by simp
    show "Lookup cfg src' obj k' s1 = Lookup cfg src' obj k' s"
      using r1 by (rule Lookup_registries)
    show "resolve s1 loc obj = resolve s loc obj"
      using r1 by (simp add: resolve_def n_loc_def)
  }
  assume a: "run cfg cs0 (init n) = Some s \<and> src < n_loc s \<and> live s obj
        \<and> Destroy_call obj \<notin> set cs1 \<union> set cs2
        \<and> run cfg (cs1 @ Flush_call obj # cs2) ?a = Some s'
        \<and> waitForCompletion (BufferHandle obj) s' \<noteq> None"
  then have i: "inv cfg s" using inv_reachable by blast
  from a obtain s2 s3 where r1: "run cfg cs1 ?a = Some s2"
    and p: "perform cfg (Flush_call obj) s2 = Some s3" and r2: "run cfg cs2 s3 = Some s'"
    by (auto simp: run_append split: option.splits)
  have "tracked True cfg obj k ?a" using i a by (simp add: tracked_start)
  with r1 a have t2: "tracked True cfg obj k s2" using tracked_run [of cfg cs1 ?a s2 obj True k] by simp
  from p have "s3 = flush_all obj s2" by (simp add: perform_def split: if_splits)
  with t2 have "tracked False cfg obj k s3" by (simp add: tracked_flush_all)
  with r2 a have "tracked False cfg obj k s'" using tracked_run [of cfg cs2 s3 s' obj False k] by simp
  moreover from a have "drained (BufferHandle obj) s'"
    by (simp add: waitForCompletion_def split: if_splits)
  ultimately show "\<exists>v'. Lookup cfg src' obj k s' = Inr (Some v')" by (rule tracked_drained)
qed

lemma run_buffered_then:
  "run int_config buffered_then (snd (BufferedAsyncInsert int_config 0 0 5 7 fresh_map)) \<noteq> None"
  by (simp add: buffered_then_def map_eval)

lemma run_flushed_then:
  "run int_config (buffered_then @ Flush_call 0 # flushed_then)
     (snd (BufferedAsyncInsert int_config 0 0 5 7 fresh_map)) \<noteq> None"
  by (simp add: buffered_then_def flushed_then_def map_eval)

lemma wait_flushed_then:
  "waitForCompletion (BufferHandle 0)
     (the (run int_config (buffered_then @ Flush_call 0 # flushed_then)
        (snd (BufferedAsyncInsert int_config 0 0 5 7 fresh_map)))) \<noteq> None"
  by (simp add: buffered_then_def flushed_then_def map_eval)

text \<open>
  The theorem at the key 5 and the value 7 on \<open>fresh_map\<close>: the lookup still finds
  nothing after the history \<open>buffered_then\<close>, and finds a value after the flush and
  the history \<open>flushed_then\<close>.
\<close>

theorem buffered_visibility_witness:
  "list_all issue_only buffered_then
   \<and> run int_config buffered_then (snd (BufferedAsyncInsert int_config 0 0 5 7 fresh_map)) \<noteq> None
   \<and> Lookup int_config 3 0 5
        (the (run int_config buffered_then (snd (BufferedAsyncInsert int_config 0 0 5 7 fresh_map))))
       = Inr None
   \<and> run int_config [Create_call 16] (init 4) = Some fresh_map
   \<and> 0 < n_loc fresh_map \<and> live fresh_map 0
   \<and> Destroy_call 0 \<notin> set buffered_then \<union> set flushed_then
   \<and> run int_config (buffered_then @ Flush_call 0 # flushed_then)
        (snd (BufferedAsyncInsert int_config 0 0 5 7 fresh_map)) \<noteq> None
   \<and> waitForCompletion (BufferHandle 0)
        (the (run int_config (buffered_then @ Flush_call 0 # flushed_then)
           (snd (BufferedAsyncInsert int_config 0 0 5 7 fresh_map)))) \<noteq> None
   \<and> (\<exists>v'. Lookup int_config 3 0 5
        (the (run int_config (buffered_then @ Flush_call 0 # flushed_then)
           (snd (BufferedAsyncInsert int_config 0 0 5 7 fresh_map)))) = Inr (Some v'))"
proof -
  let ?a = "snd (BufferedAsyncInsert int_config 0 0 5 7 fresh_map)"
  let ?s1 = "the (run int_config buffered_then ?a)"
  let ?s' = "the (run int_config (buffered_then @ Flush_call 0 # flushed_then) ?a)"
  have io: "list_all issue_only buffered_then"
    by (simp add: buffered_then_def issue_only_def)
  have r1: "run int_config buffered_then ?a = Some ?s1"
    using run_buffered_then by (rule run_Some_the)
  have r: "run int_config (buffered_then @ Flush_call 0 # flushed_then) ?a = Some ?s'"
    using run_flushed_then by (rule run_Some_the)
  have n: "0 < n_loc fresh_map" and l: "live fresh_map 0" by (simp_all add: map_eval)
  have nd: "Destroy_call 0 \<notin> set buffered_then \<union> set flushed_then"
    by (simp add: buffered_then_def flushed_then_def)
  have l0: "Lookup int_config 3 0 5 fresh_map = Inr None" by (simp add: map_eval)
  note t = buffered_visibility [where cfg = int_config and src = 0 and obj = 0 and k = 5
      and v = 7 and s = fresh_map and src' = 3 and k' = 5 and loc = 0 and cs = buffered_then
      and ?s1.0 = ?s1 and ?cs0.0 = "[Create_call 16]" and n = 4 and ?cs1.0 = buffered_then
      and ?cs2.0 = flushed_then and s' = ?s']
  have none: "Lookup int_config 3 0 5 ?s1 = Inr None"
    using t io r1 l0 by simp
  have some: "\<exists>v'. Lookup int_config 3 0 5 ?s' = Inr (Some v')"
    using t run_fresh_map n l nd r wait_flushed_then by blast
  show ?thesis
    using io run_buffered_then none run_fresh_map n l nd run_flushed_then wait_flushed_then some
    by blast
qed

subsection \<open>The traversal of the keys\<close>

lemma sum_list_remove_nth:
  fixes f :: "'a \<Rightarrow> 'b::comm_monoid_add"
  assumes "i < length xs"
  shows "sum_list (map f xs) = f (xs ! i) + sum_list (map f (take i xs @ drop (Suc i) xs))"
proof -
  have "sum_list (map f xs) = sum_list (map f (take i xs @ xs ! i # drop (Suc i) xs))"
    using arg_cong [OF id_take_nth_drop [OF assms], of "\<lambda>l. sum_list (map f l)"] .
  then show ?thesis by (simp add: add.left_commute add.assoc)
qed

lemma sum_list_update_nth:
  fixes g :: "'a \<Rightarrow> 'b::comm_monoid_add"
  assumes "i < length xs"
  shows "sum_list (map g (xs[i := y])) + g (xs ! i) = sum_list (map g xs) + g y"
proof -
  have a: "sum_list (map g xs) = g (xs ! i) + sum_list (map g (take i xs @ drop (Suc i) xs))"
    using assms by (rule sum_list_remove_nth)
  have "xs[i := y] = take i xs @ y # drop (Suc i) xs"
    using assms by (rule upd_conv_take_nth_drop)
  then have "sum_list (map g (xs[i := y])) = g y + sum_list (map g (take i xs @ drop (Suc i) xs))"
    by (simp add: add.left_commute add.assoc)
  with a show ?thesis by (simp add: add.commute add.left_commute add.assoc)
qed

lemma keys_of_registries: "registries s' = registries s \<Longrightarrow> keys_of obj s' = keys_of obj s"
  by (simp add: keys_of_def)

lemma keys_of_local_apply:
  assumes "local_apply loc obj f s = Inr s'"
  shows "keys_of obj s' + mset (shard_keys (the ((registries s ! loc) obj)))
       = keys_of obj s + mset (shard_keys (f (the ((registries s ! loc) obj))))"
proof -
  from local_apply_fields(8) [OF assms] obtain sh where
    sh: "(registries s ! loc) obj = Some sh"
    and r: "registries s' = (registries s)[loc := (registries s ! loc)(obj \<mapsto> f sh)]"
    by blast
  have loc: "loc < length (registries s)"
    using local_apply_fields(7) [OF assms] by (simp add: n_loc_def)
  let ?g = "\<lambda>r. case r obj of None \<Rightarrow> {#} | Some sh \<Rightarrow> mset (shard_keys sh)"
  have "sum_list (map ?g ((registries s)[loc := (registries s ! loc)(obj \<mapsto> f sh)]))
        + ?g (registries s ! loc)
      = sum_list (map ?g (registries s)) + ?g ((registries s ! loc)(obj \<mapsto> f sh))"
    using loc by (rule sum_list_update_nth)
  then show ?thesis unfolding keys_of_def r using sh by simp
qed

lemma shard_keys_insert:
  "shard_keys (shard_insert k v sh)
     = (if k \<in> set (shard_keys sh) then shard_keys sh else shard_keys sh @ [k])"
  by (simp add: shard_keys_def shard_insert_def update_keys)

lemma shard_keys_sub:
  assumes "(registries s ! loc) obj = Some sh" "loc < n_loc s"
  shows "mset (shard_keys sh) \<subseteq># keys_of obj s"
proof -
  let ?g = "\<lambda>r. case r obj of None \<Rightarrow> {#} | Some sh \<Rightarrow> mset (shard_keys sh)"
  have "sum_list (map ?g (registries s)) = ?g (registries s ! loc)
      + sum_list (map ?g (take loc (registries s) @ drop (Suc loc) (registries s)))"
    using assms(2) unfolding n_loc_def by (rule sum_list_remove_nth)
  then show ?thesis unfolding keys_of_def using assms(1) by simp
qed

lemma pending_keys_dispatch:
  "pending_keys (dispatch h t s) = pending_keys s + task_key t"
  by (simp add: pending_keys_def)

lemma inserting_issue:
  assumes "inserting obj u m j s" "j < m"
  shows "inserting obj u m (Suc j) (dispatch (UserHandle u) (InsertTask obj (int j) (int j)) s)"
proof -
  let ?s' = "dispatch (UserHandle u) (InsertTask obj (int j) (int j)) s"
  from assms(1) have l: "live s obj" and a: "accounted s" and v: "visited s = []"
    and fl: "list_all (\<lambda>p. fst p = UserHandle u \<and> (\<exists>k. snd p = InsertTask obj k k)) (inflight s)"
    and e: "pending_keys s + keys_of obj s = mset (map int [0..<j])"
    by (simp_all add: inserting_def)
  have "live ?s' obj" using l by (simp add: live_def)
  moreover have "accounted ?s'" using a by (rule accounted_dispatch)
  moreover have "keys_of obj ?s' = keys_of obj s" by (rule keys_of_registries) simp
  then have "pending_keys ?s' + keys_of obj ?s' = mset (map int [0..<Suc j])"
    using e by (simp add: pending_keys_dispatch task_key_def add.commute add.left_commute)
  ultimately show ?thesis
    using v fl assms(2) by (simp add: inserting_def)
qed

lemma inserting_exec:
  assumes "inserting obj u m j s" "i < length (inflight s)"
  shows "inserting obj u m j
     (complete (fst (inflight s ! i)) (run_task cfg (snd (inflight s ! i)) (remove_task i s)))"
proof -
  let ?r = "remove_task i s"
  let ?s' = "complete (fst (inflight s ! i)) (run_task cfg (snd (inflight s ! i)) ?r)"
  from assms(1) have l: "live s obj" and a: "accounted s" and v: "visited s = []" and jm: "j \<le> m"
    and fl: "list_all (\<lambda>p. fst p = UserHandle u \<and> (\<exists>k. snd p = InsertTask obj k k)) (inflight s)"
    and e: "pending_keys s + keys_of obj s = mset (map int [0..<j])"
    by (simp_all add: inserting_def)
  from fl assms(2) obtain k where t: "snd (inflight s ! i) = InsertTask obj k k"
    by (auto simp: list_all_length)
  let ?loc = "partition cfg (n_loc ?r) k"
  have lr: "live ?r obj" using l by (simp add: live_def)
  have loc: "?loc < n_loc ?r" using live_n_loc [OF lr] by (rule partition_less)
  from live_resolve [OF lr loc] obtain sh where
    res: "resolve ?r ?loc obj = Inr sh" and sh: "(registries ?r ! ?loc) obj = Some sh" by blast
  then obtain s1 where la: "local_apply ?loc obj (shard_insert k k) ?r = Inr s1"
    by (simp add: local_apply_def)
  have rt: "run_task cfg (snd (inflight s ! i)) ?r = s1"
    unfolding t using la by (simp add: run_task_def)
  have pk: "pending_keys s = {#k#} + pending_keys ?r"
    unfolding pending_keys_def
    using sum_list_remove_nth [OF assms(2), of "\<lambda>p. task_key (snd p)"] t
    by (simp add: task_key_def)
  define M where "M = mset (map int [0..<j])"
  have c1: "1 \<le> count (pending_keys s) k" using pk by simp
  have "distinct (map int [0..<j])" by (simp add: distinct_map inj_on_def)
  then have c2: "count M k \<le> 1"
    unfolding M_def by (simp add: distinct_count_atmost_1)
  have pm: "pending_keys s + keys_of obj s = M" unfolding M_def by (rule e)
  have "count (pending_keys s + keys_of obj s) k = count M k" by (simp only: pm)
  then have "count (pending_keys s) k + count (keys_of obj s) k = count M k" by simp
  with c1 c2 have "count (keys_of obj s) k = 0" by linarith
  moreover have "mset (shard_keys sh) \<subseteq># keys_of obj ?r"
    using sh loc by (rule shard_keys_sub)
  moreover have kr: "keys_of obj ?r = keys_of obj s" by (rule keys_of_registries) simp
  ultimately have "count (mset (shard_keys sh)) k = 0"
    by (metis le_zero_eq mset_subset_eq_count)
  then have nk: "k \<notin> set (shard_keys sh)" by (simp add: count_eq_zero_iff)
  have "keys_of obj s1 + mset (shard_keys sh)
      = keys_of obj ?r + mset (shard_keys (shard_insert k k sh))"
    using keys_of_local_apply [OF la] sh by simp
  then have k1: "keys_of obj s1 = keys_of obj s + {#k#}"
    using nk kr by (simp add: shard_keys_insert)
  have e': "pending_keys ?s' + keys_of obj ?s' = mset (map int [0..<j])"
  proof -
    have "pending_keys ?s' = pending_keys ?r"
      by (simp add: pending_keys_def)
    moreover have "keys_of obj ?s' = keys_of obj s1"
      unfolding rt by (rule keys_of_registries) simp
    ultimately show ?thesis using pk k1 e by (simp add: add.commute add.left_commute)
  qed
  have "live s1 obj" using lr by (simp only: live_local_apply [OF la])
  then have l': "live ?s' obj" by (simp add: live_def rt)
  have a': "accounted ?s'" using a assms(2) by (rule accounted_exec)
  have v': "visited ?s' = []"
    using v local_apply_fields(4) [OF la] by (simp add: rt)
  have "set (inflight ?s') \<subseteq> set (inflight s)"
    using set_remove_nth [of i "inflight s"] by simp
  with fl have fl': "list_all (\<lambda>p. fst p = UserHandle u \<and> (\<exists>k. snd p = InsertTask obj k k))
      (inflight ?s')"
    unfolding list_all_iff by blast
  show ?thesis using l' a' v' jm fl' e' unfolding inserting_def by blast
qed

lemma is_exec_cases: "is_exec c \<Longrightarrow> \<exists>i. c = Exec i"
  by (cases c) (simp_all add: is_exec_def)

lemma inserting_run:
  assumes "run cfg cs s = Some s'" "inserting obj u m j s"
    "filter (\<lambda>c. \<not> is_exec c) cs = map (\<lambda>i. AsyncInsert_call src u obj (int i) (int i)) [j..<m]"
  shows "inserting obj u m m s'"
  using assms
proof (induction cs arbitrary: s j)
  case Nil
  then have "[j..<m] = []" by simp
  then have "m \<le> j" by auto
  moreover from Nil.prems(2) have "j \<le> m" by (simp add: inserting_def)
  ultimately have "j = m" by simp
  with Nil show ?case by simp
next
  case (Cons c cs)
  from Cons.prems(1) obtain s1 where p: "perform cfg c s = Some s1" and r: "run cfg cs s1 = Some s'"
    by (auto split: option.splits)
  show ?case
  proof (cases "is_exec c")
    case True
    then obtain i where c: "c = Exec i" using is_exec_cases by blast
    with p have i: "i < length (inflight s)"
      and s1: "s1 = complete (fst (inflight s ! i)) (run_task cfg (snd (inflight s ! i)) (remove_task i s))"
      by (auto simp: perform_def exec_def split: if_splits)
    have "inserting obj u m j s1" unfolding s1 using Cons.prems(2) i by (rule inserting_exec)
    moreover have "filter (\<lambda>c. \<not> is_exec c) cs
        = map (\<lambda>i. AsyncInsert_call src u obj (int i) (int i)) [j..<m]"
      using Cons.prems(3) True by simp
    ultimately show ?thesis using Cons.IH [OF r] by blast
  next
    case False
    with Cons.prems(3) have e: "c # filter (\<lambda>c. \<not> is_exec c) cs
        = map (\<lambda>i. AsyncInsert_call src u obj (int i) (int i)) [j..<m]" by simp
    then have "map (\<lambda>i. AsyncInsert_call src u obj (int i) (int i)) [j..<m] \<noteq> []"
      by (metis list.distinct(1))
    then have "[j..<m] \<noteq> []" by (simp only: map_is_Nil_conv not_False_eq_True)
    then have jm: "j < m" by auto
    then have u: "[j..<m] = j # [Suc j..<m]" by (rule upt_conv_Cons)
    from e have c: "c = AsyncInsert_call src u obj (int j) (int j)"
      and rest: "filter (\<lambda>c. \<not> is_exec c) cs
        = map (\<lambda>i. AsyncInsert_call src u obj (int i) (int i)) [Suc j..<m]"
      unfolding u by simp_all
    from p have s1: "s1 = dispatch (UserHandle u) (InsertTask obj (int j) (int j)) s"
      unfolding c by (auto simp: perform_def returned_def AsyncInsert_def split: if_splits)
    have "inserting obj u m (Suc j) s1" unfolding s1 using Cons.prems(2) jm by (rule inserting_issue)
    then show ?thesis using Cons.IH [OF r _ rest] by blast
  qed
qed

lemma all_under_handle_drained:
  assumes "accounted s" "drained h s" "list_all (\<lambda>p. fst p = h \<and> Q p) (inflight s)"
  shows "inflight s = []"
proof -
  have "inflight_count h s = 0" using assms(1,2) by (rule accounted_drained)
  moreover have "filter (\<lambda>p. fst p = h) (inflight s) = inflight s"
    using assms(3) by (simp add: list_all_iff filter_id_conv)
  ultimately show ?thesis by (simp add: inflight_count_def)
qed

lemma inserting_drained:
  assumes "inserting obj u m m s" "drained (UserHandle u) s"
  shows "inflight s = []" "visited s = []" "accounted s" "live s obj"
    "keys_of obj s = mset (map int [0..<m])"
proof -
  from assms(1) have a: "accounted s" and v: "visited s = []" and l: "live s obj"
    and fl: "list_all (\<lambda>p. fst p = UserHandle u \<and> (\<exists>k. snd p = InsertTask obj k k)) (inflight s)"
    and e: "pending_keys s + keys_of obj s = mset (map int [0..<m])"
    by (simp_all add: inserting_def)
  show fl0: "inflight s = []" using a assms(2) fl by (rule all_under_handle_drained)
  show "visited s = []" "accounted s" "live s obj" by (rule v, rule a, rule l)
  show "keys_of obj s = mset (map int [0..<m])"
    using e fl0 by (simp add: pending_keys_def)
qed

lemma pending_visits_start:
  "sum_list (map (\<lambda>loc. task_visit s (KeysTask obj loc)) [0..<n_loc s]) = keys_of obj s"
proof -
  let ?g = "\<lambda>r. case r obj of None \<Rightarrow> {#} | Some sh \<Rightarrow> mset (shard_keys sh)"
  have "map (\<lambda>loc. task_visit s (KeysTask obj loc)) [0..<n_loc s]
      = map (\<lambda>loc. ?g (registries s ! loc)) [0..<n_loc s]"
    by (rule map_cong) (auto simp: task_visit_def resolve_def split: option.splits)
  also have "\<dots> = map ?g (map (nth (registries s)) [0..<length (registries s)])"
    by (simp add: n_loc_def)
  also have "\<dots> = map ?g (registries s)" by (simp only: map_nth)
  finally show ?thesis by (simp add: keys_of_def)
qed

lemma task_visit_registries:
  "registries s' = registries s \<Longrightarrow> task_visit s' t = task_visit s t"
  by (cases t) (simp_all add: task_visit_def resolve_def n_loc_def)

lemma visiting_start:
  assumes "inflight s = []" "visited s = []" "accounted s"
  shows "visiting obj u' (keys_of obj s)
     (fold (\<lambda>loc. dispatch (UserHandle u') (KeysTask obj loc)) [0..<n_loc s] s)"
proof -
  let ?s' = "fold (\<lambda>loc. dispatch (UserHandle u') (KeysTask obj loc)) [0..<n_loc s] s"
  have r: "registries ?s' = registries s" by simp
  have "pending_visits ?s' = sum_list (map (\<lambda>loc. task_visit ?s' (KeysTask obj loc)) [0..<n_loc s])"
    using assms(1) by (simp add: pending_visits_def comp_def)
  also have "\<dots> = sum_list (map (\<lambda>loc. task_visit s (KeysTask obj loc)) [0..<n_loc s])"
    using task_visit_registries [OF r] by simp
  also have "\<dots> = keys_of obj s" by (rule pending_visits_start)
  finally have "pending_visits ?s' = keys_of obj s" .
  moreover have "accounted ?s'" using assms(3) by (rule accounted_fold_dispatch)
  ultimately show ?thesis
    using assms(1,2) by (simp add: visiting_def list_all_iff)
qed

lemma visiting_exec:
  assumes "visiting obj u' K s" "i < length (inflight s)"
  shows "visiting obj u' K
     (complete (fst (inflight s ! i)) (run_task cfg (snd (inflight s ! i)) (remove_task i s)))"
proof -
  let ?r = "remove_task i s"
  let ?s' = "complete (fst (inflight s ! i)) (run_task cfg (snd (inflight s ! i)) ?r)"
  from assms(1) have a: "accounted s"
    and fl: "list_all (\<lambda>p. fst p = UserHandle u' \<and> (\<exists>loc. snd p = KeysTask obj loc)) (inflight s)"
    and e: "mset (map snd (visited s)) + pending_visits s = K"
    by (simp_all add: visiting_def)
  from fl assms(2) obtain loc where t: "snd (inflight s ! i) = KeysTask obj loc"
    by (auto simp: list_all_length)
  have rr: "resolve ?r loc obj = resolve s loc obj" by (simp add: resolve_def n_loc_def)
  have reg: "registries ?s' = registries s"
    unfolding t by (simp add: run_task_def split: sum.splits)
  have vis: "mset (map snd (visited ?s')) = mset (map snd (visited s)) + task_visit s (KeysTask obj loc)"
    unfolding t
    by (simp add: run_task_def task_visit_def rr multiset.map_comp comp_def split: sum.splits)
  have pv: "pending_visits s = task_visit s (KeysTask obj loc)
      + sum_list (map (\<lambda>p. task_visit s (snd p)) (take i (inflight s) @ drop (Suc i) (inflight s)))"
    unfolding pending_visits_def
    using sum_list_remove_nth [OF assms(2), of "\<lambda>p. task_visit s (snd p)"] t by simp
  have "pending_visits ?s'
      = sum_list (map (\<lambda>p. task_visit s (snd p)) (take i (inflight s) @ drop (Suc i) (inflight s)))"
    unfolding pending_visits_def using task_visit_registries [OF reg] by simp
  with vis pv e have e': "mset (map snd (visited ?s')) + pending_visits ?s' = K"
    by (simp add: add.commute add.left_commute add.assoc)
  have a': "accounted ?s'" using a assms(2) by (rule accounted_exec)
  have "set (inflight ?s') \<subseteq> set (inflight s)"
    using set_remove_nth [of i "inflight s"] by simp
  with fl have fl': "list_all (\<lambda>p. fst p = UserHandle u' \<and> (\<exists>loc. snd p = KeysTask obj loc))
      (inflight ?s')"
    unfolding list_all_iff by blast
  show ?thesis using a' fl' e' unfolding visiting_def by blast
qed

lemma visiting_run:
  assumes "run cfg cs s = Some s'" "visiting obj u' K s" "filter (\<lambda>c. \<not> is_exec c) cs = []"
  shows "visiting obj u' K s'"
  using assms
proof (induction cs arbitrary: s)
  case Nil
  then show ?case by simp
next
  case (Cons c cs)
  from Cons.prems(1) obtain s1 where p: "perform cfg c s = Some s1" and r: "run cfg cs s1 = Some s'"
    by (auto split: option.splits)
  from Cons.prems(3) have ex: "is_exec c" and rest: "filter (\<lambda>c. \<not> is_exec c) cs = []"
    by (auto split: if_splits)
  then obtain i where c: "c = Exec i" using is_exec_cases by blast
  with p have i: "i < length (inflight s)"
    and s1: "s1 = complete (fst (inflight s ! i)) (run_task cfg (snd (inflight s ! i)) (remove_task i s))"
    by (auto simp: perform_def exec_def split: if_splits)
  have "visiting obj u' K s1" unfolding s1 using Cons.prems(2) i by (rule visiting_exec)
  then show ?case using Cons.IH [OF r _ rest] by blast
qed

lemma traversal_run:
  assumes "run cfg cs s = Some s'" "inflight s = []" "visited s = []" "accounted s"
    "filter (\<lambda>c. \<not> is_exec c) cs = [AsyncForEachKey_call u' obj]"
  shows "visiting obj u' (keys_of obj s) s'"
  using assms
proof (induction cs arbitrary: s)
  case Nil
  then show ?case by simp
next
  case (Cons c cs)
  from Cons.prems(1) obtain s1 where p: "perform cfg c s = Some s1" and r: "run cfg cs s1 = Some s'"
    by (auto split: option.splits)
  show ?case
  proof (cases "is_exec c")
    case True
    then obtain i where "c = Exec i" using is_exec_cases by blast
    with p Cons.prems(2) show ?thesis by (simp add: perform_def exec_def)
  next
    case False
    with Cons.prems(5) have c: "c = AsyncForEachKey_call u' obj"
      and rest: "filter (\<lambda>c. \<not> is_exec c) cs = []" by simp_all
    from p have s1: "s1 = fold (\<lambda>loc. dispatch (UserHandle u') (KeysTask obj loc)) [0..<n_loc s] s"
      unfolding c by (auto simp: perform_def returned_def AsyncForEachKey_def split: if_splits)
    have "visiting obj u' (keys_of obj s) s1"
      unfolding s1 using Cons.prems(2,3,4) by (rule visiting_start)
    with r show ?thesis using rest by (rule visiting_run)
  qed
qed

lemma visiting_drained:
  assumes "visiting obj u' K s" "drained (UserHandle u') s"
  shows "mset (map snd (visited s)) = K"
proof -
  from assms(1) have a: "accounted s"
    and fl: "list_all (\<lambda>p. fst p = UserHandle u' \<and> (\<exists>loc. snd p = KeysTask obj loc)) (inflight s)"
    and e: "mset (map snd (visited s)) + pending_visits s = K"
    by (simp_all add: visiting_def)
  have "inflight s = []" using a assms(2) fl by (rule all_under_handle_drained)
  with e show ?thesis by (simp add: pending_visits_def)
qed

lemma inserting_fresh_map: "inserting 0 u m 0 fresh_map"
proof -
  have "inv int_config fresh_map" using run_fresh_map by (rule inv_reachable)
  then have "accounted fresh_map" by (simp add: inv_def)
  moreover have "live fresh_map 0" by (simp add: map_eval)
  moreover have "keys_of 0 fresh_map = {#}" by (simp add: keys_of_def map_eval)
  moreover have "inflight fresh_map = []" "visited fresh_map = []" by (simp_all add: map_eval)
  ultimately show ?thesis by (simp add: inserting_def pending_keys_def)
qed

text \<open>
  Claim C9: on the map created with the capacity hint 16 on four localities
  (\<open>fresh_map\<close>), let the keys 0 to 99 be inserted by \<open>AsyncInsert\<close> under one handle,
  the runtime executing the inserts at any steps in between and in any order, and let
  the wait on the handle return; let then \<open>AsyncForEachKey\<close> be called, the runtime
  executing its tasks in any order, and let the wait on its handle return. Then the
  calls of the caller's function, over all localities, are on the keys 0 to 99, each
  exactly once: a hundred calls on distinct keys. This holds for every hash function.
\<close>

theorem AsyncForEachKey_visits_each_key_once:
  assumes "filter (\<lambda>c. \<not> is_exec c) cs1
      = map (\<lambda>i. AsyncInsert_call src u 0 (int i) (int i)) [0..<100]"
    and "run cfg cs1 fresh_map = Some s2"
    and "waitForCompletion (UserHandle u) s2 \<noteq> None"
    and "filter (\<lambda>c. \<not> is_exec c) cs2 = [AsyncForEachKey_call u' 0]"
    and "run cfg cs2 s2 = Some s3"
    and "waitForCompletion (UserHandle u') s3 \<noteq> None"
  shows "mset (map snd (visited s3)) = mset (map int [0..<100])
    \<and> length (visited s3) = 100
    \<and> distinct (map snd (visited s3))
    \<and> set (map snd (visited s3)) = int ` {0..<100}"
proof -
  have d2: "drained (UserHandle u) s2" using assms(3)
    by (simp add: waitForCompletion_def split: if_splits)
  have d3: "drained (UserHandle u') s3" using assms(6)
    by (simp add: waitForCompletion_def split: if_splits)
  have "inserting 0 u 100 100 s2"
    using assms(2) inserting_fresh_map assms(1) by (rule inserting_run)
  from inserting_drained [OF this d2]
  have s2: "inflight s2 = []" "visited s2 = []" "accounted s2"
    and k: "keys_of 0 s2 = mset (map int [0..<100])" by simp_all
  have "visiting 0 u' (keys_of 0 s2) s3"
    using assms(5) s2 assms(4) by (rule traversal_run)
  then have m: "mset (map snd (visited s3)) = mset (map int [0..<100])"
    using d3 k visiting_drained by fastforce
  have "length (map snd (visited s3)) = length (map int [0..<100])"
    using m by (rule mset_eq_length)
  then have l: "length (visited s3) = 100" by simp
  have "distinct (map int [0..<100])" by (simp add: distinct_map inj_on_def)
  then have di: "distinct (map snd (visited s3))" using m by (metis mset_eq_imp_distinct_iff)
  have "set (map snd (visited s3)) = set (map int [0..<100])" using m by (rule mset_eq_setD)
  then have st: "set (map snd (visited s3)) = int ` {0..<100}" by simp
  from m l di st show ?thesis by blast
qed

lemma run_issue_inserts:
  assumes "live s obj" "src < n_loc s"
  shows "run cfg (map (\<lambda>i. AsyncInsert_call src u obj (f i) (g i)) xs) s
       = Some (fold (\<lambda>i. dispatch (UserHandle u) (InsertTask obj (f i) (g i))) xs s)"
  using assms
proof (induction xs arbitrary: s)
  case Nil
  then show ?case by simp
next
  case (Cons x xs)
  let ?s1 = "dispatch (UserHandle u) (InsertTask obj (f x) (g x)) s"
  have p: "perform cfg (AsyncInsert_call src u obj (f x) (g x)) s = Some ?s1"
    using Cons.prems by (simp add: perform_def returned_def AsyncInsert_def)
  have "live ?s1 obj" using Cons.prems(1) by (simp add: live_def)
  moreover have "src < n_loc ?s1" using Cons.prems(2) by simp
  ultimately have "run cfg (map (\<lambda>i. AsyncInsert_call src u obj (f i) (g i)) xs) ?s1
       = Some (fold (\<lambda>i. dispatch (UserHandle u) (InsertTask obj (f i) (g i))) xs ?s1)"
    by (rule Cons.IH)
  with p show ?case by simp
qed

lemma run_execs:
  assumes "n \<le> length (inflight s)"
  shows "\<exists>s'. run cfg (replicate n (Exec 0)) s = Some s'
     \<and> length (inflight s') + n = length (inflight s) \<and> n_loc s' = n_loc s"
  using assms
proof (induction n arbitrary: s)
  case 0
  then show ?case by simp
next
  case (Suc n)
  let ?s1 = "complete (fst (inflight s ! 0)) (run_task cfg (snd (inflight s ! 0)) (remove_task 0 s))"
  have p: "perform cfg (Exec 0) s = Some ?s1"
    using Suc.prems by (auto simp: perform_def exec_def)
  have l: "length (inflight ?s1) = length (inflight s) - 1" by simp
  with Suc.prems have "n \<le> length (inflight ?s1)" by simp
  from Suc.IH [OF this] obtain s' where
    r: "run cfg (replicate n (Exec 0)) ?s1 = Some s'"
    and l': "length (inflight s') + n = length (inflight ?s1)"
    and n': "n_loc s' = n_loc ?s1" by blast
  have "run cfg (replicate (Suc n) (Exec 0)) s = Some s'" using p r by simp
  moreover have "length (inflight s') + Suc n = length (inflight s)"
    using l l' Suc.prems by simp
  moreover have "n_loc s' = n_loc s" using n' by simp
  ultimately show ?case by blast
qed

lemma accounted_idle: "accounted s \<Longrightarrow> inflight s = [] \<Longrightarrow> drained h s"
  by (simp add: accounted_def drained_def inflight_count_def)

lemma run_hundred_inserts:
  "\<exists>s'. run int_config hundred_inserts fresh_map = Some s' \<and> inflight s' = [] \<and> n_loc s' = 4"
proof -
  let ?f = "\<lambda>i. dispatch (UserHandle 0) (InsertTask 0 (int i) (int i))"
  let ?s1 = "fold ?f [0..<100] fresh_map"
  have l: "live fresh_map 0" and n: "n_loc fresh_map = 4" and i: "inflight fresh_map = []"
    by (simp_all add: map_eval)
  have r1: "run int_config (map (\<lambda>i. AsyncInsert_call 0 0 0 (int i) (int i)) [0..<100]) fresh_map
      = Some ?s1"
    using l by (rule run_issue_inserts) (simp add: n)
  have "100 \<le> length (inflight ?s1)" using i by simp
  from run_execs [OF this, of int_config] obtain s' where
    r2: "run int_config (replicate 100 (Exec 0)) ?s1 = Some s'"
    and l2: "length (inflight s') + 100 = length (inflight ?s1)"
    and n2: "n_loc s' = n_loc ?s1" by blast
  have "run int_config hundred_inserts fresh_map = Some s'"
    unfolding hundred_inserts_def run_append using r1 r2 by simp
  moreover have "inflight s' = []" using l2 i by simp
  moreover have "n_loc s' = 4" using n2 n by simp
  ultimately show ?thesis by blast
qed

lemma run_traversal:
  assumes "live s 0" "inflight s = []" "n_loc s = 4"
  shows "\<exists>s'. run cfg traversal s = Some s' \<and> inflight s' = []"
proof -
  let ?s1 = "fold (\<lambda>loc. dispatch (UserHandle 1) (KeysTask 0 loc)) [0..<n_loc s] s"
  have p: "perform cfg (AsyncForEachKey_call 1 0) s = Some ?s1"
    using assms(1) by (simp add: perform_def returned_def AsyncForEachKey_def)
  have "4 \<le> length (inflight ?s1)" using assms(2,3) by simp
  from run_execs [OF this, of cfg] obtain s' where
    r: "run cfg (replicate 4 (Exec 0)) ?s1 = Some s'"
    and l: "length (inflight s') + 4 = length (inflight ?s1)" by blast
  have "run cfg traversal s = Some s'" unfolding traversal_def using p r by simp
  moreover have "inflight s' = []" using l assms(2,3) by simp
  ultimately show ?thesis by blast
qed

text \<open>
  The theorem at the histories \<open>hundred_inserts\<close> and \<open>traversal\<close>, with the hash
  function of \<open>int_config\<close>.
\<close>

theorem AsyncForEachKey_visits_each_key_once_witness:
  "filter (\<lambda>c. \<not> is_exec c) hundred_inserts
      = map (\<lambda>i. AsyncInsert_call 0 0 0 (int i) (int i)) [0..<100]
   \<and> run int_config hundred_inserts fresh_map
      = Some (the (run int_config hundred_inserts fresh_map))
   \<and> waitForCompletion (UserHandle 0) (the (run int_config hundred_inserts fresh_map)) \<noteq> None
   \<and> filter (\<lambda>c. \<not> is_exec c) traversal = [AsyncForEachKey_call 1 0]
   \<and> run int_config traversal (the (run int_config hundred_inserts fresh_map))
      = Some (the (run int_config traversal (the (run int_config hundred_inserts fresh_map))))
   \<and> waitForCompletion (UserHandle 1)
        (the (run int_config traversal (the (run int_config hundred_inserts fresh_map)))) \<noteq> None
   \<and> mset (map snd (visited
        (the (run int_config traversal (the (run int_config hundred_inserts fresh_map))))))
      = mset (map int [0..<100])
   \<and> length (visited
        (the (run int_config traversal (the (run int_config hundred_inserts fresh_map))))) = 100
   \<and> distinct (map snd (visited
        (the (run int_config traversal (the (run int_config hundred_inserts fresh_map))))))
   \<and> set (map snd (visited
        (the (run int_config traversal (the (run int_config hundred_inserts fresh_map))))))
      = int ` {0..<100}"
proof -
  let ?s2 = "the (run int_config hundred_inserts fresh_map)"
  let ?s3 = "the (run int_config traversal ?s2)"
  have f1: "filter (\<lambda>c. \<not> is_exec c) hundred_inserts
      = map (\<lambda>i. AsyncInsert_call 0 0 0 (int i) (int i)) [0..<100]"
    by (simp add: hundred_inserts_def is_exec_def filter_map comp_def)
  have f2: "filter (\<lambda>c. \<not> is_exec c) traversal = [AsyncForEachKey_call 1 0]"
    by (simp add: traversal_def is_exec_def)
  from run_hundred_inserts have r1: "run int_config hundred_inserts fresh_map = Some ?s2"
    and i2: "inflight ?s2 = []" and n2: "n_loc ?s2 = 4" by auto
  have "inv int_config fresh_map" using run_fresh_map by (rule inv_reachable)
  with r1 have v2: "inv int_config ?s2" by (rule inv_run)
  then have "accounted ?s2" by (simp add: inv_def)
  then have "drained (UserHandle 0) ?s2" using i2 by (rule accounted_idle)
  then have w1: "waitForCompletion (UserHandle 0) ?s2 \<noteq> None"
    by (simp add: waitForCompletion_def)
  have "inserting 0 0 100 100 ?s2" using r1 inserting_fresh_map f1 by (rule inserting_run)
  then have "live ?s2 0" by (simp add: inserting_def)
  from run_traversal [OF this i2 n2, of int_config]
  have r2: "run int_config traversal ?s2 = Some ?s3" and i3: "inflight ?s3 = []" by auto
  from r2 v2 have "inv int_config ?s3" by (rule inv_run)
  then have "accounted ?s3" by (simp add: inv_def)
  then have "drained (UserHandle 1) ?s3" using i3 by (rule accounted_idle)
  then have w2: "waitForCompletion (UserHandle 1) ?s3 \<noteq> None"
    by (simp add: waitForCompletion_def)
  have c: "mset (map snd (visited ?s3)) = mset (map int [0..<100])
    \<and> length (visited ?s3) = 100
    \<and> distinct (map snd (visited ?s3))
    \<and> set (map snd (visited ?s3)) = int ` {0..<100}"
    using f1 r1 w1 f2 r2 w2
    by (rule AsyncForEachKey_visits_each_key_once
        [where ?cs1.0 = hundred_inserts and src = 0 and u = 0 and cfg = int_config
          and ?s2.0 = ?s2 and ?cs2.0 = traversal and u' = 1 and ?s3.0 = ?s3])
  from f1 r1 w1 f2 r2 w2 c show ?thesis by blast
qed

end
